(* ===== verification/Prelude.thy ===== *)
theory Prelude
  imports Main "HOL-Library.Word"
begin

text \<open>
  Shared vocabulary of the development: the machine types of the C++ sources, the pieces of
  the C++ standard library that the proxy calls (\<^verbatim>\<open>std::string_view::find\<close>,
  \<^verbatim>\<open>std::from_chars\<close>, \<^verbatim>\<open>std::to_string\<close>, the \<^verbatim>\<open><cctype>\<close> predicates in the
  \<^verbatim>\<open>C\<close> locale, \<^verbatim>\<open>memcpy\<close> into a vector), and the generic lemmas on lists, bytes and
  numerals that the component theories use.

  A buffer of \<^verbatim>\<open>unsigned char\<close> is a list of 8-bit words, a \<^verbatim>\<open>std::string\<close> is a list of
  characters (one character is one byte), and \<open>string_of_bytes\<close> is the
  \<^verbatim>\<open>reinterpret_cast\<close> between the two.  Sizes are natural numbers; where the code's
  \<^verbatim>\<open>size_t\<close> or \<^verbatim>\<open>uint64_t\<close> arithmetic can wrap, the wrap is written out.
\<close>

unbundle bit_operations_syntax

type_synonym byte = "8 word"
type_synonym bytes = "8 word list"
type_synonym u8 = "8 word"
type_synonym u16 = "16 word"
type_synonym u32 = "32 word"
type_synonym u64 = "64 word"

named_theorems find_simps "evaluation and characterisation of substring search"
named_theorems char_simps "evaluation of the character predicates"
named_theorems numeral_io "reading and printing of unsigned numerals"

section \<open>Bytes and characters\<close>

definition byte_of_char :: "char \<Rightarrow> byte" where
  "byte_of_char c = of_char c"

definition char_of_byte :: "byte \<Rightarrow> char" where
  "char_of_byte b = char_of (unat b)"

definition bytes_of_string :: "string \<Rightarrow> bytes" where
  "bytes_of_string s = map byte_of_char s"

definition string_of_bytes :: "bytes \<Rightarrow> string" where
  "string_of_bytes bs = map char_of_byte bs"

lemma byte_of_char_alt: "byte_of_char c = word_of_nat (of_char c)"
proof -
  have "of_nat (of_char c) = (of_char c :: byte)"
    by (simp add: of_char_def horner_sum_simps)
  then show ?thesis by (simp add: byte_of_char_def)
qed

lemma unat_byte_of_char [simp]: "unat (byte_of_char c) = of_char c"
proof -
  have "(of_char c :: nat) < 256" by (rule nat_of_char_less_256)
  then show ?thesis by (simp add: byte_of_char_alt unat_of_nat)
qed

lemma char_of_byte_of_char [simp]: "char_of_byte (byte_of_char c) = c"
  by (simp add: char_of_byte_def)

lemma byte_of_char_of_byte [simp]: "byte_of_char (char_of_byte b) = b"
proof -
  have "unat b < 256" using unsigned_less [of b, where 'a = nat] by simp
  then show ?thesis by (simp add: byte_of_char_alt char_of_byte_def of_char_of)
qed

lemma byte_of_char_inject [simp]: "byte_of_char a = byte_of_char b \<longleftrightarrow> a = b"
  by (metis char_of_byte_of_char)

lemma string_of_bytes_of_string [simp]: "string_of_bytes (bytes_of_string s) = s"
  by (simp add: string_of_bytes_def bytes_of_string_def o_def)

lemma bytes_of_string_of_bytes [simp]: "bytes_of_string (string_of_bytes bs) = bs"
  by (simp add: string_of_bytes_def bytes_of_string_def o_def)

lemma length_string_of_bytes [simp]: "length (string_of_bytes bs) = length bs"
  by (simp add: string_of_bytes_def)

lemma length_bytes_of_string [simp]: "length (bytes_of_string s) = length s"
  by (simp add: bytes_of_string_def)

lemma string_of_bytes_append [simp]:
  "string_of_bytes (xs @ ys) = string_of_bytes xs @ string_of_bytes ys"
  by (simp add: string_of_bytes_def)

lemma bytes_of_string_append [simp]:
  "bytes_of_string (xs @ ys) = bytes_of_string xs @ bytes_of_string ys"
  by (simp add: bytes_of_string_def)

lemma string_of_bytes_take [simp]:
  "string_of_bytes (take n bs) = take n (string_of_bytes bs)"
  by (simp add: string_of_bytes_def take_map)

lemma string_of_bytes_drop [simp]:
  "string_of_bytes (drop n bs) = drop n (string_of_bytes bs)"
  by (simp add: string_of_bytes_def drop_map)

lemma take_bytes_of_string: "take n (bytes_of_string s) = bytes_of_string (take n s)"
  by (simp add: bytes_of_string_def take_map)

lemma drop_bytes_of_string: "drop n (bytes_of_string s) = bytes_of_string (drop n s)"
  by (simp add: bytes_of_string_def drop_map)

lemma string_of_bytes_Nil [simp]: "string_of_bytes [] = []"
  by (simp add: string_of_bytes_def)

lemma bytes_of_string_Nil [simp]: "bytes_of_string [] = []"
  by (simp add: bytes_of_string_def)

text \<open>The character constants the sources compare against.\<close>

abbreviation CR :: char where "CR \<equiv> CHR 0x0D"
abbreviation LF :: char where "LF \<equiv> CHR 0x0A"
abbreviation TAB :: char where "TAB \<equiv> CHR 0x09"
abbreviation SP :: char where "SP \<equiv> CHR 0x20"
abbreviation CRLF :: string where "CRLF \<equiv> [CHR 0x0D, CHR 0x0A]"

section \<open>The character classes of the C locale\<close>

definition ord_c :: "char \<Rightarrow> nat" where
  "ord_c c = of_char c"

definition isupper_c :: "char \<Rightarrow> bool" where
  "isupper_c c \<longleftrightarrow> 65 \<le> ord_c c \<and> ord_c c \<le> 90"

definition islower_c :: "char \<Rightarrow> bool" where
  "islower_c c \<longleftrightarrow> 97 \<le> ord_c c \<and> ord_c c \<le> 122"

definition isdigit_c :: "char \<Rightarrow> bool" where
  "isdigit_c c \<longleftrightarrow> 48 \<le> ord_c c \<and> ord_c c \<le> 57"

definition isalnum_c :: "char \<Rightarrow> bool" where
  "isalnum_c c \<longleftrightarrow> isupper_c c \<or> islower_c c \<or> isdigit_c c"

definition isspace_c :: "char \<Rightarrow> bool" where
  "isspace_c c \<longleftrightarrow> ord_c c = 32 \<or> (9 \<le> ord_c c \<and> ord_c c \<le> 13)"

definition tolower_c :: "char \<Rightarrow> char" where
  "tolower_c c = (if isupper_c c then char_of (ord_c c + 32) else c)"

lemmas ctype_defs [char_simps] =
  isupper_c_def islower_c_def isdigit_c_def isalnum_c_def isspace_c_def tolower_c_def ord_c_def

lemma ord_c_less: "ord_c c < 256"
  unfolding ord_c_def by (rule nat_of_char_less_256)

lemma ord_c_char_of: "n < 256 \<Longrightarrow> ord_c (char_of n) = n"
  by (simp add: ord_c_def of_char_of)

lemma ord_c_inject: "ord_c a = ord_c b \<longleftrightarrow> a = b"
  by (simp add: ord_c_def)

lemma tolower_c_idem [simp]: "tolower_c (tolower_c c) = tolower_c c"
proof -
  have "\<not> isupper_c (char_of (ord_c c + 32))" if "isupper_c c"
    using that by (simp add: isupper_c_def ord_c_char_of)
  then show ?thesis by (simp add: tolower_c_def)
qed

lemma isupper_tolower_c [simp]: "\<not> isupper_c (tolower_c c)"
proof (cases "isupper_c c")
  case True
  then have "ord_c (char_of (ord_c c + 32)) = ord_c c + 32"
    by (intro ord_c_char_of) (simp add: isupper_c_def)
  with True show ?thesis by (simp add: tolower_c_def isupper_c_def)
next
  case False
  then show ?thesis by (simp add: tolower_c_def)
qed

lemma char_of_numeral_eval [char_simps]: "char_of (n :: nat) = Char (odd n) (odd (n div 2))
  (odd (n div 4)) (odd (n div 8)) (odd (n div 16)) (odd (n div 32)) (odd (n div 64)) (odd (n div 128))"
  by (simp add: char_of_def bit_iff_odd)

section \<open>Substring search\<close>

text \<open>
  \<open>find_str p s\<close> is \<^verbatim>\<open>s.find(p)\<close>: the least index at which \<open>p\<close> occurs, with
  \<^verbatim>\<open>npos\<close> as \<open>None\<close>.  \<open>find_from p i s\<close> is \<^verbatim>\<open>s.find(p, i)\<close>.
\<close>

fun find_str :: "'a list \<Rightarrow> 'a list \<Rightarrow> nat option" where
  "find_str p [] = (if p = [] then Some 0 else None)"
| "find_str p (x # xs) =
     (if take (length p) (x # xs) = p then Some 0 else map_option Suc (find_str p xs))"

definition find_from :: "'a list \<Rightarrow> nat \<Rightarrow> 'a list \<Rightarrow> nat option" where
  "find_from p i s = (if i \<le> length s then map_option ((+) i) (find_str p (drop i s)) else None)"

definition contains_str :: "'a list \<Rightarrow> 'a list \<Rightarrow> bool" where
  "contains_str p s = (find_str p s \<noteq> None)"

lemma find_str_Some:
  "find_str p s = Some i \<Longrightarrow>
     take (length p) (drop i s) = p \<and> i + length p \<le> length s \<and>
     (\<forall>j<i. take (length p) (drop j s) \<noteq> p)"
proof (induction p s arbitrary: i rule: find_str.induct)
  case (1 p)
  then show ?case by (simp split: if_splits)
next
  case (2 p x xs)
  show ?case
  proof (cases "take (length p) (x # xs) = p")
    case True
    moreover from True have "length p \<le> Suc (length xs)"
      by (metis length_Cons length_take min.cobounded1)
    ultimately show ?thesis using "2.prems" by simp
  next
    case False
    with "2.prems" obtain i' where i': "find_str p xs = Some i'" "i = Suc i'"
      by auto
    from "2.IH" [OF False i'(1)] False i'(2) show ?thesis
      by (auto simp: less_Suc_eq_0_disj)
  qed
qed

lemma find_str_None: "find_str p s = None \<longleftrightarrow> (\<forall>j\<le>length s. take (length p) (drop j s) \<noteq> p)"
proof (induction p s rule: find_str.induct)
  case (1 p)
  then show ?case by simp
next
  case (2 p x xs)
  have "(\<forall>j\<le>length (x # xs). take (length p) (drop j (x # xs)) \<noteq> p) \<longleftrightarrow>
      take (length p) (x # xs) \<noteq> p \<and> (\<forall>j\<le>length xs. take (length p) (drop j xs) \<noteq> p)"
    (is "?L \<longleftrightarrow> ?R")
  proof
    assume L: ?L
    from L [rule_format, of 0] have "take (length p) (x # xs) \<noteq> p" by simp
    moreover have "take (length p) (drop j xs) \<noteq> p" if "j \<le> length xs" for j
      using L [rule_format, of "Suc j"] that by simp
    ultimately show ?R by simp
  next
    assume ?R
    then show ?L by (metis drop0 drop_Suc_Cons length_Cons not0_implies_Suc Suc_le_mono)
  qed
  with "2.IH" show ?case by auto
qed

lemma find_str_append:
  "find_str p s = Some i \<Longrightarrow> p \<noteq> [] \<Longrightarrow> find_str p (s @ t) = Some i"
proof (induction p s arbitrary: i rule: find_str.induct)
  case (1 p)
  then show ?case by (simp split: if_splits)
next
  case (2 p x xs)
  show ?case
  proof (cases "take (length p) (x # xs) = p")
    case True
    then have "length p \<le> length (x # xs)"
      by (metis length_take min.cobounded1)
    then have "take (length p) (x # xs @ t) = p"
      using True by (metis append_Cons append_take_drop_id diff_is_0_eq' take_append take0 append_Nil2)
    with True "2.prems" show ?thesis by simp
  next
    case False
    with "2.prems" obtain i' where i': "find_str p xs = Some i'" "i = Suc i'" by auto
    have "take (length p) (x # xs @ t) \<noteq> p"
    proof
      assume eq: "take (length p) (x # xs @ t) = p"
      from find_str_Some [OF i'(1)] have "length p \<le> length (x # xs)" by simp
      then have "take (length p) (x # xs) = take (length p) ((x # xs) @ t)"
        by (simp only: take_append) simp
      with eq False show False by simp
    qed
    with "2.IH" [OF False i'(1) "2.prems"(2)] i'(2) show ?thesis by simp
  qed
qed

lemma find_char_None [find_simps]: "find_str [c] s = None \<longleftrightarrow> c \<notin> set s"
  by (induction s) auto

lemma find_char_split [find_simps]:
  "c \<notin> set a \<Longrightarrow> find_str [c] (a @ c # b) = Some (length a)"
  by (induction a) auto

lemma find_crlf_split [find_simps]:
  "x \<notin> set a \<Longrightarrow> find_str [x, y] (a @ x # y # b) = Some (length a)"
  by (induction a) (auto simp: find_str.simps)

lemma find_char_Some:
  "find_str [c] s = Some i \<Longrightarrow> i < length s \<and> s ! i = c \<and> c \<notin> set (take i s)"
proof (induction s arbitrary: i)
  case Nil
  then show ?case by simp
next
  case (Cons x xs)
  then show ?case by (auto split: if_splits simp: nth_Cons')
qed

lemma find_str_cut:
  "find_str p s = Some i \<Longrightarrow> s = take i s @ p @ drop (i + length p) s"
proof -
  assume a: "find_str p s = Some i"
  have "drop i s = take (length p) (drop i s) @ drop (length p) (drop i s)"
    by (simp only: append_take_drop_id)
  also have "\<dots> = p @ drop (i + length p) s"
    using find_str_Some [OF a] by (simp add: add.commute)
  finally show ?thesis by (metis append_take_drop_id)
qed

lemma find_from_0 [simp]: "find_from p 0 s = find_str p s"
  by (cases "find_str p s") (simp_all add: find_from_def)

lemma find_from_Some:
  "find_from p i s = Some j \<Longrightarrow>
     i \<le> j \<and> j + length p \<le> length s \<and> take (length p) (drop j s) = p"
  by (auto simp: find_from_def add.commute split: if_splits dest!: find_str_Some)

lemma find_from_append:
  "find_from p i s = Some j \<Longrightarrow> p \<noteq> [] \<Longrightarrow> find_from p i (s @ t) = Some j"
  by (auto simp: find_from_def split: if_splits dest: find_str_append [where t = t])

section \<open>Numerals: \<open>from_chars\<close>, \<open>to_string\<close>, \<open>%zx\<close>\<close>

text \<open>
  \<open>from_chars base bound s\<close> models \<^verbatim>\<open>std::from_chars\<close> for an unsigned type whose values are
  below \<open>bound\<close>: the longest digit prefix is consumed; no digit at all and a value out of
  range are the two error codes (\<open>None\<close>); otherwise the value and the unread rest.
\<close>

definition digit_val :: "char \<Rightarrow> nat option" where
  "digit_val c =
     (if isdigit_c c then Some (ord_c c - 48)
      else if islower_c c then Some (ord_c c - 87)
      else if isupper_c c then Some (ord_c c - 55)
      else None)"

definition is_digit :: "nat \<Rightarrow> char \<Rightarrow> bool" where
  "is_digit base c = (case digit_val c of None \<Rightarrow> False | Some d \<Rightarrow> d < base)"

definition digits_value :: "nat \<Rightarrow> string \<Rightarrow> nat" where
  "digits_value base s = foldl (\<lambda>a c. a * base + the (digit_val c)) 0 s"

definition from_chars :: "nat \<Rightarrow> nat \<Rightarrow> string \<Rightarrow> (nat \<times> string) option" where
  "from_chars base bound s =
     (let ds = takeWhile (is_digit base) s; v = digits_value base ds
      in if ds = [] then None else if v < bound then Some (v, dropWhile (is_digit base) s) else None)"

definition from_chars_all :: "nat \<Rightarrow> nat \<Rightarrow> string \<Rightarrow> nat option" where
  "from_chars_all base bound s =
     (case from_chars base bound s of Some (v, []) \<Rightarrow> Some v | _ \<Rightarrow> None)"

definition digit_char :: "nat \<Rightarrow> char" where
  "digit_char d = (if d < 10 then char_of (48 + d) else char_of (87 + d))"

fun show_nat :: "nat \<Rightarrow> nat \<Rightarrow> string" where
  "show_nat base n =
     (if base < 2 \<or> n < base then [digit_char n]
      else show_nat base (n div base) @ [digit_char (n mod base)])"

declare show_nat.simps [simp del]

lemma digit_val_digit_char: "d < 36 \<Longrightarrow> digit_val (digit_char d) = Some d"
  by (auto simp: digit_val_def digit_char_def isdigit_c_def islower_c_def isupper_c_def ord_c_char_of)

lemma is_digit_digit_char: "d < base \<Longrightarrow> base \<le> 36 \<Longrightarrow> is_digit base (digit_char d)"
  by (simp add: is_digit_def digit_val_digit_char)

lemma show_nat_digits: "2 \<le> base \<Longrightarrow> base \<le> 36 \<Longrightarrow> \<forall>c\<in>set (show_nat base n). is_digit base c"
proof (induction base n rule: show_nat.induct)
  case (1 base n)
  show ?case
  proof (cases "n < base")
    case True
    with "1.prems" show ?thesis by (simp add: show_nat.simps [of base n] is_digit_digit_char)
  next
    case False
    with "1" have "\<forall>c\<in>set (show_nat base (n div base)). is_digit base c" by simp
    moreover from "1.prems" have "is_digit base (digit_char (n mod base))"
      by (intro is_digit_digit_char) auto
    ultimately show ?thesis using False "1.prems" by (simp add: show_nat.simps [of base n])
  qed
qed

lemma show_nat_nonempty [simp]: "show_nat base n \<noteq> []"
  by (subst show_nat.simps) simp

lemma show_nat_length:
  "n < base ^ k \<Longrightarrow> 0 < k \<Longrightarrow> 2 \<le> base \<Longrightarrow> length (show_nat base n) \<le> k"
proof (induction base n arbitrary: k rule: show_nat.induct)
  case (1 base n)
  show ?case
  proof (cases "n < base")
    case True
    with "1.prems" show ?thesis by (simp add: show_nat.simps [of base n])
  next
    case False
    with "1.prems" obtain j where k: "k = Suc j" "0 < j" by (cases k; cases "k - 1") auto
    have "n < base ^ j * base" using "1.prems"(1) k by (simp add: mult.commute)
    then have "n div base < base ^ j" by (rule less_mult_imp_div_less)
    with "1.IH" "1.prems" False k have "length (show_nat base (n div base)) \<le> j" by simp
    with False "1.prems" k show ?thesis by (simp add: show_nat.simps [of base n])
  qed
qed

lemma is_digit_alnum: "is_digit base c \<Longrightarrow> isalnum_c c"
  by (auto simp: is_digit_def digit_val_def isalnum_c_def split: if_splits option.splits)

lemma show_nat_alnum: "2 \<le> base \<Longrightarrow> base \<le> 36 \<Longrightarrow> c \<in> set (show_nat base n) \<Longrightarrow> isalnum_c c"
  using show_nat_digits is_digit_alnum by blast

lemma digits_value_show_nat: "2 \<le> base \<Longrightarrow> base \<le> 36 \<Longrightarrow> digits_value base (show_nat base n) = n"
proof (induction base n rule: show_nat.induct)
  case (1 base n)
  show ?case
  proof (cases "n < base")
    case True
    with "1.prems" show ?thesis
      by (simp add: show_nat.simps [of base n] digits_value_def digit_val_digit_char)
  next
    case False
    with "1" have IH: "digits_value base (show_nat base (n div base)) = n div base" by simp
    have "n mod base < base" using "1.prems" by simp
    with "1.prems" have "n mod base < 36" by linarith
    then have "digit_val (digit_char (n mod base)) = Some (n mod base)" by (rule digit_val_digit_char)
    with False "1.prems" IH show ?thesis
      by (simp add: show_nat.simps [of base n] digits_value_def)
  qed
qed

lemma from_chars_show_nat [numeral_io]:
  assumes "2 \<le> base" "base \<le> 36" "n < bound" "\<And>c r. rest = c # r \<Longrightarrow> \<not> is_digit base c"
  shows "from_chars base bound (show_nat base n @ rest) = Some (n, rest)"
proof -
  have "takeWhile (is_digit base) (show_nat base n @ rest) = show_nat base n"
    "dropWhile (is_digit base) (show_nat base n @ rest) = rest"
    using assms show_nat_digits [OF assms(1,2), of n]
    by (cases rest; simp add: takeWhile_append dropWhile_append)+
  then show ?thesis
    using assms by (simp add: from_chars_def digits_value_show_nat)
qed

lemma from_chars_all_show_nat [numeral_io]:
  "2 \<le> base \<Longrightarrow> base \<le> 36 \<Longrightarrow> n < bound \<Longrightarrow> from_chars_all base bound (show_nat base n) = Some n"
  using from_chars_show_nat [of base n bound "[]"] by (simp add: from_chars_all_def)

lemma from_chars_bound: "from_chars base bound s = Some (v, r) \<Longrightarrow> v < bound"
  by (auto simp: from_chars_def Let_def split: if_splits)

lemma from_chars_all_bound: "from_chars_all base bound s = Some v \<Longrightarrow> v < bound"
  by (auto simp: from_chars_all_def split: option.splits list.splits dest: from_chars_bound)

section \<open>Stripping both ends\<close>

definition strip :: "('a \<Rightarrow> bool) \<Rightarrow> 'a list \<Rightarrow> 'a list" where
  "strip P s = rev (dropWhile P (rev (dropWhile P s)))"

lemma strip_id: "s = [] \<or> (\<not> P (hd s) \<and> \<not> P (last s)) \<Longrightarrow> strip P s = s"
proof (cases "s = []")
  case False
  assume "s = [] \<or> (\<not> P (hd s) \<and> \<not> P (last s))"
  with False have ends: "\<not> P (hd s)" "\<not> P (last s)" by auto
  have "dropWhile P s = s" using ends(1) by (cases s) auto
  moreover have "dropWhile P (rev s) = rev s" using ends(2) by (cases s rule: rev_cases) auto
  ultimately have "dropWhile P s = s" "dropWhile P (rev s) = rev s" .
  then show ?thesis by (simp add: strip_def)
qed (simp add: strip_def)

lemma strip_ends:
  assumes "strip P s \<noteq> []"
  shows "\<not> P (hd (strip P s))" "\<not> P (last (strip P s))"
proof -
  define t where "t = dropWhile P s"
  have ne: "dropWhile P (rev t) \<noteq> []" using assms by (simp add: strip_def t_def)
  then show "\<not> P (last (strip P s))"
    using hd_dropWhile [of P "rev t"] by (simp add: strip_def t_def last_rev)
  obtain u where "rev t = u @ dropWhile P (rev t)" by (metis takeWhile_dropWhile_id)
  then have "t = rev (dropWhile P (rev t)) @ rev u" by (metis rev_append rev_rev_ident)
  then have "hd (strip P s) = hd t" using ne by (metis hd_append2 rev_is_Nil_conv strip_def t_def)
  moreover have "t \<noteq> []" using ne by auto
  ultimately show "\<not> P (hd (strip P s))" unfolding t_def using hd_dropWhile by metis
qed

lemma strip_idem [simp]: "strip P (strip P s) = strip P s"
  by (metis strip_ends strip_id)

lemma set_strip: "set (strip P s) \<subseteq> set s"
  by (auto simp: strip_def dest!: set_dropWhileD)

lemma strip_Cons: "P x \<Longrightarrow> strip P (x # s) = strip P s"
  by (simp add: strip_def)

section \<open>Copying into a vector\<close>

text \<open>\<open>blit xs i ys\<close> overwrites \<open>xs\<close> from index \<open>i\<close> on with \<open>ys\<close> (\<^verbatim>\<open>memcpy\<close>).\<close>

definition blit :: "'a list \<Rightarrow> nat \<Rightarrow> 'a list \<Rightarrow> 'a list" where
  "blit xs i ys = take i xs @ ys @ drop (i + length ys) xs"

lemma length_blit [simp]: "i + length ys \<le> length xs \<Longrightarrow> length (blit xs i ys) = length xs"
  by (simp add: blit_def)

lemma nth_blit:
  assumes "i + length ys \<le> length xs" "j < length xs"
  shows "blit xs i ys ! j = (if i \<le> j \<and> j < i + length ys then ys ! (j - i) else xs ! j)"
proof -
  have "j - i - length ys + (i + length ys) = j" if "i + length ys \<le> j"
    using that by simp
  with assms show ?thesis
    by (auto simp: blit_def nth_append)
qed

section \<open>Sequencing of fallible steps\<close>

text \<open>
  A fallible operation on a state returns a result (\<open>Inl\<close> the error, \<open>Inr\<close> the value) and
  the state it leaves.  \<open>try_then p f\<close> is the idiom
  \<^verbatim>\<open>auto r = ...; if (r.is_err()) { return r; }\<close> followed by the rest \<open>f\<close>.
\<close>

definition try_then :: "('e + 'a) \<times> 's \<Rightarrow> ('a \<Rightarrow> 's \<Rightarrow> ('e + 'b) \<times> 's) \<Rightarrow> ('e + 'b) \<times> 's" where
  "try_then p f = (case p of (Inl e, s) \<Rightarrow> (Inl e, s) | (Inr v, s) \<Rightarrow> f v s)"

lemma try_then_Inr [simp]: "try_then (Inr v, s) f = f v s"
  by (simp add: try_then_def)

lemma try_then_Inl [simp]: "try_then (Inl e, s) f = (Inl e, s)"
  by (simp add: try_then_def)

lemma try_then_cong [fundef_cong]:
  "p = q \<Longrightarrow> (\<And>v s. q = (Inr v, s) \<Longrightarrow> f v s = g v s) \<Longrightarrow> try_then p f = try_then q g"
  by (auto simp: try_then_def split: prod.splits sum.splits)

lemma try_then_assoc: "try_then (try_then p f) g = try_then p (\<lambda>v s. try_then (f v s) g)"
  by (auto simp: try_then_def split: prod.splits sum.splits)

lemma try_then_eq_Inr:
  "try_then p f = (Inr w, t) \<longleftrightarrow> (\<exists>v s. p = (Inr v, s) \<and> f v s = (Inr w, t))"
  by (auto simp: try_then_def split: prod.splits sum.splits)

lemma try_then_split:
  "P (try_then p f) \<longleftrightarrow>
     (\<forall>e s. p = (Inl e, s) \<longrightarrow> P (Inl e, s)) \<and> (\<forall>v s. p = (Inr v, s) \<longrightarrow> P (f v s))"
  by (auto simp: try_then_def split: prod.splits sum.splits)

section \<open>Hash maps as lists of pairs\<close>

text \<open>A hash map whose iteration order matters, or whose values own something, is a list of pairs;
  \<open>map_of\<close> is its \<^verbatim>\<open>find\<close>.  \<open>erase\<close> and \<open>assign\<close> act on the first pair with the key, the only one.\<close>

fun erase :: "'k \<Rightarrow> ('k \<times> 'v) list \<Rightarrow> ('k \<times> 'v) list" where
  "erase k [] = []"
| "erase k ((k', v) # m) = (if k' = k then m else (k', v) # erase k m)"

fun assign :: "'k \<Rightarrow> 'v \<Rightarrow> ('k \<times> 'v) list \<Rightarrow> ('k \<times> 'v) list" where
  "assign k v [] = [(k, v)]"
| "assign k v ((k', v') # m) = (if k' = k then (k, v) # m else (k', v') # assign k v m)"

lemma map_of_assign [simp]: "map_of (assign k v m) = (map_of m)(k \<mapsto> v)"
  by (induction k v m rule: assign.induct) (auto simp: fun_eq_iff)

lemma set_erase: "set (erase k m) \<subseteq> set m"
  by (induction k m rule: erase.induct) auto

lemma keys_erase: "distinct (map fst m) \<Longrightarrow> fst ` set (erase k m) = fst ` set m - {k}"
  by (induction k m rule: erase.induct) auto

lemma distinct_erase: "distinct (map fst m) \<Longrightarrow> distinct (map fst (erase k m))"
  by (induction k m rule: erase.induct) (auto dest: set_erase [THEN subsetD])

lemma map_of_erase: "distinct (map fst m) \<Longrightarrow> map_of (erase k m) = (map_of m)(k := None)"
  by (induction k m rule: erase.induct) (auto simp: fun_eq_iff map_of_eq_None_iff)

lemma keys_assign [simp]: "fst ` set (assign k v m) = insert k (fst ` set m)"
  by (induction k v m rule: assign.induct) auto

lemma distinct_assign [simp]: "distinct (map fst (assign k v m)) = distinct (map fst m)"
proof (induction k v m rule: assign.induct)
  case (2 k v k' v' m)
  have "k' \<in> fst ` set (assign k v m) \<longleftrightarrow> k' = k \<or> k' \<in> fst ` set m" by simp
  with 2 show ?case by auto
qed simp

text \<open>\<open>total_of f m\<close>: what the values of a map own together.\<close>

definition total_of :: "('v \<Rightarrow> 'a :: comm_monoid_add) \<Rightarrow> ('k \<times> 'v) list \<Rightarrow> 'a" where
  "total_of f m = sum_list (map (\<lambda>(_, v). f v) m)"

lemma total_of_simps [simp]:
  "total_of f [] = 0" "total_of f ((k, v) # m) = f v + total_of f m" "total_of f (m @ m') = total_of f m + total_of f m'"
  by (simp_all add: total_of_def)

lemma total_of_erase: "map_of m k = Some v \<Longrightarrow> total_of f m = f v + total_of f (erase k m)"
  by (induction k m rule: erase.induct) (auto simp: add.left_commute split: if_splits)

lemma total_of_assign: "map_of m k = Some v \<Longrightarrow> total_of f (assign k w m) = f w + total_of f (erase k m)"
  by (induction k w m rule: assign.induct) (auto simp: add.left_commute split: if_splits)

lemma total_of_assign_new: "map_of m k = None \<Longrightarrow> total_of f (assign k w m) = f w + total_of f m"
  by (induction k w m rule: assign.induct) (auto simp: add.left_commute split: if_splits)

end
