(* ===== verification/Results.thy ===== *)
theory Results
  imports Prelude
begin

text \<open>
  The error values and the result type of the proxy (\<^verbatim>\<open>include/uproxy/result.h\<close>,
  \<^verbatim>\<open>src/result.cpp\<close>).  \<^verbatim>\<open>Result<T>\<close> is a sum: \<open>Inl\<close> an \<open>Error\<close>, \<open>Inr\<close> the value;
  \<^verbatim>\<open>Result<void>\<close> is \<open>unit result\<close>.  The three combinators of the class are
  \<open>and_then\<close>, \<open>map_r\<close> and \<open>or_else\<close>.  The C library's \<^verbatim>\<open>errno\<close> and \<^verbatim>\<open>strerror\<close> are
  arguments of the functions that read them.
\<close>

datatype ErrCode =
    Ok | SysError | WouldBlock | EOF' | HttpMalformed | Http2Protocol | HpackError
  | ConfigSyntax | ConfigInvalid | TlsHandshake | TlsIO | NoUpstream | Timeout

record Error =
  e_code :: ErrCode
  e_errno :: int
  e_msg :: string

type_synonym 'a result = "Error + 'a"

definition from_errno :: "int \<Rightarrow> string \<Rightarrow> Error" where
  "from_errno errno ctx = \<lparr>e_code = SysError, e_errno = errno, e_msg = ctx\<rparr>"

definition from_code :: "ErrCode \<Rightarrow> string \<Rightarrow> Error" where
  "from_code c m = \<lparr>e_code = c, e_errno = 0, e_msg = m\<rparr>"

fun code_name :: "ErrCode \<Rightarrow> string" where
  "code_name Ok = ''ok''"
| "code_name SysError = ''sys_error''"
| "code_name WouldBlock = ''would_block''"
| "code_name EOF' = ''eof''"
| "code_name HttpMalformed = ''http_malformed''"
| "code_name Http2Protocol = ''http2_protocol''"
| "code_name HpackError = ''hpack_error''"
| "code_name ConfigSyntax = ''config_syntax''"
| "code_name ConfigInvalid = ''config_invalid''"
| "code_name TlsHandshake = ''tls_handshake''"
| "code_name TlsIO = ''tls_io''"
| "code_name NoUpstream = ''no_upstream''"
| "code_name Timeout = ''timeout''"

definition error_to_string :: "(int \<Rightarrow> string) \<Rightarrow> Error \<Rightarrow> string" where
  "error_to_string strerror e =
     code_name (e_code e) @
     (if e_msg e \<noteq> [] then '': '' @ e_msg e else []) @
     (if e_code e = SysError then '': '' @ strerror (e_errno e) else [])"

definition is_ok :: "'a result \<Rightarrow> bool" where
  "is_ok r = (case r of Inl _ \<Rightarrow> False | Inr _ \<Rightarrow> True)"

definition is_err :: "'a result \<Rightarrow> bool" where
  "is_err r = (case r of Inl _ \<Rightarrow> True | Inr _ \<Rightarrow> False)"

definition and_then :: "'a result \<Rightarrow> ('a \<Rightarrow> 'b result) \<Rightarrow> 'b result" where
  "and_then r f = (case r of Inl e \<Rightarrow> Inl e | Inr v \<Rightarrow> f v)"

definition map_r :: "'a result \<Rightarrow> ('a \<Rightarrow> 'b) \<Rightarrow> 'b result" where
  "map_r r f = (case r of Inl e \<Rightarrow> Inl e | Inr v \<Rightarrow> Inr (f v))"

definition or_else :: "'a result \<Rightarrow> (Error \<Rightarrow> 'a result) \<Rightarrow> 'a result" where
  "or_else r f = (case r of Inr v \<Rightarrow> Inr v | Inl e \<Rightarrow> f e)"

lemma is_err_not_ok: "is_err r \<longleftrightarrow> \<not> is_ok r"
  by (simp add: is_ok_def is_err_def split: sum.splits)

lemma is_ok_simps [simp]: "is_ok (Inr v)" "\<not> is_ok (Inl e)" "is_err (Inl e)" "\<not> is_err (Inr v)"
  by (simp_all add: is_ok_def is_err_def)

lemma and_then_simps [simp]: "and_then (Inr v) f = f v" "and_then (Inl e) f = Inl e"
  by (simp_all add: and_then_def)

lemma map_r_simps [simp]: "map_r (Inr v) f = Inr (f v)" "map_r (Inl e) f = Inl e"
  by (simp_all add: map_r_def)

lemma map_r_Inr_iff: "map_r r f = Inr y \<longleftrightarrow> (\<exists>x. r = Inr x \<and> y = f x)"
  by (cases r) auto

lemma and_then_Inr_iff: "and_then r f = Inr y \<longleftrightarrow> (\<exists>x. r = Inr x \<and> f x = Inr y)"
  by (cases r) auto

lemma or_else_simps [simp]: "or_else (Inr v) g = Inr v" "or_else (Inl e) g = g e"
  by (simp_all add: or_else_def)

lemma and_then_assoc: "and_then (and_then r f) g = and_then r (\<lambda>v. and_then (f v) g)"
  by (cases r) simp_all

lemma code_name_inject: "code_name a = code_name b \<longleftrightarrow> a = b"
  by (cases a; cases b) simp_all

end
