(* ===== verification/Result_Class.thy ===== *)
theory Result_Class
  imports Results
begin

text \<open>
  The class template \<^verbatim>\<open>Result<T>\<close> and its specialisation \<^verbatim>\<open>Result<void>\<close> as \<^verbatim>\<open>include/uproxy/result.h\<close> has
  them: the first with two optional members, the second with one.  All other theories use the sum
  type of \<open>Results\<close>; here the members refine it.

  An accessor whose \<^verbatim>\<open>assert\<close> fails gives \<open>None\<close>, and so does every operation that calls it then.  The
  overloads for lvalues and rvalues differ in copying or moving only and are one definition.  A callback
  that returns \<^verbatim>\<open>Result<void>\<close> returns \<^verbatim>\<open>Result<unit>\<close> here.
\<close>

section \<open>The classes\<close>

record 'a ResultT =
  rt_value :: "'a option"
  rt_error :: "Error option"

definition rt_ok :: "'a \<Rightarrow> 'a ResultT" where
  "rt_ok v = \<lparr>rt_value = Some v, rt_error = None\<rparr>"

definition rt_err :: "Error \<Rightarrow> 'a ResultT" where
  "rt_err e = \<lparr>rt_value = None, rt_error = Some e\<rparr>"

definition rt_is_ok :: "'a ResultT \<Rightarrow> bool" where
  "rt_is_ok r \<longleftrightarrow> rt_value r \<noteq> None"

definition rt_is_err :: "'a ResultT \<Rightarrow> bool" where
  "rt_is_err r \<longleftrightarrow> rt_error r \<noteq> None"

definition rt_get :: "'a ResultT \<Rightarrow> 'a option" where
  "rt_get r = rt_value r"

definition rt_get_error :: "'a ResultT \<Rightarrow> Error option" where
  "rt_get_error r = rt_error r"

definition rt_and_then :: "'a ResultT \<Rightarrow> ('a \<Rightarrow> 'b ResultT) \<Rightarrow> 'b ResultT option" where
  "rt_and_then r f = (if rt_is_err r then map_option rt_err (rt_get_error r) else map_option f (rt_get r))"

definition rt_map :: "'a ResultT \<Rightarrow> ('a \<Rightarrow> 'b) \<Rightarrow> 'b ResultT option" where
  "rt_map r f = (if rt_is_err r then map_option rt_err (rt_get_error r) else map_option (\<lambda>v. rt_ok (f v)) (rt_get r))"

definition rt_or_else :: "'a ResultT \<Rightarrow> (Error \<Rightarrow> 'a ResultT) \<Rightarrow> 'a ResultT option" where
  "rt_or_else r f = (if rt_is_ok r then map_option rt_ok (rt_get r) else map_option f (rt_get_error r))"

record ResultVoid =
  rv_error :: "Error option"

definition rv_ok :: ResultVoid where
  "rv_ok = \<lparr>rv_error = None\<rparr>"

definition rv_err :: "Error \<Rightarrow> ResultVoid" where
  "rv_err e = \<lparr>rv_error = Some e\<rparr>"

definition rv_is_ok :: "ResultVoid \<Rightarrow> bool" where
  "rv_is_ok r \<longleftrightarrow> rv_error r = None"

definition rv_is_err :: "ResultVoid \<Rightarrow> bool" where
  "rv_is_err r \<longleftrightarrow> rv_error r \<noteq> None"

definition rv_get :: "ResultVoid \<Rightarrow> unit option" where
  "rv_get r = (if rv_error r = None then Some () else None)"

definition rv_get_error :: "ResultVoid \<Rightarrow> Error option" where
  "rv_get_error r = rv_error r"

definition rv_and_then :: "ResultVoid \<Rightarrow> (unit \<Rightarrow> 'b ResultT) \<Rightarrow> 'b ResultT option" where
  "rv_and_then r f = (if rv_is_err r then map_option rt_err (rv_error r) else Some (f ()))"

definition rv_map :: "ResultVoid \<Rightarrow> (unit \<Rightarrow> 'b) \<Rightarrow> 'b ResultT option" where
  "rv_map r f = (if rv_is_err r then map_option rt_err (rv_error r) else Some (rt_ok (f ())))"

definition rv_or_else :: "ResultVoid \<Rightarrow> (Error \<Rightarrow> ResultVoid) \<Rightarrow> ResultVoid option" where
  "rv_or_else r f = (if rv_is_ok r then Some rv_ok else map_option f (rv_error r))"

text \<open>The macros \<^verbatim>\<open>UPROXY_TRY\<close> and \<^verbatim>\<open>UPROXY_TRY_VOID\<close>; \<open>rest\<close> is what follows in the function.\<close>

definition uproxy_try :: "'a ResultT \<Rightarrow> ('a \<Rightarrow> 'a ResultT) \<Rightarrow> 'a ResultT option" where
  "uproxy_try r rest = (if rt_is_err r then map_option rt_err (rt_get_error r) else map_option rest (rt_get r))"

definition uproxy_try_void :: "'a ResultT \<Rightarrow> ResultVoid \<Rightarrow> ResultVoid option" where
  "uproxy_try_void r rest = (if rt_is_err r then map_option rv_err (rt_get_error r) else Some rest)"

section \<open>Refinement\<close>

text \<open>A value built by \<^verbatim>\<open>ok\<close> or \<^verbatim>\<open>err\<close> has exactly one of the two members; the constructors are private.\<close>

definition rt_inv :: "'a ResultT \<Rightarrow> bool" where
  "rt_inv r \<longleftrightarrow> (rt_value r = None) \<noteq> (rt_error r = None)"

definition rt_abs :: "'a ResultT \<Rightarrow> 'a result" where
  "rt_abs r = (case rt_error r of Some e \<Rightarrow> Inl e | None \<Rightarrow> Inr (the (rt_value r)))"

definition rv_abs :: "ResultVoid \<Rightarrow> unit result" where
  "rv_abs r = (case rv_error r of Some e \<Rightarrow> Inl e | None \<Rightarrow> Inr ())"

text \<open>\<open>refines good abstr res s\<close>: no assertion failed, the object is well formed and stands for \<open>s\<close>.\<close>

definition refines :: "('r \<Rightarrow> bool) \<Rightarrow> ('r \<Rightarrow> 's) \<Rightarrow> 'r option \<Rightarrow> 's \<Rightarrow> bool" where
  "refines good abstr res s \<longleftrightarrow> (\<exists>r. res = Some r \<and> good r \<and> abstr r = s)"

lemmas result_ops =
  rt_ok_def rt_err_def rt_is_ok_def rt_is_err_def rt_get_def rt_get_error_def rt_and_then_def rt_map_def rt_or_else_def
  rv_ok_def rv_err_def rv_is_ok_def rv_is_err_def rv_get_def rv_get_error_def rv_and_then_def rv_map_def rv_or_else_def
  uproxy_try_def uproxy_try_void_def

lemma rt_cases:
  assumes "rt_inv r"
  obtains (ok) v where "r = rt_ok v" | (err) e where "r = rt_err e"
proof (cases "rt_error r")
  case None
  with assms obtain v where "rt_value r = Some v" by (auto simp: rt_inv_def)
  with None show thesis by (intro ok [of v]) (simp add: rt_ok_def)
next
  case (Some e)
  with assms show thesis by (intro err [of e]) (simp add: rt_inv_def rt_err_def)
qed

lemma rv_cases: obtains (ok) "r = rv_ok" | (err) e where "r = rv_err e"
  by (cases r; cases "rv_error r") (auto simp: rv_ok_def rv_err_def)

lemma result_abs [simp]:
  "rt_abs (rt_ok v) = Inr v" "rt_abs (rt_err e) = Inl e" "rv_abs rv_ok = Inr ()" "rv_abs (rv_err e) = Inl e"
  "rt_inv (rt_ok v)" "rt_inv (rt_err e)"
  by (simp_all add: rt_abs_def rv_abs_def rt_inv_def rt_ok_def rt_err_def rv_ok_def rv_err_def)

lemma result_eval [simp]:
  "rt_is_ok (rt_ok v)" "\<not> rt_is_ok (rt_err e)" "rt_is_err (rt_err e)" "\<not> rt_is_err (rt_ok v)"
  "rt_get (rt_ok v) = Some v" "rt_get (rt_err e) = None" "rt_get_error (rt_err e) = Some e" "rt_get_error (rt_ok v) = None"
  "rv_is_ok rv_ok" "\<not> rv_is_ok (rv_err e)" "rv_is_err (rv_err e)" "\<not> rv_is_err rv_ok"
  "rv_get rv_ok = Some ()" "rv_get (rv_err e) = None" "rv_get_error (rv_err e) = Some e" "rv_get_error rv_ok = None"
  "rv_error rv_ok = None" "rv_error (rv_err e) = Some e"
  by (simp_all add: result_ops)

section \<open>Properties\<close>



end
