(* ===== verification/Config.thy ===== *)
theory Config
  imports Results
begin

text \<open>
  The configuration (\<^verbatim>\<open>include/uproxy/config.h\<close>, \<^verbatim>\<open>src/config.cpp\<close>): the five structs as
  records with the defaults of the header, the TOML-subset reader \<open>config_from_file\<close> (one
  definition per section of the file), the command line \<open>config_apply_cli\<close> and the final
  \<open>config_validate\<close>.  The file system enters as two arguments: \<open>read_file\<close> gives the text of
  a file that can be opened, \<open>is_reg\<close> says whether \<^verbatim>\<open>stat\<close> finds a regular file.
\<close>

datatype UpProto = UP_HTTP1 | UP_H2C

record UpstreamConfig =
  uc_name :: string
  uc_addr :: string
  uc_port :: u16
  uc_weight :: u32
  uc_healthy :: bool
  uc_proto :: UpProto

record TLSConfig =
  tls_cert_file :: string
  tls_key_file :: string
  tls_min_version :: string
  tls_alpn :: "string list"
  tls_enabled :: bool

record PoolConfig =
  max_conns_per_upstream :: u32
  connect_timeout_ms :: u32
  idle_timeout_ms :: u32
  max_keepalive :: u32

record LogConfig =
  log_level :: string
  log_format :: string
  log_file :: string

record ProxyConfig =
  listen_addr :: string
  listen_port :: u16
  tls_port :: u16
  worker_threads :: u32
  cfg_tls :: TLSConfig
  cfg_pool :: PoolConfig
  cfg_log :: LogConfig
  upstreams :: "UpstreamConfig list"

definition default_upstream :: UpstreamConfig where
  "default_upstream =
     \<lparr>uc_name = [], uc_addr = [], uc_port = 0, uc_weight = 1, uc_healthy = True, uc_proto = UP_HTTP1\<rparr>"

definition default_tls :: TLSConfig where
  "default_tls =
     \<lparr>tls_cert_file = [], tls_key_file = [], tls_min_version = ''tls1.2'',
      tls_alpn = [''h2'', ''http/1.1''], tls_enabled = True\<rparr>"

definition default_pool :: PoolConfig where
  "default_pool =
     \<lparr>max_conns_per_upstream = 64, connect_timeout_ms = 5000, idle_timeout_ms = 60000,
      max_keepalive = 1000\<rparr>"

definition default_log :: LogConfig where
  "default_log = \<lparr>log_level = ''info'', log_format = ''text'', log_file = []\<rparr>"

definition default_config :: ProxyConfig where
  "default_config =
     \<lparr>listen_addr = ''0.0.0.0'', listen_port = 8080, tls_port = 8443, worker_threads = 0,
      cfg_tls = default_tls, cfg_pool = default_pool, cfg_log = default_log, upstreams = []\<rparr>"

section \<open>Scalars\<close>

abbreviation QUOTE :: char where "QUOTE \<equiv> CHR 0x22"

definition trim :: "string \<Rightarrow> string" where
  "trim s = strip isspace_c s"

definition parse_bool :: "string \<Rightarrow> bool" where
  "parse_bool v = (trim v = ''true'')"

definition parse_string :: "string \<Rightarrow> string" where
  "parse_string value =
     (let v = trim value
      in if length v \<ge> 2 \<and> hd v = QUOTE \<and> last v = QUOTE then take (length v - 2) (drop 1 v) else v)"

definition parse_u32 :: "string \<Rightarrow> string \<Rightarrow> u32 result" where
  "parse_u32 value field =
     (case from_chars_all 10 (2 ^ 32) (trim value) of
        None \<Rightarrow> Inl (from_code ConfigInvalid field)
      | Some n \<Rightarrow> Inr (word_of_nat n))"

definition parse_port :: "string \<Rightarrow> string \<Rightarrow> u16 result" where
  "parse_port value field =
     (case parse_u32 value field of
        Inl e \<Rightarrow> Inl e
      | Inr n \<Rightarrow> if n = 0 \<or> 65535 < n then Inl (from_code ConfigInvalid field) else Inr (ucast n))"

definition file_exists :: "(string \<Rightarrow> bool) \<Rightarrow> string \<Rightarrow> bool" where
  "file_exists is_reg path = (if path = [] then False else is_reg path)"

definition parse_upstream_cli :: "string \<Rightarrow> UpstreamConfig result" where
  "parse_upstream_cli s =
     (case find_str '':'' s of
        None \<Rightarrow> Inl (from_code ConfigInvalid ''upstream requires addr:port'')
      | Some colon \<Rightarrow>
          let addr = take colon s;
              nxt = find_from '':'' (colon + 1) s;
              port = (case nxt of None \<Rightarrow> drop (colon + 1) s
                      | Some n \<Rightarrow> take (n - colon - 1) (drop (colon + 1) s))
          in case parse_port port ''invalid upstream port'' of
               Inl e \<Rightarrow> Inl e
             | Inr p \<Rightarrow>
                 let cfg = default_upstream\<lparr>uc_addr := addr, uc_port := p,
                             uc_name := addr @ '':'' @ show_nat 10 (unat p)\<rparr>
                 in case nxt of
                      None \<Rightarrow> Inr cfg
                    | Some n \<Rightarrow>
                        let suffix = drop (n + 1) s
                        in if take 7 suffix \<noteq> ''weight=''
                           then Inl (from_code ConfigInvalid ''unsupported upstream option'')
                           else case parse_u32 (drop 7 suffix) ''invalid upstream weight'' of
                                  Inl e \<Rightarrow> Inl (from_code ConfigInvalid ''invalid upstream weight'')
                                | Inr w \<Rightarrow>
                                    if w = 0
                                    then Inl (from_code ConfigInvalid ''invalid upstream weight'')
                                    else Inr (cfg\<lparr>uc_weight := w\<rparr>))"

section \<open>The configuration file\<close>

datatype Section = Root | SecProxy | SecTLS | SecPool | SecLog | SecUpstream

record file_state =
  fs_cfg :: ProxyConfig
  fs_section :: Section
  fs_current :: "nat option"
  fs_line_no :: nat

text \<open>\<open>getlines\<close> is the sequence of lines that repeated \<^verbatim>\<open>std::getline\<close> yields.\<close>

function getlines :: "string \<Rightarrow> string list" where
  "getlines s =
     (if s = [] then []
      else takeWhile (\<lambda>c. c \<noteq> LF) s # getlines (drop 1 (dropWhile (\<lambda>c. c \<noteq> LF) s)))"
  by pat_completeness auto
termination
proof (relation "measure length", simp)
  fix s :: string assume "s \<noteq> []"
  then have "length (drop 1 (dropWhile (\<lambda>c. c \<noteq> LF) s)) < length s"
    using length_dropWhile_le [of "\<lambda>c. c \<noteq> LF" s] by (cases s) (auto simp: less_Suc_eq_le le_diff_conv)
  then show "(drop 1 (dropWhile (\<lambda>c. c \<noteq> LF) s), s) \<in> measure length" by simp
qed

declare getlines.simps [simp del]

definition set_proxy_key :: "string \<Rightarrow> string \<Rightarrow> ProxyConfig \<Rightarrow> ProxyConfig result" where
  "set_proxy_key key value cfg =
     (if key = ''listen_addr'' then Inr (cfg\<lparr>listen_addr := parse_string value\<rparr>)
      else if key = ''listen_port'' then
        map_r (parse_port value key) (\<lambda>p. cfg\<lparr>listen_port := p\<rparr>)
      else if key = ''tls_port'' then
        map_r (parse_port value key) (\<lambda>p. cfg\<lparr>tls_port := p\<rparr>)
      else if key = ''worker_threads'' then
        map_r (parse_u32 value key) (\<lambda>n. cfg\<lparr>worker_threads := n\<rparr>)
      else Inr cfg)"

definition set_tls_key :: "string \<Rightarrow> string \<Rightarrow> TLSConfig \<Rightarrow> TLSConfig" where
  "set_tls_key key value t =
     (if key = ''cert_file'' then t\<lparr>tls_cert_file := parse_string value\<rparr>
      else if key = ''key_file'' then t\<lparr>tls_key_file := parse_string value\<rparr>
      else if key = ''min_version'' then t\<lparr>tls_min_version := parse_string value\<rparr>
      else if key = ''alpn'' then
        t\<lparr>tls_alpn := (if contains_str ''h2'' value then [''h2''] else []) @
                       (if contains_str ''http/1.1'' value then [''http/1.1''] else [])\<rparr>
      else t)"

definition set_pool_key :: "string \<Rightarrow> string \<Rightarrow> PoolConfig \<Rightarrow> PoolConfig result" where
  "set_pool_key key value p =
     (if key = ''max_connections_per_upstream'' then
        map_r (parse_u32 value key) (\<lambda>n. p\<lparr>max_conns_per_upstream := n\<rparr>)
      else if key = ''connect_timeout_ms'' then
        map_r (parse_u32 value key) (\<lambda>n. p\<lparr>connect_timeout_ms := n\<rparr>)
      else if key = ''idle_timeout_ms'' then
        map_r (parse_u32 value key) (\<lambda>n. p\<lparr>idle_timeout_ms := n\<rparr>)
      else if key = ''max_keepalive'' then
        map_r (parse_u32 value key) (\<lambda>n. p\<lparr>max_keepalive := n\<rparr>)
      else Inr p)"

definition set_log_key :: "string \<Rightarrow> string \<Rightarrow> LogConfig \<Rightarrow> LogConfig" where
  "set_log_key key value l =
     (if key = ''level'' then l\<lparr>log_level := parse_string value\<rparr>
      else if key = ''format'' then l\<lparr>log_format := parse_string value\<rparr>
      else if key = ''file'' then l\<lparr>log_file := parse_string value\<rparr>
      else l)"

definition set_upstream_key :: "string \<Rightarrow> string \<Rightarrow> UpstreamConfig \<Rightarrow> UpstreamConfig result" where
  "set_upstream_key key value u =
     (if key = ''name'' then Inr (u\<lparr>uc_name := parse_string value\<rparr>)
      else if key = ''addr'' then Inr (u\<lparr>uc_addr := parse_string value\<rparr>)
      else if key = ''port'' then map_r (parse_port value key) (\<lambda>p. u\<lparr>uc_port := p\<rparr>)
      else if key = ''weight'' then map_r (parse_u32 value key) (\<lambda>w. u\<lparr>uc_weight := w\<rparr>)
      else if key = ''healthy'' then Inr (u\<lparr>uc_healthy := parse_bool value\<rparr>)
      else if key = ''protocol'' \<and> parse_string value = ''h2c'' then Inr (u\<lparr>uc_proto := UP_H2C\<rparr>)
      else Inr u)"

definition assign_key :: "string \<Rightarrow> string \<Rightarrow> file_state \<Rightarrow> ProxyConfig result" where
  "assign_key key value st =
     (let cfg = fs_cfg st in
      case fs_section st of
        Root \<Rightarrow> Inr cfg
      | SecProxy \<Rightarrow> set_proxy_key key value cfg
      | SecTLS \<Rightarrow> Inr (cfg\<lparr>cfg_tls := set_tls_key key value (cfg_tls cfg)\<rparr>)
      | SecPool \<Rightarrow> map_r (set_pool_key key value (cfg_pool cfg)) (\<lambda>p. cfg\<lparr>cfg_pool := p\<rparr>)
      | SecLog \<Rightarrow> Inr (cfg\<lparr>cfg_log := set_log_key key value (cfg_log cfg)\<rparr>)
      | SecUpstream \<Rightarrow>
          (case fs_current st of
             None \<Rightarrow> Inr cfg
           | Some i \<Rightarrow> map_r (set_upstream_key key value (upstreams cfg ! i))
                         (\<lambda>u. cfg\<lparr>upstreams := (upstreams cfg)[i := u]\<rparr>)))"

definition config_line :: "file_state \<Rightarrow> string \<Rightarrow> file_state result" where
  "config_line st0 line =
     (let st = st0\<lparr>fs_line_no := fs_line_no st0 + 1\<rparr>;
          line' = (case find_str ''#'' line of None \<Rightarrow> line | Some i \<Rightarrow> take i line);
          t = trim line'
      in if t = [] then Inr st
         else if t = ''[proxy]'' then Inr (st\<lparr>fs_section := SecProxy\<rparr>)
         else if t = ''[tls]'' then Inr (st\<lparr>fs_section := SecTLS\<rparr>)
         else if t = ''[pool]'' then Inr (st\<lparr>fs_section := SecPool\<rparr>)
         else if t = ''[log]'' then Inr (st\<lparr>fs_section := SecLog\<rparr>)
         else if t = ''[[upstream]]'' then
           let ups = upstreams (fs_cfg st) @ [default_upstream]
           in Inr (st\<lparr>fs_cfg := (fs_cfg st)\<lparr>upstreams := ups\<rparr>,
                      fs_current := Some (length ups - 1), fs_section := SecUpstream\<rparr>)
         else case find_str ''='' t of
                None \<Rightarrow> Inl (from_code ConfigSyntax
                              (''syntax error on line '' @ show_nat 10 (fs_line_no st)))
              | Some eq \<Rightarrow>
                  map_r (assign_key (trim (take eq t)) (trim (drop (eq + 1) t)) st)
                    (\<lambda>cfg. st\<lparr>fs_cfg := cfg\<rparr>))"

fun config_lines :: "file_state \<Rightarrow> string list \<Rightarrow> file_state result" where
  "config_lines st [] = Inr st"
| "config_lines st (l # ls) =
     (case config_line st l of Inl e \<Rightarrow> Inl e | Inr st' \<Rightarrow> config_lines st' ls)"

definition init_file_state :: file_state where
  "init_file_state =
     \<lparr>fs_cfg = default_config, fs_section = Root, fs_current = None, fs_line_no = 0\<rparr>"

definition config_from_file :: "(string \<Rightarrow> string option) \<Rightarrow> string \<Rightarrow> ProxyConfig result" where
  "config_from_file read_file path =
     (case read_file path of
        None \<Rightarrow>
          if path = ''./uproxy.toml'' \<or> path = ''uproxy.toml'' then Inr default_config
          else Inl (from_code ConfigSyntax ''config not found'')
      | Some text \<Rightarrow> map_r (config_lines init_file_state (getlines text)) fs_cfg)"

section \<open>The command line\<close>

text \<open>\<open>cli_option\<close> is one option with its value; \<open>cli_takes_value\<close> lists the options that
  consume the following argument (\<^verbatim>\<open>need_value\<close>).\<close>

definition cli_takes_value :: "string \<Rightarrow> bool" where
  "cli_takes_value arg \<longleftrightarrow>
     arg \<in> set [''--config'', ''--listen-addr'', ''--listen-port'', ''--tls-port'', ''--upstream'',
                ''--log-level'', ''--workers'']"

definition cli_option ::
  "(string \<Rightarrow> string option) \<Rightarrow> string \<Rightarrow> string \<Rightarrow> ProxyConfig \<Rightarrow> ProxyConfig result" where
  "cli_option read_file arg value base =
     (if arg = ''--config'' then config_from_file read_file value
      else if arg = ''--listen-addr'' then Inr (base\<lparr>listen_addr := value\<rparr>)
      else if arg = ''--listen-port'' then
        map_r (parse_port value ''listen port'') (\<lambda>p. base\<lparr>listen_port := p\<rparr>)
      else if arg = ''--tls-port'' then
        map_r (parse_port value ''tls port'') (\<lambda>p. base\<lparr>tls_port := p\<rparr>)
      else if arg = ''--upstream'' then
        map_r (parse_upstream_cli value) (\<lambda>u. base\<lparr>upstreams := upstreams base @ [u]\<rparr>)
      else if arg = ''--log-level'' then
        Inr (base\<lparr>cfg_log := (cfg_log base)\<lparr>log_level := value\<rparr>\<rparr>)
      else if arg = ''--workers'' then
        map_r (parse_u32 value ''workers'') (\<lambda>n. base\<lparr>worker_threads := n\<rparr>)
      else Inr base)"

fun config_apply_cli ::
  "(string \<Rightarrow> string option) \<Rightarrow> ProxyConfig \<Rightarrow> string list \<Rightarrow> ProxyConfig result" where
  "config_apply_cli read_file base [] = Inr base"
| "config_apply_cli read_file base (arg # args) =
     (if cli_takes_value arg then
        (case args of
           [] \<Rightarrow> Inl (from_code ConfigInvalid (arg @ '' requires value''))
         | value # args' \<Rightarrow>
             (case cli_option read_file arg value base of
                Inl e \<Rightarrow> Inl e
              | Inr base' \<Rightarrow> config_apply_cli read_file base' args'))
      else if arg = ''--no-tls'' then
        config_apply_cli read_file (base\<lparr>cfg_tls := (cfg_tls base)\<lparr>tls_enabled := False\<rparr>\<rparr>) args
      else config_apply_cli read_file base args)"

section \<open>Validation\<close>

definition bad_upstream :: "UpstreamConfig \<Rightarrow> bool" where
  "bad_upstream u \<longleftrightarrow> uc_addr u = [] \<or> uc_port u = 0 \<or> uc_weight u = 0"

definition config_validate :: "(string \<Rightarrow> bool) \<Rightarrow> ProxyConfig \<Rightarrow> ProxyConfig result" where
  "config_validate is_reg cfg =
     (if upstreams cfg = [] then Inl (from_code ConfigInvalid ''zero upstreams'')
      else if log_level (cfg_log cfg) \<notin> set [''trace'', ''debug'', ''info'', ''warn'', ''error'']
      then Inl (from_code ConfigInvalid ''invalid log level'')
      else if log_format (cfg_log cfg) \<noteq> ''json'' \<and> log_format (cfg_log cfg) \<noteq> ''text''
      then Inl (from_code ConfigInvalid ''invalid log format'')
      else if \<exists>u \<in> set (upstreams cfg). bad_upstream u
      then Inl (from_code ConfigInvalid ''invalid upstream'')
      else if tls_enabled (cfg_tls cfg) \<and>
              (\<not> file_exists is_reg (tls_cert_file (cfg_tls cfg)) \<or>
               \<not> file_exists is_reg (tls_key_file (cfg_tls cfg)))
      then Inl (from_code ConfigInvalid ''missing TLS certificate or key'')
      else if tls_min_version (cfg_tls cfg) \<noteq> ''tls1.2'' \<and> tls_min_version (cfg_tls cfg) \<noteq> ''tls1.3''
      then Inl (from_code ConfigInvalid ''invalid TLS minimum version'')
      else Inr cfg)"

end
