(* ===== verification/Config_Properties.thy ===== *)
theory Config_Properties
  imports Config
begin

text \<open>
  What the configuration that reaches the server is guaranteed to satisfy (\<open>load_config\<close> is the
  first statement of \<^verbatim>\<open>main\<close>), and the round trip of the upstream syntax of the command line.
\<close>

definition load_config ::
  "(string \<Rightarrow> string option) \<Rightarrow> (string \<Rightarrow> bool) \<Rightarrow> string list \<Rightarrow> ProxyConfig result" where
  "load_config read_file is_reg args =
     and_then (config_apply_cli read_file default_config args) (config_validate is_reg)"

section \<open>Scalars\<close>

lemma word_of_nat_u32: "n < 2 ^ 32 \<Longrightarrow> unat (word_of_nat n :: u32) = n"
  by (simp add: unat_of_nat)

lemma unat_u32: "unat (n :: u32) < 2 ^ 32"
  using unsigned_less [of n] by simp

lemma unat_u16: "unat (n :: u16) < 2 ^ 16"
  using unsigned_less [of n] by simp

lemma parse_u32_Inr: "parse_u32 v f = Inr n \<longleftrightarrow> from_chars_all 10 (2 ^ 32) (trim v) = Some (unat n)"
proof (cases "from_chars_all 10 (2 ^ 32) (trim v)")
  case (Some k)
  then have "unat (word_of_nat k :: u32) = k" by (intro word_of_nat_u32 from_chars_all_bound)
  with Some show ?thesis by (auto simp: parse_u32_def)
qed (simp add: parse_u32_def)

lemma ucast_port: "(n :: u32) \<le> 65535 \<Longrightarrow> unat (ucast n :: u16) = unat n"
  by (simp add: unsigned_ucast_eq word_le_nat_alt take_bit_nat_eq_self)

lemma parse_port_Inr:
  "parse_port v f = Inr p \<longleftrightarrow> p \<noteq> 0 \<and> from_chars_all 10 (2 ^ 32) (trim v) = Some (unat p)"
proof
  assume "parse_port v f = Inr p"
  then obtain n where n: "parse_u32 v f = Inr n" "n \<noteq> 0" "n \<le> 65535" "p = ucast n"
    by (auto simp: parse_port_def split: sum.splits if_splits)
  then have u: "unat p = unat n" by (simp add: ucast_port)
  with n show "p \<noteq> 0 \<and> from_chars_all 10 (2 ^ 32) (trim v) = Some (unat p)"
    by (auto simp: parse_u32_Inr unsigned_eq_0_iff)
next
  assume a: "p \<noteq> 0 \<and> from_chars_all 10 (2 ^ 32) (trim v) = Some (unat p)"
  have n: "unat (word_of_nat (unat p) :: u32) = unat p"
    using unat_u16 [of p] by (intro word_of_nat_u32) simp
  then have "parse_u32 v f = Inr (word_of_nat (unat p))" using a by (simp add: parse_u32_Inr)
  moreover have "(word_of_nat (unat p) :: u32) \<le> 65535" "(word_of_nat (unat p) :: u32) \<noteq> 0"
    using n a unat_u16 [of p] by (auto simp: word_le_nat_alt simp flip: unat_eq_0)
  moreover have "ucast (word_of_nat (unat p) :: u32) = p"
    using trans [OF ucast_port [OF calculation(2)] n] by (rule unsigned_word_eqI)
  ultimately show "parse_port v f = Inr p"
    by (auto simp: parse_port_def not_less)
qed

lemmas parse_port_nonzero = parse_port_Inr [THEN iffD1, THEN conjunct1]

lemma trim_alnum: "(\<And>c. c \<in> set s \<Longrightarrow> isalnum_c c) \<Longrightarrow> trim s = s"
proof -
  assume a: "\<And>c. c \<in> set s \<Longrightarrow> isalnum_c c"
  have "\<not> isspace_c c" if "c \<in> set s" for c using a [OF that] by (auto simp: ctype_defs)
  then show ?thesis unfolding trim_def by (intro strip_id) (cases s; simp)
qed

section \<open>Ports are never zero\<close>

definition ports_ok :: "ProxyConfig \<Rightarrow> bool" where
  "ports_ok cfg \<longleftrightarrow> listen_port cfg \<noteq> 0 \<and> tls_port cfg \<noteq> 0"

lemma assign_key_ports: "assign_key k v st = Inr cfg \<Longrightarrow> ports_ok (fs_cfg st) \<Longrightarrow> ports_ok cfg"
  by (auto simp: assign_key_def set_proxy_key_def Let_def map_r_Inr_iff ports_ok_def
      split: Section.splits if_splits option.splits dest: parse_port_nonzero)

lemma config_line_ports: "config_line st l = Inr st' \<Longrightarrow> ports_ok (fs_cfg st) \<Longrightarrow> ports_ok (fs_cfg st')"
  by (auto simp: config_line_def Let_def map_r_Inr_iff split: if_splits option.splits
      dest!: assign_key_ports) (simp_all add: ports_ok_def)

lemma config_lines_ports: "config_lines st ls = Inr st' \<Longrightarrow> ports_ok (fs_cfg st) \<Longrightarrow> ports_ok (fs_cfg st')"
  by (induction st ls rule: config_lines.induct) (auto split: sum.splits dest: config_line_ports)

lemma default_ports: "ports_ok default_config"
  by (simp add: ports_ok_def default_config_def)

lemma config_from_file_ports: "config_from_file rf path = Inr cfg \<Longrightarrow> ports_ok cfg"
  using default_ports
  by (auto simp: config_from_file_def map_r_Inr_iff split: option.splits if_splits
      dest!: config_lines_ports) (simp add: init_file_state_def)

lemma cli_option_ports: "cli_option rf a v base = Inr cfg \<Longrightarrow> ports_ok base \<Longrightarrow> ports_ok cfg"
  by (auto simp: cli_option_def map_r_Inr_iff split: if_splits
      dest: config_from_file_ports parse_port_nonzero) (auto simp: ports_ok_def dest: parse_port_nonzero)

lemma config_apply_cli_ports: "config_apply_cli rf base args = Inr cfg \<Longrightarrow> ports_ok base \<Longrightarrow> ports_ok cfg"
proof (induction rf base args rule: config_apply_cli.induct)
  case (2 rf base arg args)
  show ?case
  proof (cases "cli_takes_value arg")
    case True
    with "2.prems" obtain v args' base' where a: "args = v # args'" "cli_option rf arg v base = Inr base'"
      "config_apply_cli rf base' args' = Inr cfg" by (auto split: list.splits sum.splits)
    with "2.prems" have "ports_ok base'" by (blast intro: cli_option_ports)
    with "2.IH"(1) True a show ?thesis by blast
  next
    case False
    with "2.prems" "2.IH"(2,3) show ?thesis by (auto simp: ports_ok_def split: if_splits)
  qed
qed simp

section \<open>Properties\<close>

lemma config_validate_Inr:
  "config_validate is_reg cfg = Inr cfg' \<longleftrightarrow> cfg' = cfg \<and> upstreams cfg \<noteq> [] \<and>
     log_level (cfg_log cfg) \<in> {''trace'', ''debug'', ''info'', ''warn'', ''error''} \<and>
     log_format (cfg_log cfg) \<in> {''json'', ''text''} \<and>
     (\<forall>u\<in>set (upstreams cfg). uc_addr u \<noteq> [] \<and> uc_port u \<noteq> 0 \<and> uc_weight u \<noteq> 0) \<and>
     (tls_enabled (cfg_tls cfg) \<longrightarrow>
        file_exists is_reg (tls_cert_file (cfg_tls cfg)) \<and> file_exists is_reg (tls_key_file (cfg_tls cfg))) \<and>
     tls_min_version (cfg_tls cfg) \<in> {''tls1.2'', ''tls1.3''}"
  by (auto simp: config_validate_def bad_upstream_def split: if_splits)

text \<open>C28. The configuration the server starts with: whatever files and command line options were
  given, if start-up gets past the configuration step then both listening ports are non-zero,
  there is at least one upstream, every upstream has an address, a non-zero port and a non-zero
  weight, level, format and TLS version are legal, and with TLS enabled both key files exist;
  validation itself changes nothing.\<close>

theorem load_config_sound:
  assumes "load_config read_file is_reg args = Inr cfg"
  shows "config_apply_cli read_file default_config args = Inr cfg \<and>
    listen_port cfg \<noteq> 0 \<and> tls_port cfg \<noteq> 0 \<and> upstreams cfg \<noteq> [] \<and>
    (\<forall>u\<in>set (upstreams cfg). uc_addr u \<noteq> [] \<and> uc_port u \<noteq> 0 \<and> uc_weight u \<noteq> 0) \<and>
    log_level (cfg_log cfg) \<in> {''trace'', ''debug'', ''info'', ''warn'', ''error''} \<and>
    log_format (cfg_log cfg) \<in> {''json'', ''text''} \<and>
    (tls_enabled (cfg_tls cfg) \<longrightarrow>
       file_exists is_reg (tls_cert_file (cfg_tls cfg)) \<and> file_exists is_reg (tls_key_file (cfg_tls cfg))) \<and>
    tls_min_version (cfg_tls cfg) \<in> {''tls1.2'', ''tls1.3''}"
proof -
  from assms have a: "config_apply_cli read_file default_config args = Inr cfg"
    "config_validate is_reg cfg = Inr cfg"
    by (auto simp: load_config_def and_then_Inr_iff config_validate_Inr)
  then have "ports_ok cfg" using default_ports by (blast intro: config_apply_cli_ports)
  with a show ?thesis by (simp add: config_validate_Inr ports_ok_def)
qed

theorem load_config_sound_witness:
  "\<exists>cfg. load_config (\<lambda>_. None) (\<lambda>_. False) [''--no-tls'', ''--upstream'', ''10.0.0.1:80''] = Inr cfg \<and>
     listen_port cfg \<noteq> 0"
proof -
  have "\<exists>cfg. load_config (\<lambda>_. None) (\<lambda>_. False) [''--no-tls'', ''--upstream'', ''10.0.0.1:80''] = Inr cfg"
    by (simp add: load_config_def cli_takes_value_def cli_option_def parse_upstream_cli_def find_from_def
        parse_port_def parse_u32_def from_chars_all_def from_chars_def digits_value_def is_digit_def
        digit_val_def trim_def strip_def char_simps config_validate_def default_config_def default_log_def
        default_tls_def bad_upstream_def default_upstream_def)
  then show ?thesis using load_config_sound by blast
qed

section \<open>Upstreams on the command line\<close>

definition upstream_spec :: "UpstreamConfig \<Rightarrow> string" where
  "upstream_spec u =
     uc_addr u @ '':'' @ show_nat 10 (unat (uc_port u)) @ '':weight='' @ show_nat 10 (unat (uc_weight u))"

lemma trim_show_nat: "trim (show_nat 10 n) = show_nat 10 n"
  by (rule trim_alnum) (rule show_nat_alnum, auto)

lemma colon_not_in_show_nat: "CHR '':'' \<notin> set (show_nat 10 n)"
  using show_nat_alnum [of 10 "CHR '':''" n] by (auto simp: char_simps)

text \<open>Upstreams on the command line: an upstream with an address free of colons, a non-zero
  port and a non-zero weight is read back from its addr:port:weight=w form, named addr:port,
  healthy, and with protocol HTTP/1.\<close>

lemma upstream_cli_round_trip:
  assumes "CHR '':'' \<notin> set (uc_addr u)" "uc_port u \<noteq> 0" "uc_weight u \<noteq> 0"
  shows "parse_upstream_cli (upstream_spec u) =
    Inr \<lparr>uc_name = uc_addr u @ '':'' @ show_nat 10 (unat (uc_port u)), uc_addr = uc_addr u,
         uc_port = uc_port u, uc_weight = uc_weight u, uc_healthy = True, uc_proto = UP_HTTP1\<rparr>"
proof -
  let ?a = "uc_addr u" and ?p = "show_nat 10 (unat (uc_port u))" and ?w = "show_nat 10 (unat (uc_weight u))"
  let ?s = "upstream_spec u"
  have s: "?s = ?a @ CHR '':'' # ?p @ CHR '':'' # ''weight='' @ ?w" by (simp add: upstream_spec_def)
  have 1: "find_str '':'' ?s = Some (length ?a)" unfolding s by (rule find_char_split [OF assms(1)])
  have "drop (length ?a + 1) ?s = ?p @ CHR '':'' # ''weight='' @ ?w" by (simp add: s)
  then have 2: "find_from '':'' (length ?a + 1) ?s = Some (length ?a + 1 + length ?p)"
    using find_char_split [OF colon_not_in_show_nat] by (simp add: find_from_def s)
  have p: "parse_port ?p f = Inr (uc_port u)" for f
    unfolding parse_port_Inr trim_show_nat
    using assms(2) unat_u16 [of "uc_port u"] by (simp add: from_chars_all_show_nat)
  have w: "parse_u32 ?w f = Inr (uc_weight u)" for f
    unfolding parse_u32_Inr trim_show_nat
    using unat_u32 [of "uc_weight u"] by (simp add: from_chars_all_show_nat)
  have port: "take (length ?a + 1 + length ?p - length ?a - 1) (drop (length ?a + 1) ?s) = ?p"
    by (simp add: s)
  have suffix: "drop (length ?a + 1 + length ?p + 1) ?s = ''weight='' @ ?w" by (simp add: s)
  have addr: "take (length ?a) ?s = ?a" by (simp add: s)
  show ?thesis
    unfolding parse_upstream_cli_def 1 option.case Let_def 2 port suffix addr p sum.case
    using assms(3) by (simp add: w default_upstream_def)
qed

definition demo_upstream :: UpstreamConfig where
  "demo_upstream = default_upstream\<lparr>uc_addr := ''10.0.0.1'', uc_port := 80, uc_weight := 3\<rparr>"

lemma upstream_cli_round_trip_witness:
  "parse_upstream_cli (upstream_spec demo_upstream) =
    Inr \<lparr>uc_name = ''10.0.0.1'' @ '':'' @ show_nat 10 80, uc_addr = ''10.0.0.1'',
         uc_port = 80, uc_weight = 3, uc_healthy = True, uc_proto = UP_HTTP1\<rparr>"
  using upstream_cli_round_trip [of demo_upstream] by (simp add: demo_upstream_def default_upstream_def)

end
