(* ===== verification/Ring_Buffer.thy ===== *)
theory Ring_Buffer
  imports Results
begin

text \<open>
  The byte ring buffer (\<^verbatim>\<open>include/uproxy/buffer.h\<close>, \<^verbatim>\<open>src/buffer.cpp\<close>).  The record holds
  the four members of the class; every member function is one definition, in the order of the
  source.  An \<^verbatim>\<open>iovec\<close> points into the buffer's own vector, so its base is an offset
  (\<open>None\<close> for the null pointer).

  The abstraction \<open>contents\<close> is the list of readable bytes; \<open>rb_inv\<close> relates the two
  cursors.  Each operation implements its list counterpart: \<open>peek n\<close> is \<open>take n\<close>,
  \<open>commit_read n\<close> is \<open>drop n\<close>, \<open>append_rb bs\<close> is \<open>@ bs\<close>.  The locale
  \<open>byte_queue\<close> states this contract for the parsers and serialisers built on the buffer, and
  is interpreted on these definitions at the end.
\<close>

record RingBuffer =
  rb_data :: bytes
  rb_read_pos :: nat
  rb_write_pos :: nat
  rb_size :: nat

record iovec =
  iov_base :: "nat option"
  iov_len :: nat

definition new_RingBuffer :: "nat \<Rightarrow> RingBuffer" where
  "new_RingBuffer capacity =
     \<lparr>rb_data = replicate capacity 0, rb_read_pos = 0, rb_write_pos = 0, rb_size = 0\<rparr>"

definition readable :: "RingBuffer \<Rightarrow> nat" where
  "readable rb = rb_size rb"

definition writable :: "RingBuffer \<Rightarrow> nat" where
  "writable rb = length (rb_data rb) - rb_size rb"

definition capacity :: "RingBuffer \<Rightarrow> nat" where
  "capacity rb = length (rb_data rb)"

definition null_iovec :: iovec where
  "null_iovec = \<lparr>iov_base = None, iov_len = 0\<rparr>"

definition read_iovecs :: "RingBuffer \<Rightarrow> nat \<times> iovec \<times> iovec" where
  "read_iovecs rb =
     (if rb_size rb = 0 \<or> rb_data rb = [] then (0, null_iovec, null_iovec)
      else let first = min (rb_size rb) (length (rb_data rb) - rb_read_pos rb);
               second = rb_size rb - first
           in (if second = 0 then 1 else 2,
               \<lparr>iov_base = Some (rb_read_pos rb), iov_len = first\<rparr>,
               \<lparr>iov_base = Some 0, iov_len = second\<rparr>))"

definition write_iovecs :: "RingBuffer \<Rightarrow> nat \<times> iovec \<times> iovec" where
  "write_iovecs rb =
     (let avail = writable rb
      in if avail = 0 \<or> rb_data rb = [] then (0, null_iovec, null_iovec)
         else let first = min avail (length (rb_data rb) - rb_write_pos rb);
                  second = avail - first
              in (if second = 0 then 1 else 2,
                  \<lparr>iov_base = Some (rb_write_pos rb), iov_len = first\<rparr>,
                  \<lparr>iov_base = Some 0, iov_len = second\<rparr>))"

definition commit_read :: "nat \<Rightarrow> RingBuffer \<Rightarrow> RingBuffer" where
  "commit_read n0 rb =
     (let n = min n0 (rb_size rb);
          rp = (if rb_data rb = [] then 0 else (rb_read_pos rb + n) mod length (rb_data rb));
          sz = rb_size rb - n
      in rb\<lparr>rb_read_pos := (if sz = 0 then rb_write_pos rb else rp), rb_size := sz\<rparr>)"

definition commit_write :: "nat \<Rightarrow> RingBuffer \<Rightarrow> RingBuffer" where
  "commit_write n0 rb =
     (let n = min n0 (writable rb)
      in rb\<lparr>rb_write_pos := (if rb_data rb = [] then 0
                              else (rb_write_pos rb + n) mod length (rb_data rb)),
            rb_size := rb_size rb + n\<rparr>)"

definition peek :: "nat \<Rightarrow> RingBuffer \<Rightarrow> bytes" where
  "peek n0 rb =
     (let n = min n0 (rb_size rb)
      in if n = 0 then []
         else let first = min n (length (rb_data rb) - rb_read_pos rb)
              in take first (drop (rb_read_pos rb) (rb_data rb)) @
                 (if n > first then take (n - first) (rb_data rb) else []))"

definition read_bytes :: "nat \<Rightarrow> RingBuffer \<Rightarrow> bytes" where
  "read_bytes n rb = peek n rb"

definition ensure_writable :: "nat \<Rightarrow> RingBuffer \<Rightarrow> unit result \<times> RingBuffer" where
  "ensure_writable n rb =
     (if writable rb \<ge> n then (Inr (), rb)
      else let cap0 = max (length (rb_data rb) * 2) (length (rb_data rb) + n);
               new_cap = (if cap0 = 0 then n else cap0)
           in if new_cap < rb_size rb
              then (Inl (from_code ConfigInvalid ''ring buffer overflow''), rb)
              else let existing = peek (rb_size rb) rb;
                       sz = length existing
                   in (Inr (),
                       \<lparr>rb_data = blit (replicate new_cap 0) 0 existing, rb_read_pos = 0,
                        rb_write_pos = (if sz = new_cap then 0 else sz), rb_size = sz\<rparr>))"

text \<open>
  The copy loop of \<^verbatim>\<open>append\<close>: the inner \<^verbatim>\<open>for\<close> over the one or two free segments is
  \<open>copy_iovs\<close>, the outer \<^verbatim>\<open>while\<close> is \<open>append_loop\<close>; both carry the bytes still to
  be copied.
\<close>

definition store_iov :: "iovec \<Rightarrow> bytes \<Rightarrow> RingBuffer \<Rightarrow> RingBuffer" where
  "store_iov v bs rb =
     (case iov_base v of
        None \<Rightarrow> rb
      | Some i \<Rightarrow> rb\<lparr>rb_data := blit (rb_data rb) i bs\<rparr>)"

fun copy_iovs :: "iovec list \<Rightarrow> bytes \<Rightarrow> RingBuffer \<Rightarrow> bytes \<times> RingBuffer" where
  "copy_iovs [] rest rb = (rest, rb)"
| "copy_iovs (v # vs) rest rb =
     (if rest = [] then (rest, rb)
      else let n = min (iov_len v) (length rest)
           in copy_iovs vs (drop n rest) (commit_write n (store_iov v (take n rest) rb)))"

lemma copy_iovs_done: "copy_iovs vs [] rb = ([], rb)"
  by (cases vs) simp_all

lemma length_copy_iovs:
  "length (fst (copy_iovs vs rest rb)) = length rest - sum_list (map iov_len vs)"
  by (induction vs rest rb rule: copy_iovs.induct) (auto simp: Let_def)

lemma write_iovecs_len:
  assumes "write_iovecs rb = (count, v0, v1)" "count \<noteq> 0"
  shows "sum_list (map iov_len (take count [v0, v1])) = writable rb \<and> 0 < writable rb"
  using assms by (auto simp: write_iovecs_def Let_def split: if_splits)

lemma copy_iovs_progress:
  assumes "write_iovecs rb = (count, v0, v1)" "count \<noteq> 0" "rest \<noteq> []"
    "copy_iovs (take count [v0, v1]) rest rb = (rest', rb')"
  shows "length rest' < length rest"
proof -
  have "length rest' = length rest - writable rb"
    using length_copy_iovs [of "take count [v0, v1]" rest rb] write_iovecs_len [OF assms(1,2)] assms(4)
    by simp
  then show ?thesis using write_iovecs_len [OF assms(1,2)] assms(3) by simp
qed

function append_loop :: "bytes \<Rightarrow> RingBuffer \<Rightarrow> unit result \<times> RingBuffer" where
  "append_loop rest rb =
     (if rest = [] then (Inr (), rb)
      else case write_iovecs rb of (count, v0, v1) \<Rightarrow>
        if count = 0 then (Inl (from_code ConfigInvalid ''ring buffer full''), rb)
        else case copy_iovs (take count [v0, v1]) rest rb of (rest', rb') \<Rightarrow>
          append_loop rest' rb')"
  by pat_completeness auto
termination
  by (relation "measure (\<lambda>(rest, rb). length rest)")
    (auto split: prod.split intro: copy_iovs_progress [OF sym])

declare append_loop.simps [simp del]

definition append_rb :: "bytes \<Rightarrow> RingBuffer \<Rightarrow> unit result \<times> RingBuffer" where
  "append_rb bs rb = try_then (ensure_writable (length bs) rb) (\<lambda>_ rb'. append_loop bs rb')"

definition append_str :: "string \<Rightarrow> RingBuffer \<Rightarrow> unit result \<times> RingBuffer" where
  "append_str s rb = append_rb (bytes_of_string s) rb"

section \<open>Invariant and abstraction\<close>

definition rb_inv :: "RingBuffer \<Rightarrow> bool" where
  "rb_inv rb \<longleftrightarrow>
     rb_size rb \<le> length (rb_data rb) \<and>
     (if rb_data rb = [] then rb_read_pos rb = 0 \<and> rb_write_pos rb = 0
      else rb_read_pos rb < length (rb_data rb) \<and>
           rb_write_pos rb = (rb_read_pos rb + rb_size rb) mod length (rb_data rb))"

definition contents :: "RingBuffer \<Rightarrow> bytes" where
  "contents rb =
     map (\<lambda>i. rb_data rb ! ((rb_read_pos rb + i) mod length (rb_data rb))) [0..<rb_size rb]"

lemma mod_once: "x < 2 * c \<Longrightarrow> x mod c = (if x < c then x else x - (c :: nat))"
  by (simp add: mod_if)

lemma length_contents [simp]: "length (contents rb) = rb_size rb"
  by (simp add: contents_def)

lemma nth_contents:
  "i < rb_size rb \<Longrightarrow>
     contents rb ! i = rb_data rb ! ((rb_read_pos rb + i) mod length (rb_data rb))"
  by (simp add: contents_def)

lemma readable_contents: "readable rb = length (contents rb)"
  by (simp add: readable_def)

lemma rb_inv_new [simp]: "rb_inv (new_RingBuffer n)"
  by (simp add: rb_inv_def new_RingBuffer_def)

lemma contents_new [simp]: "contents (new_RingBuffer n) = []"
  by (simp add: contents_def new_RingBuffer_def)

lemma peek_contents:
  assumes "rb_inv rb"
  shows "peek n rb = take n (contents rb)"
proof -
  define m where "m = min n (rb_size rb)"
  define c where "c = length (rb_data rb)"
  define rp where "rp = rb_read_pos rb"
  have "take m (contents rb) = peek n rb"
  proof (cases "m = 0")
    case True
    then show ?thesis by (simp add: peek_def m_def Let_def)
  next
    case False
    with assms have c: "m \<le> c" "rp < c" "rb_data rb \<noteq> []"
      by (auto simp: rb_inv_def m_def c_def rp_def split: if_splits)
    define first where "first = min m (c - rp)"
    have pk: "peek n rb = take first (drop rp (rb_data rb)) @ take (m - first) (rb_data rb)"
      using False by (auto simp: peek_def Let_def m_def first_def c_def rp_def)
    show ?thesis
    proof (rule nth_equalityI)
      show "length (take m (contents rb)) = length (peek n rb)"
      proof -
        have "length (contents rb) = rb_size rb" "m \<le> rb_size rb" by (simp_all add: m_def)
        moreover have "first \<le> c - rp" "first \<le> m" by (simp_all add: first_def)
        ultimately show ?thesis using c by (simp add: pk) (simp add: c_def)
      qed
    next
      fix i assume "i < length (take m (contents rb))"
      then have i: "i < m" "i < rb_size rb" by (auto simp: m_def)
      then have "take m (contents rb) ! i = rb_data rb ! ((rp + i) mod c)"
        by (simp add: nth_contents rp_def c_def)
      also have "\<dots> = peek n rb ! i"
      proof (cases "i < first")
        case True
        then have "rp + i < c" by (auto simp: first_def)
        moreover from this have "i < length (rb_data rb) - rp" by (simp add: c_def)
        ultimately show ?thesis using True c by (simp add: pk nth_append c_def)
      next
        case False
        with i have f: "first = c - rp" "c \<le> rp + i" by (auto simp: first_def)
        with i c have "(rp + i) mod c = rp + i - c" by (simp add: mod_once)
        with False i c f show ?thesis by (simp add: pk nth_append c_def add.commute)
      qed
      finally show "take m (contents rb) ! i = peek n rb ! i" .
    qed
  qed
  moreover have "take m (contents rb) = take n (contents rb)"
    by (cases "n \<le> rb_size rb") (simp_all add: m_def)
  ultimately show ?thesis by simp
qed

lemma rb_inv_commit_read:
  assumes "rb_inv rb"
  shows "rb_inv (commit_read n rb)"
proof -
  have "((rb_read_pos rb + n) mod c + (rb_size rb - n)) mod c = (rb_read_pos rb + rb_size rb) mod c"
    if "n \<le> rb_size rb" for c
    using that by (simp only: mod_add_left_eq) simp
  with assms show ?thesis
    by (auto simp: rb_inv_def commit_read_def Let_def min_def)
qed

lemma contents_commit_read:
  assumes "rb_inv rb"
  shows "contents (commit_read n rb) = drop n (contents rb)"
proof (rule nth_equalityI)
  show "length (contents (commit_read n rb)) = length (drop n (contents rb))"
    by (simp add: commit_read_def Let_def)
next
  fix i assume "i < length (contents (commit_read n rb))"
  then have i: "n < rb_size rb" "i < rb_size rb - n"
    by (auto simp: commit_read_def Let_def min_def split: if_splits)
  with assms have "rb_data rb \<noteq> []" by (auto simp: rb_inv_def)
  moreover have "drop n (contents rb) ! i = contents rb ! (n + i)" using i by simp
  ultimately show "contents (commit_read n rb) ! i = drop n (contents rb) ! i"
    using i by (simp add: nth_contents, simp add: contents_def commit_read_def Let_def mod_simps add.assoc)
qed

text \<open>One chunk stored at the write cursor, not crossing the end of the vector.\<close>

lemma push_chunk:
  assumes inv: "rb_inv rb" and len: "length ys \<le> writable rb"
    "length ys \<le> length (rb_data rb) - rb_write_pos rb" and ne: "rb_data rb \<noteq> []"
    and rb': "rb' = commit_write (length ys) (rb\<lparr>rb_data := blit (rb_data rb) (rb_write_pos rb) ys\<rparr>)"
  shows "rb_inv rb'" "contents rb' = contents rb @ ys"
    "length (rb_data rb') = length (rb_data rb)"
    "rb_write_pos rb' = (rb_write_pos rb + length ys) mod length (rb_data rb)"
    "writable rb' = writable rb - length ys"
proof -
  define c where "c = length (rb_data rb)"
  define rp where "rp = rb_read_pos rb"
  define wp where "wp = rb_write_pos rb"
  define sz where "sz = rb_size rb"
  note folds = c_def [symmetric] rp_def [symmetric] wp_def [symmetric] sz_def [symmetric]
  from inv ne have I: "sz \<le> c" "rp < c" "wp = (rp + sz) mod c" "0 < c"
    by (auto simp: rb_inv_def c_def rp_def wp_def sz_def split: if_splits)
  have wpc: "wp < c" using I by simp
  have L: "length ys \<le> c - sz" "wp + length ys \<le> c"
    using len wpc by (auto simp: writable_def c_def wp_def sz_def)
  have lb: "length (blit (rb_data rb) wp ys) = c" using L by (simp add: c_def)
  then have nb: "blit (rb_data rb) wp ys \<noteq> []" using I by auto
  have f: "rb_data rb' = blit (rb_data rb) wp ys" "rb_read_pos rb' = rp"
    "rb_write_pos rb' = (wp + length ys) mod c" "rb_size rb' = sz + length ys"
    using ne len lb nb L by (auto simp: rb' commit_write_def Let_def writable_def folds)
  from f lb ne show d: "length (rb_data rb') = length (rb_data rb)" by (simp add: c_def)
  from f show "rb_write_pos rb' = (rb_write_pos rb + length ys) mod length (rb_data rb)"
    by (simp add: wp_def c_def)
  from f d show "writable rb' = writable rb - length ys" by (simp add: writable_def sz_def)
  show "rb_inv rb'"
    using f lb I L by (auto simp: rb_inv_def mod_simps add.assoc)
  show "contents rb' = contents rb @ ys"
  proof (rule nth_equalityI)
    show "length (contents rb') = length (contents rb @ ys)" by (simp add: f sz_def)
  next
    fix i assume "i < length (contents rb')"
    then have i: "i < sz + length ys" by (simp add: f)
    then have "contents rb' ! i = blit (rb_data rb) wp ys ! ((rp + i) mod c)"
      by (simp add: nth_contents f lb)
    also have "\<dots> = (contents rb @ ys) ! i"
    proof (cases "i < sz")
      case True
      have "\<not> (wp \<le> (rp + i) mod c \<and> (rp + i) mod c < wp + length ys)"
        using True I L by (auto simp: mod_once split: if_splits)
      moreover have "(rp + i) mod c < c" using I by simp
      ultimately have "blit (rb_data rb) wp ys ! ((rp + i) mod c) = rb_data rb ! ((rp + i) mod c)"
        using L by (subst nth_blit) (auto simp: c_def)
      with True show ?thesis by (simp add: nth_append nth_contents folds)
    next
      case False
      then obtain k where k: "i = sz + k" "k < length ys" using i by (metis less_diff_conv2 nat_le_iff_add not_less add.commute add_diff_cancel_left')
      then have "(rp + i) mod c = wp + k"
        using I L by (auto simp: mod_once split: if_splits)
      moreover have "blit (rb_data rb) wp ys ! (wp + k) = ys ! k"
        using k L by (subst nth_blit) (auto simp: c_def)
      ultimately show ?thesis using k by (simp add: nth_append sz_def)
    qed
    finally show "contents rb' ! i = (contents rb @ ys) ! i" .
  qed
qed

lemma store_at: "iov_base v = Some i \<Longrightarrow> store_iov v bs rb = rb\<lparr>rb_data := blit (rb_data rb) i bs\<rparr>"
  by (simp add: store_iov_def)

text \<open>Two segments: the first ends at the end of the vector, the second starts at its front.\<close>

lemma copy_iovs_contents:
  assumes inv: "rb_inv rb" and len: "length bs \<le> writable rb" and ne: "bs \<noteq> []"
    and w: "write_iovecs rb = (count, v0, v1)"
  obtains rb' where "count \<noteq> 0" "copy_iovs (take count [v0, v1]) bs rb = ([], rb')"
    "rb_inv rb'" "contents rb' = contents rb @ bs" "length (rb_data rb') = length (rb_data rb)"
proof -
  define c where "c = length (rb_data rb)"
  define wp where "wp = rb_write_pos rb"
  have "0 < length bs" using ne by simp
  with len have wr: "0 < writable rb" by linarith
  then have dne: "rb_data rb \<noteq> []" by (auto simp: writable_def)
  have wpc: "wp < c" using inv dne by (auto simp: rb_inv_def c_def wp_def)
  define first where "first = min (writable rb) (c - wp)"
  have v: "count = (if writable rb - first = 0 then 1 else 2)"
    "iov_base v0 = Some wp" "iov_len v0 = first" "iov_base v1 = Some 0"
    "iov_len v1 = writable rb - first"
    using w wr dne by (auto simp: write_iovecs_def Let_def first_def c_def wp_def split: if_splits)
  define ys where "ys = take first bs"
  define rb1 where "rb1 = commit_write (length ys) (rb\<lparr>rb_data := blit (rb_data rb) wp ys\<rparr>)"
  have ys: "length ys \<le> writable rb" "length ys \<le> length (rb_data rb) - rb_write_pos rb"
    "length ys = min first (length bs)"
    by (auto simp: ys_def first_def c_def wp_def)
  note P = push_chunk [OF inv ys(1,2) dne rb1_def [unfolded wp_def]]
  have step1: "copy_iovs (v0 # vs) bs rb = copy_iovs vs (drop first bs) rb1" for vs
    using ne v(2,3) ys(3) by (simp add: Let_def store_at rb1_def ys_def min_def)
  show thesis
  proof (cases "length bs \<le> first")
    case True
    then have "copy_iovs (take count [v0, v1]) bs rb = ([], rb1)"
      unfolding v(1) by (simp del: copy_iovs.simps(2) add: step1 copy_iovs_done)
    with P True v(1) show thesis by (intro that [of rb1]) (auto simp: ys_def)
  next
    case False
    then have f: "first = c - wp" "length ys = first" "count = 2" and z: "length bs - first \<le> writable rb - first"
      using len ys(3) v(1) by (auto simp: first_def)
    have wp1: "rb_write_pos rb1 = 0" using P(4) f wpc by (simp add: c_def wp_def)
    have w1: "writable rb1 = writable rb - first" using P(5) f by simp
    have dne1: "rb_data rb1 \<noteq> []" using P(3) dne by auto
    define zs where "zs = drop first bs"
    define rb2 where "rb2 = commit_write (length zs) (rb1\<lparr>rb_data := blit (rb_data rb1) (rb_write_pos rb1) zs\<rparr>)"
    have zs: "length zs \<le> writable rb1" "length zs \<le> length (rb_data rb1) - rb_write_pos rb1"
      using z w1 wp1 by (auto simp: zs_def writable_def)
    note Q = push_chunk [OF P(1) zs dne1 rb2_def]
    have "copy_iovs (take count [v0, v1]) bs rb = ([], rb2)"
      using False z v(4,5) wp1 f(3)
      by (simp add: step1 del: copy_iovs.simps(2))
        (simp add: Let_def store_at rb2_def zs_def)
    with Q P f(3) show thesis
      by (intro that [of rb2]) (auto simp: ys_def zs_def)
  qed
qed

lemma append_loop_contents:
  assumes "rb_inv rb" "length bs \<le> writable rb"
  obtains rb' where "append_loop bs rb = (Inr (), rb')" "rb_inv rb'" "contents rb' = contents rb @ bs"
    "length (rb_data rb') = length (rb_data rb)"
proof (cases "bs = []")
  case True
  then show thesis using assms that [of rb] by (simp add: append_loop.simps [of "[]"])
next
  case False
  obtain count v0 v1 where w: "write_iovecs rb = (count, v0, v1)" by (metis prod_cases3)
  from copy_iovs_contents [OF assms False w] obtain rb' where
    R: "count \<noteq> 0" "copy_iovs (take count [v0, v1]) bs rb = ([], rb')" "rb_inv rb'"
    "contents rb' = contents rb @ bs" "length (rb_data rb') = length (rb_data rb)" .
  have "append_loop bs rb = append_loop [] rb'"
    using False w R(1,2) by (simp add: append_loop.simps [of bs rb])
  also have "\<dots> = (Inr (), rb')" by (simp add: append_loop.simps [of "[]"])
  finally show thesis using R by (intro that [of rb']) auto
qed

lemma ensure_writable_contents:
  assumes inv: "rb_inv rb"
  obtains rb' where "ensure_writable n rb = (Inr (), rb')" "rb_inv rb'" "contents rb' = contents rb"
    "n \<le> writable rb'" "length (rb_data rb) \<le> length (rb_data rb')"
proof (cases "n \<le> writable rb")
  case True
  then show thesis using inv that [of rb] by (simp add: ensure_writable_def)
next
  case False
  define cap where "cap = max (length (rb_data rb) * 2) (length (rb_data rb) + n)"
  define ex where "ex = contents rb"
  have sz: "rb_size rb \<le> length (rb_data rb)" using inv by (simp add: rb_inv_def)
  with False have cap: "0 < cap" "rb_size rb + n \<le> cap" "length (rb_data rb) \<le> cap"
    by (auto simp: cap_def)
  have pk: "peek (rb_size rb) rb = ex" using peek_contents [OF inv] by (simp add: ex_def)
  define rb' where "rb' = \<lparr>rb_data = blit (replicate cap 0) 0 ex, rb_read_pos = 0,
      rb_write_pos = (if length ex = cap then 0 else length ex), rb_size = length ex\<rparr>"
  have lex: "length ex = rb_size rb" by (simp add: ex_def)
  have ld: "length (rb_data rb') = cap" using cap lex by (simp add: rb'_def)
  have "ensure_writable n rb = (Inr (), rb')"
    using False cap sz lex by (simp add: ensure_writable_def Let_def pk rb'_def cap_def [symmetric])
  moreover have "rb_inv rb'"
  proof -
    have "rb_read_pos rb' = 0" "rb_size rb' = length ex"
      "rb_write_pos rb' = (if length ex = cap then 0 else length ex)"
      by (simp_all add: rb'_def)
    moreover have "length ex \<le> cap" "rb_data rb' \<noteq> []" using ld cap lex by auto
    ultimately show ?thesis using ld cap by (simp add: rb_inv_def)
  qed
  moreover have "contents rb' = ex"
  proof (rule nth_equalityI)
    show "length (contents rb') = length ex" by (simp add: rb'_def)
  next
    fix i assume "i < length (contents rb')"
    then have i: "i < length ex" "i < cap" using cap lex by (auto simp: rb'_def)
    then have "contents rb' ! i = rb_data rb' ! i" using ld by (simp add: nth_contents rb'_def)
    also have "\<dots> = ex ! i" using i cap lex by (simp add: rb'_def nth_blit)
    finally show "contents rb' ! i = ex ! i" .
  qed
  moreover have "n \<le> writable rb'" "length (rb_data rb) \<le> length (rb_data rb')"
    using ld cap lex by (simp_all add: writable_def) (simp add: rb'_def)
  ultimately show thesis by (intro that) (auto simp: ex_def)
qed

lemma append_rb_contents:
  assumes "rb_inv rb"
  obtains rb' where "append_rb bs rb = (Inr (), rb')" "rb_inv rb'" "contents rb' = contents rb @ bs"
proof -
  from ensure_writable_contents [OF assms, of "length bs"] obtain rb1 where
    e: "ensure_writable (length bs) rb = (Inr (), rb1)" "rb_inv rb1" "contents rb1 = contents rb"
      "length bs \<le> writable rb1" .
  from append_loop_contents [OF e(2,4)] obtain rb2 where
    "append_loop bs rb1 = (Inr (), rb2)" "rb_inv rb2" "contents rb2 = contents rb1 @ bs" .
  with e show thesis by (intro that [of rb2]) (auto simp: append_rb_def)
qed

lemma rb_inv_commit_write: "rb_inv rb \<Longrightarrow> rb_inv (commit_write n rb)"
  by (auto simp: rb_inv_def commit_write_def writable_def Let_def mod_simps add.assoc)

section \<open>The queue contract\<close>

text \<open>
  What the parsers and serialisers rely on: a queue of bytes that is inspected and consumed at
  its front and extended at its back, where an append never fails.  \<open>emits f bs\<close> says that the
  writer \<open>f\<close> succeeds on every queue and appends exactly \<open>bs\<close>; writers compose by
  concatenation.
\<close>

locale byte_queue =
  fixes inv :: "'q \<Rightarrow> bool"
    and abs :: "'q \<Rightarrow> 'b list"
    and size_q :: "'q \<Rightarrow> nat"
    and peek_q :: "nat \<Rightarrow> 'q \<Rightarrow> 'b list"
    and drop_q :: "nat \<Rightarrow> 'q \<Rightarrow> 'q"
    and push_q :: "'b list \<Rightarrow> 'q \<Rightarrow> (Error + unit) \<times> 'q"
  assumes size_law: "inv q \<Longrightarrow> size_q q = length (abs q)"
    and peek_law: "inv q \<Longrightarrow> peek_q n q = take n (abs q)"
    and drop_law: "inv q \<Longrightarrow> abs (drop_q n q) = drop n (abs q)"
    and inv_drop: "inv q \<Longrightarrow> inv (drop_q n q)"
    and push_ok: "inv q \<Longrightarrow> fst (push_q bs q) = Inr ()"
    and push_law: "inv q \<Longrightarrow> abs (snd (push_q bs q)) = abs q @ bs"
    and inv_push: "inv q \<Longrightarrow> inv (snd (push_q bs q))"
begin

definition emits :: "('q \<Rightarrow> (Error + unit) \<times> 'q) \<Rightarrow> 'b list \<Rightarrow> bool" where
  "emits f bs \<longleftrightarrow> (\<forall>q. inv q \<longrightarrow>
     (\<exists>q'. f q = (Inr (), q') \<and> inv q' \<and> abs q' = abs q @ bs))"

lemma peek_all: "inv q \<Longrightarrow> peek_q (size_q q) q = abs q"
  by (simp add: peek_law size_law)

lemma peek_prefix: "inv q \<Longrightarrow> abs q = xs @ ys \<Longrightarrow> length xs = n \<Longrightarrow> peek_q n q = xs"
  by (auto simp: peek_law)

lemma drop_prefix: "inv q \<Longrightarrow> abs q = xs @ ys \<Longrightarrow> length xs = n \<Longrightarrow> abs (drop_q n q) = ys"
  by (auto simp: drop_law)

lemma drop_all: "inv q \<Longrightarrow> abs (drop_q (size_q q) q) = []"
  by (simp add: drop_law size_law)

lemma emits_push: "emits (push_q bs) bs"
  unfolding emits_def by (metis inv_push prod.collapse push_law push_ok)

lemma emits_nothing: "emits (\<lambda>q. (Inr (), q)) []"
  by (simp add: emits_def)

lemma emits_seq:
  "emits f xs \<Longrightarrow> emits g ys \<Longrightarrow> emits (\<lambda>q. try_then (f q) (\<lambda>_. g)) (xs @ ys)"
  unfolding emits_def by (metis append_assoc try_then_Inr)

lemma emitsD:
  assumes "emits f bs" "inv q"
  obtains q' where "f q = (Inr (), q')" "inv q'" "abs q' = abs q @ bs"
  using assms unfolding emits_def by blast

lemma emits_then:
  "emits f bs \<Longrightarrow> inv q \<Longrightarrow> \<exists>q'. inv q' \<and> abs q' = abs q @ bs \<and> try_then (f q) g = g () q'"
  unfolding emits_def by (metis try_then_Inr)

end

interpretation rbq: byte_queue rb_inv contents readable peek commit_read append_rb
proof
  fix q :: RingBuffer and n :: nat and bs :: bytes
  assume inv: "rb_inv q"
  show "readable q = length (contents q)" by (rule readable_contents)
  show "peek n q = take n (contents q)" using inv by (rule peek_contents)
  show "contents (commit_read n q) = drop n (contents q)" using inv by (rule contents_commit_read)
  show "rb_inv (commit_read n q)" using inv by (rule rb_inv_commit_read)
  obtain q' where q': "append_rb bs q = (Inr (), q')" "rb_inv q'" "contents q' = contents q @ bs"
    using append_rb_contents [OF inv] .
  then show "fst (append_rb bs q) = Inr ()" "contents (snd (append_rb bs q)) = contents q @ bs"
    "rb_inv (snd (append_rb bs q))" by simp_all
qed

lemma emits_append_str: "rbq.emits (append_str s) (bytes_of_string s)"
  using rbq.emits_push unfolding append_str_def .

text \<open>A buffer that holds a given text, for concrete instances.\<close>

definition buffer_of :: "string \<Rightarrow> RingBuffer" where
  "buffer_of s = snd (append_str s (new_RingBuffer 64))"

lemma buffer_of [simp]: "rb_inv (buffer_of s)" "contents (buffer_of s) = bytes_of_string s"
  using rbq.emitsD [OF emits_append_str rb_inv_new [of 64], of s]
  by (metis append_Nil buffer_of_def contents_new snd_conv)+

section \<open>Properties\<close>

text \<open>C14. Refinement of the byte queue: on every well-formed buffer, peek returns the first
  bytes of the contents, commit_read removes exactly those, and append succeeds, keeps the
  invariant and adds exactly the given bytes at the end, whatever the cursor positions and
  whether or not the vector has to grow.\<close>

theorem ring_buffer_refines_queue:
  assumes "rb_inv rb"
  shows "peek n rb = take n (contents rb) \<and>
    rb_inv (commit_read n rb) \<and> contents (commit_read n rb) = drop n (contents rb) \<and>
    (\<exists>rb'. append_rb bs rb = (Inr (), rb') \<and> rb_inv rb' \<and> contents rb' = contents rb @ bs)"
proof -
  obtain rb' where "append_rb bs rb = (Inr (), rb')" "rb_inv rb'" "contents rb' = contents rb @ bs"
    using append_rb_contents [OF assms] .
  then show ?thesis
    using rbq.peek_law [OF assms] rbq.drop_law [OF assms] rbq.inv_drop [OF assms] by blast
qed

theorem ring_buffer_refines_queue_witness:
  "contents (snd (append_rb [5, 6] (commit_read 2 (snd (append_rb [1, 2, 3] (new_RingBuffer 3))))))
     = [3, 5, 6]"
proof -
  let ?a = "snd (append_rb [1, 2, 3] (new_RingBuffer 3))"
  have a: "rb_inv ?a" "contents ?a = [1, 2, 3]"
    using ring_buffer_refines_queue [OF rb_inv_new [of 3], of 0 "[1, 2, 3]"] by auto
  from ring_buffer_refines_queue [OF a(1), of 2] a(2)
  have b: "rb_inv (commit_read 2 ?a)" "contents (commit_read 2 ?a) = [3]" by auto
  from ring_buffer_refines_queue [OF b(1), of 0 "[5, 6]"] b(2) show ?thesis by auto
qed

text \<open>Growth and bounds: ensure_writable always succeeds on a well-formed buffer, leaves the
  contents alone, makes room for the requested bytes and never shrinks the vector; for vectors
  and requests below half the address space the capacity computed never reaches \<open>2^64\<close>, so
  the \<^verbatim>\<open>size_t\<close> arithmetic does not wrap.\<close>

lemma ensure_writable_makes_room:
  assumes "rb_inv rb"
  shows "\<exists>rb'. ensure_writable n rb = (Inr (), rb') \<and> rb_inv rb' \<and> contents rb' = contents rb \<and>
    n \<le> writable rb' \<and> capacity rb \<le> capacity rb' \<and>
    (capacity rb < 2 ^ 63 \<and> n < 2 ^ 63 \<longrightarrow> capacity rb' < 2 ^ 64)"
proof -
  from ensure_writable_contents [OF assms, of n] obtain rb' where
    R: "ensure_writable n rb = (Inr (), rb')" "rb_inv rb'" "contents rb' = contents rb"
      "n \<le> writable rb'" "length (rb_data rb) \<le> length (rb_data rb')" .
  have "length (rb_data rb') \<le> max (length (rb_data rb) * 2) (length (rb_data rb) + n)"
    using R(1) peek_contents [OF assms] assms
    by (auto simp: ensure_writable_def Let_def rb_inv_def split: if_splits)
  with R show ?thesis by (auto simp: capacity_def)
qed

lemma ensure_writable_makes_room_witness:
  "\<exists>rb'. ensure_writable 8 (new_RingBuffer 4) = (Inr (), rb') \<and> 8 \<le> writable rb' \<and>
     capacity rb' < 2 ^ 64"
  using ensure_writable_makes_room [OF rb_inv_new [of 4], of 8]
  by (auto simp: capacity_def new_RingBuffer_def)

end
