(* ===== verification/Huffman.thy ===== *)
theory Huffman
  imports Ring_Buffer "HOL-Library.Sublist"
begin

text \<open>
  The Huffman code of HPACK: the symbol table (\<^verbatim>\<open>include/uproxy/hpack_huffman_table.h\<close>), the
  bit-buffer encoder of \<^verbatim>\<open>encode_string\<close> and the tree decoder of \<^verbatim>\<open>decode_string\<close>
  (\<^verbatim>\<open>src/hpack.cpp\<close>).  The decoding tree is a vector of nodes that refer to each other by
  index, with \<open>-1\<close> for none; it is a function-local static that is built on first use, here
  the constant \<open>huff_tree\<close>.  The two nested loops over the bytes of the input and the bits of a
  byte visit the bits from the highest to the lowest; that sequence is \<open>bits_of_bytes\<close>.
\<close>

unbundle bit_operations_syntax

text \<open>\<^verbatim>\<open>HpackHuffmanSym\<close>: the number of bits and the code, left aligned in 32 bits.\<close>

type_synonym HpackHuffmanSym = "nat \<times> u32"

definition HPACK_HUFFMAN_SYM_TABLE :: "HpackHuffmanSym list" where
  "HPACK_HUFFMAN_SYM_TABLE =
     [(13, 0xffc00000), (23, 0xffffb000), (28, 0xfffffe20), (28, 0xfffffe30),
      (28, 0xfffffe40), (28, 0xfffffe50), (28, 0xfffffe60), (28, 0xfffffe70),
      (28, 0xfffffe80), (24, 0xffffea00), (30, 0xfffffff0), (28, 0xfffffe90),
      (28, 0xfffffea0), (30, 0xfffffff4), (28, 0xfffffeb0), (28, 0xfffffec0),
      (28, 0xfffffed0), (28, 0xfffffee0), (28, 0xfffffef0), (28, 0xffffff00),
      (28, 0xffffff10), (28, 0xffffff20), (30, 0xfffffff8), (28, 0xffffff30),
      (28, 0xffffff40), (28, 0xffffff50), (28, 0xffffff60), (28, 0xffffff70),
      (28, 0xffffff80), (28, 0xffffff90), (28, 0xffffffa0), (28, 0xffffffb0),
      (6, 0x50000000), (10, 0xfe000000), (10, 0xfe400000), (12, 0xffa00000),
      (13, 0xffc80000), (6, 0x54000000), (8, 0xf8000000), (11, 0xff400000),
      (10, 0xfe800000), (10, 0xfec00000), (8, 0xf9000000), (11, 0xff600000),
      (8, 0xfa000000), (6, 0x58000000), (6, 0x5c000000), (6, 0x60000000),
      (5, 0x0), (5, 0x8000000), (5, 0x10000000), (6, 0x64000000),
      (6, 0x68000000), (6, 0x6c000000), (6, 0x70000000), (6, 0x74000000),
      (6, 0x78000000), (6, 0x7c000000), (7, 0xb8000000), (8, 0xfb000000),
      (15, 0xfff80000), (6, 0x80000000), (12, 0xffb00000), (10, 0xff000000),
      (13, 0xffd00000), (6, 0x84000000), (7, 0xba000000), (7, 0xbc000000),
      (7, 0xbe000000), (7, 0xc0000000), (7, 0xc2000000), (7, 0xc4000000),
      (7, 0xc6000000), (7, 0xc8000000), (7, 0xca000000), (7, 0xcc000000),
      (7, 0xce000000), (7, 0xd0000000), (7, 0xd2000000), (7, 0xd4000000),
      (7, 0xd6000000), (7, 0xd8000000), (7, 0xda000000), (7, 0xdc000000),
      (7, 0xde000000), (7, 0xe0000000), (7, 0xe2000000), (7, 0xe4000000),
      (8, 0xfc000000), (7, 0xe6000000), (8, 0xfd000000), (13, 0xffd80000),
      (19, 0xfffe0000), (13, 0xffe00000), (14, 0xfff00000), (6, 0x88000000),
      (15, 0xfffa0000), (5, 0x18000000), (6, 0x8c000000), (5, 0x20000000),
      (6, 0x90000000), (5, 0x28000000), (6, 0x94000000), (6, 0x98000000),
      (6, 0x9c000000), (5, 0x30000000), (7, 0xe8000000), (7, 0xea000000),
      (6, 0xa0000000), (6, 0xa4000000), (6, 0xa8000000), (5, 0x38000000),
      (6, 0xac000000), (7, 0xec000000), (6, 0xb0000000), (5, 0x40000000),
      (5, 0x48000000), (6, 0xb4000000), (7, 0xee000000), (7, 0xf0000000),
      (7, 0xf2000000), (7, 0xf4000000), (7, 0xf6000000), (15, 0xfffc0000),
      (11, 0xff800000), (14, 0xfff40000), (13, 0xffe80000), (28, 0xffffffc0),
      (20, 0xfffe6000), (22, 0xffff4800), (20, 0xfffe7000), (20, 0xfffe8000),
      (22, 0xffff4c00), (22, 0xffff5000), (22, 0xffff5400), (23, 0xffffb200),
      (22, 0xffff5800), (23, 0xffffb400), (23, 0xffffb600), (23, 0xffffb800),
      (23, 0xffffba00), (23, 0xffffbc00), (24, 0xffffeb00), (23, 0xffffbe00),
      (24, 0xffffec00), (24, 0xffffed00), (22, 0xffff5c00), (23, 0xffffc000),
      (24, 0xffffee00), (23, 0xffffc200), (23, 0xffffc400), (23, 0xffffc600),
      (23, 0xffffc800), (21, 0xfffee000), (22, 0xffff6000), (23, 0xffffca00),
      (22, 0xffff6400), (23, 0xffffcc00), (23, 0xffffce00), (24, 0xffffef00),
      (22, 0xffff6800), (21, 0xfffee800), (20, 0xfffe9000), (22, 0xffff6c00),
      (22, 0xffff7000), (23, 0xffffd000), (23, 0xffffd200), (21, 0xfffef000),
      (23, 0xffffd400), (22, 0xffff7400), (22, 0xffff7800), (24, 0xfffff000),
      (21, 0xfffef800), (22, 0xffff7c00), (23, 0xffffd600), (23, 0xffffd800),
      (21, 0xffff0000), (21, 0xffff0800), (22, 0xffff8000), (21, 0xffff1000),
      (23, 0xffffda00), (22, 0xffff8400), (23, 0xffffdc00), (23, 0xffffde00),
      (20, 0xfffea000), (22, 0xffff8800), (22, 0xffff8c00), (22, 0xffff9000),
      (23, 0xffffe000), (22, 0xffff9400), (22, 0xffff9800), (23, 0xffffe200),
      (26, 0xfffff800), (26, 0xfffff840), (20, 0xfffeb000), (19, 0xfffe2000),
      (22, 0xffff9c00), (23, 0xffffe400), (22, 0xffffa000), (25, 0xfffff600),
      (26, 0xfffff880), (26, 0xfffff8c0), (26, 0xfffff900), (27, 0xfffffbc0),
      (27, 0xfffffbe0), (26, 0xfffff940), (24, 0xfffff100), (25, 0xfffff680),
      (19, 0xfffe4000), (21, 0xffff1800), (26, 0xfffff980), (27, 0xfffffc00),
      (27, 0xfffffc20), (26, 0xfffff9c0), (27, 0xfffffc40), (24, 0xfffff200),
      (21, 0xffff2000), (21, 0xffff2800), (26, 0xfffffa00), (26, 0xfffffa40),
      (28, 0xffffffd0), (27, 0xfffffc60), (27, 0xfffffc80), (27, 0xfffffca0),
      (20, 0xfffec000), (24, 0xfffff300), (20, 0xfffed000), (21, 0xffff3000),
      (22, 0xffffa400), (21, 0xffff3800), (21, 0xffff4000), (23, 0xffffe600),
      (22, 0xffffa800), (22, 0xffffac00), (25, 0xfffff700), (25, 0xfffff780),
      (24, 0xfffff400), (24, 0xfffff500), (26, 0xfffffa80), (23, 0xffffe800),
      (26, 0xfffffac0), (27, 0xfffffcc0), (26, 0xfffffb00), (26, 0xfffffb40),
      (27, 0xfffffce0), (27, 0xfffffd00), (27, 0xfffffd20), (27, 0xfffffd40),
      (27, 0xfffffd60), (28, 0xffffffe0), (27, 0xfffffd80), (27, 0xfffffda0),
      (27, 0xfffffdc0), (27, 0xfffffde0), (27, 0xfffffe00), (26, 0xfffffb80),
      (30, 0xfffffffc)]"


definition sym_nbits :: "nat \<Rightarrow> nat" where
  "sym_nbits i = fst (HPACK_HUFFMAN_SYM_TABLE ! i)"

definition sym_code :: "nat \<Rightarrow> u32" where
  "sym_code i = drop_bit (32 - sym_nbits i) (snd (HPACK_HUFFMAN_SYM_TABLE ! i))"

text \<open>The lowest \<open>n\<close> bits of a word, highest first, and the bits of the code of a symbol.\<close>

definition low_bits :: "nat \<Rightarrow> 'a :: len word \<Rightarrow> bool list" where
  "low_bits n w = map (bit w) (rev [0..<n])"

definition code_bits :: "nat \<Rightarrow> bool list" where
  "code_bits i = low_bits (sym_nbits i) (sym_code i)"

definition bits_of_bytes :: "bytes \<Rightarrow> bool list" where
  "bits_of_bytes bs = concat (map (low_bits 8) bs)"

section \<open>The encoder\<close>

text \<open>\<open>huff_drain\<close> is the inner \<^verbatim>\<open>while\<close> that moves whole bytes out of the bit buffer,
  \<open>huff_step\<close> one symbol, \<open>huff_encode\<close> the loop with the final padding.\<close>

fun huff_drain :: "u64 \<Rightarrow> nat \<Rightarrow> bytes \<Rightarrow> nat \<times> bytes" where
  "huff_drain bit_buf bit_len enc =
     (if bit_len \<ge> 8
      then huff_drain bit_buf (bit_len - 8) (enc @ [ucast (drop_bit (bit_len - 8) bit_buf AND 0xff)])
      else (bit_len, enc))"

declare huff_drain.simps [simp del]

definition huff_step :: "char \<Rightarrow> u64 \<times> nat \<times> bytes \<Rightarrow> u64 \<times> nat \<times> bytes" where
  "huff_step ch = (\<lambda>(bit_buf, bit_len, enc).
     let c = ord_c ch;
         bit_buf' = push_bit (sym_nbits c) bit_buf OR ucast (sym_code c);
         (bit_len', enc') = huff_drain bit_buf' (bit_len + sym_nbits c) enc
     in (bit_buf', bit_len', enc'))"

definition huff_encode :: "string \<Rightarrow> bytes" where
  "huff_encode s =
     (case fold huff_step s (0, 0, []) of
        (bit_buf, bit_len, enc) \<Rightarrow>
          if bit_len > 0
          then enc @ [ucast ((push_bit (8 - bit_len) bit_buf OR (push_bit (8 - bit_len) 1 - 1)) AND 0xff)]
          else enc)"

definition huffman_len :: "string \<Rightarrow> nat" where
  "huffman_len s = sum_list (map (\<lambda>ch. sym_nbits (ord_c ch)) s)"

section \<open>The decoding tree\<close>

record HuffNode =
  hn_left :: int
  hn_right :: int
  hn_sym :: int

definition new_HuffNode :: HuffNode where
  "new_HuffNode = \<lparr>hn_left = -1, hn_right = -1, hn_sym = -1\<rparr>"

definition child :: "bool \<Rightarrow> HuffNode \<Rightarrow> int" where
  "child b nd = (if b then hn_right nd else hn_left nd)"

definition set_child :: "bool \<Rightarrow> int \<Rightarrow> HuffNode \<Rightarrow> HuffNode" where
  "set_child b c nd = (if b then nd\<lparr>hn_right := c\<rparr> else nd\<lparr>hn_left := c\<rparr>)"

text \<open>The descent that creates missing nodes (the loop over the bits of a code), one symbol,
  and the loop over the 257 symbols.\<close>

fun huff_insert :: "HuffNode list \<Rightarrow> int \<Rightarrow> bool list \<Rightarrow> HuffNode list \<times> int" where
  "huff_insert tree node [] = (tree, node)"
| "huff_insert tree node (b # bs) =
     (let i = nat node
      in if child b (tree ! i) = -1
         then huff_insert (tree[i := set_child b (int (length tree)) (tree ! i)] @ [new_HuffNode])
                (int (length tree)) bs
         else huff_insert tree (child b (tree ! i)) bs)"

definition huff_add :: "HuffNode list \<Rightarrow> nat \<Rightarrow> HuffNode list" where
  "huff_add tree i =
     (case huff_insert tree 0 (code_bits i) of
        (tree', node) \<Rightarrow> tree'[nat node := (tree' ! nat node)\<lparr>hn_sym := int i\<rparr>])"

definition huff_tree :: "HuffNode list" where
  "huff_tree = foldl huff_add [new_HuffNode] [0..<257]"

section \<open>The decoder\<close>

fun huff_decode :: "HuffNode list \<Rightarrow> int \<Rightarrow> bool list \<Rightarrow> string \<Rightarrow> string result" where
  "huff_decode tree node [] out = Inr out"
| "huff_decode tree node (b # bs) out =
     (let node' = child b (tree ! nat node)
      in if node' = -1 then Inl (from_code HpackError ''invalid Huffman code'')
         else let sym = hn_sym (tree ! nat node')
              in if sym \<noteq> -1
                 then if sym = 256 then Inl (from_code HpackError ''EOS symbol in Huffman'')
                      else huff_decode tree 0 bs (out @ [char_of (nat sym)])
                 else huff_decode tree node' bs out)"

section \<open>The table is a prefix code\<close>

text \<open>The check: insert the codes one after the other into a binary tree, which fails as soon as
  one code is a prefix of another.\<close>

datatype trie = Lf | Sym | Nd trie trie

fun ins :: "bool list \<Rightarrow> trie \<Rightarrow> trie option" where
  "ins [] Lf = Some Sym"
| "ins [] _ = None"
| "ins (b # bs) Sym = None"
| "ins (b # bs) Lf =
     (if b then map_option (Nd Lf) (ins bs Lf) else map_option (\<lambda>l. Nd l Lf) (ins bs Lf))"
| "ins (b # bs) (Nd l r) =
     (if b then map_option (Nd l) (ins bs r) else map_option (\<lambda>l'. Nd l' r) (ins bs l))"

fun build :: "bool list list \<Rightarrow> trie \<Rightarrow> trie option" where
  "build [] t = Some t"
| "build (c # cs) t = (case ins c t of None \<Rightarrow> None | Some t' \<Rightarrow> build cs t')"

primrec paths :: "trie \<Rightarrow> bool list set" where
  "paths Lf = {}"
| "paths Sym = {[]}"
| "paths (Nd l r) = (Cons False ` paths l) \<union> (Cons True ` paths r)"

lemma paths_antichain: "p \<in> paths t \<Longrightarrow> q \<in> paths t \<Longrightarrow> prefix p q \<Longrightarrow> p = q"
  by (induction t arbitrary: p q) auto

lemma ins_paths: "ins bs t = Some t' \<Longrightarrow> paths t' = insert bs (paths t) \<and> bs \<notin> paths t"
  by (induction bs t arbitrary: t' rule: ins.induct) (auto split: if_splits)

lemma build_paths:
  "build cs t = Some t' \<Longrightarrow> paths t' = set cs \<union> paths t \<and> distinct cs \<and> set cs \<inter> paths t = {}"
proof (induction cs arbitrary: t)
  case (Cons c cs)
  then obtain u where u: "ins c t = Some u" "build cs u = Some t'" by (auto split: option.splits)
  from ins_paths [OF u(1)] Cons.IH [OF u(2)] show ?case by auto
qed simp

definition entry_bits :: "HpackHuffmanSym \<Rightarrow> bool list" where
  "entry_bits e = low_bits (fst e) (drop_bit (32 - fst e) (snd e))"

lemma table_length [simp]: "length HPACK_HUFFMAN_SYM_TABLE = 257"
  by (simp add: HPACK_HUFFMAN_SYM_TABLE_def)

lemma table_builds: "build (map entry_bits HPACK_HUFFMAN_SYM_TABLE) Lf \<noteq> None"
  by code_simp

lemma table_nbits: "list_all (\<lambda>e. 1 \<le> fst e \<and> fst e \<le> 30) HPACK_HUFFMAN_SYM_TABLE"
  by (simp add: HPACK_HUFFMAN_SYM_TABLE_def)

lemma code_bits_entry: "i < 257 \<Longrightarrow> code_bits i = map entry_bits HPACK_HUFFMAN_SYM_TABLE ! i"
  by (simp add: code_bits_def entry_bits_def sym_nbits_def sym_code_def)

lemma sym_nbits_bounds: "i < 257 \<Longrightarrow> 1 \<le> sym_nbits i \<and> sym_nbits i \<le> 30"
  using table_nbits by (simp add: sym_nbits_def list_all_length)

lemma length_low_bits [simp]: "length (low_bits n w) = n"
  by (simp add: low_bits_def)

lemma code_bits_nonempty: "i < 257 \<Longrightarrow> code_bits i \<noteq> []"
  using sym_nbits_bounds [of i] by (auto simp: code_bits_def simp flip: length_0_conv)

lemma code_prefix_free:
  assumes "i < 257" "j < 257" "prefix (code_bits i) (code_bits j)"
  shows "i = j"
proof -
  let ?cs = "map entry_bits HPACK_HUFFMAN_SYM_TABLE"
  obtain t where "build ?cs Lf = Some t" using table_builds by auto
  then have p: "paths t = set ?cs" "distinct ?cs" using build_paths [of ?cs Lf t] by auto
  have "code_bits i \<in> paths t" "code_bits j \<in> paths t"
    unfolding p(1) using assms(1,2) by (metis code_bits_entry length_map nth_mem table_length)+
  with assms(3) have "?cs ! i = ?cs ! j" using paths_antichain assms(1,2) code_bits_entry by metis
  with p(2) assms(1,2) show ?thesis by (simp add: nth_eq_iff_index_eq del: nth_map)
qed

end
