(* ===== verification/Hpack.thy ===== *)
theory Hpack
  imports Huffman
begin

text \<open>
  HPACK header compression (\<^verbatim>\<open>include/uproxy/hpack.h\<close>, \<^verbatim>\<open>src/hpack.cpp\<close>).  Encoder and
  decoder have the same three members, the record \<open>HpackTable\<close>; the encoder writes to a
  \<open>RingBuffer\<close>, the decoder reads a \<^verbatim>\<open>std::span\<close> that its helpers shorten from the front, here
  the list of the bytes still unread.  \<open>decode_step\<close> is the body of the decoder's loop: an error
  leaves table and output as they were, a success gives the unread bytes, the new table and the
  header to append, if any.  Table sizes are \<open>nat\<close>; that the subtraction of \<open>evict\<close> never goes
  below zero is part of the table invariant.
\<close>

record HpackHeader =
  hp_name :: string
  hp_value :: string
  hp_sensitive :: bool

definition static_header :: "string \<times> string \<Rightarrow> HpackHeader" where
  "static_header nv = \<lparr>hp_name = fst nv, hp_value = snd nv, hp_sensitive = False\<rparr>"

definition HPACK_STATIC_TABLE :: "HpackHeader list" where
  "HPACK_STATIC_TABLE = map static_header
     [([], []), ('':authority'', []), ('':method'', ''GET''),
      ('':method'', ''POST''), ('':path'', ''/''), ('':path'', ''/index.html''),
      ('':scheme'', ''http''), ('':scheme'', ''https''), ('':status'', ''200''),
      ('':status'', ''204''), ('':status'', ''206''), ('':status'', ''304''),
      ('':status'', ''400''), ('':status'', ''404''), ('':status'', ''500''),
      (''accept-charset'', []), (''accept-encoding'', ''gzip, deflate''), (''accept-language'', []),
      (''accept-ranges'', []), (''accept'', []), (''access-control-allow-origin'', []),
      (''age'', []), (''allow'', []), (''authorization'', []),
      (''cache-control'', []), (''content-disposition'', []), (''content-encoding'', []),
      (''content-language'', []), (''content-length'', []), (''content-location'', []),
      (''content-range'', []), (''content-type'', []), (''cookie'', []),
      (''date'', []), (''etag'', []), (''expect'', []),
      (''expires'', []), (''from'', []), (''host'', []),
      (''if-match'', []), (''if-modified-since'', []), (''if-none-match'', []),
      (''if-range'', []), (''if-unmodified-since'', []), (''last-modified'', []),
      (''link'', []), (''location'', []), (''max-forwards'', []),
      (''proxy-authenticate'', []), (''proxy-authorization'', []), (''range'', []),
      (''referer'', []), (''refresh'', []), (''retry-after'', []),
      (''server'', []), (''set-cookie'', []), (''strict-transport-security'', []),
      (''transfer-encoding'', []), (''user-agent'', []), (''vary'', []),
      (''via'', []), (''www-authenticate'', [])]"

record HpackTable =
  dynamic_table :: "HpackHeader list"
  table_size :: nat
  max_table_size :: nat

definition new_HpackTable :: HpackTable where
  "new_HpackTable = \<lparr>dynamic_table = [], table_size = 0, max_table_size = 4096\<rparr>"

definition has_uppercase :: "string \<Rightarrow> bool" where
  "has_uppercase s = list_ex isupper_c s"

definition entry_size :: "HpackHeader \<Rightarrow> nat" where
  "entry_size h = length (hp_name h) + length (hp_value h) + 32"

section \<open>Integers and strings: writing\<close>

lemma unat_div_128: "128 \<le> (v :: u64) \<Longrightarrow> unat (v div 128) < unat v"
  by (simp add: unat_div word_le_nat_alt)

function encode_int_tail :: "u64 \<Rightarrow> RingBuffer \<Rightarrow> unit result \<times> RingBuffer" where
  "encode_int_tail value out =
     (if value \<ge> 128
      then try_then (append_rb [ucast (value mod 128 + 128)] out) (\<lambda>_. encode_int_tail (value div 128))
      else append_rb [ucast value] out)"
  by pat_completeness auto
termination
  by (relation "measure (\<lambda>(v, _). unat v)") (auto intro: unat_div_128)

declare encode_int_tail.simps [simp del]

definition encode_int :: "u64 \<Rightarrow> nat \<Rightarrow> 8 word \<Rightarrow> RingBuffer \<Rightarrow> unit result \<times> RingBuffer" where
  "encode_int value prefix_bits prefix_byte out =
     (let max_prefix = push_bit prefix_bits 1 - 1
      in if value < max_prefix then append_rb [prefix_byte OR ucast value] out
         else try_then (append_rb [prefix_byte OR ucast max_prefix] out)
                (\<lambda>_. encode_int_tail (value - max_prefix)))"

definition encode_string :: "string \<Rightarrow> RingBuffer \<Rightarrow> unit result \<times> RingBuffer" where
  "encode_string s out =
     (let huffman_bytes = (huffman_len s + 7) div 8
      in if huffman_bytes < length s
         then try_then (encode_int (word_of_nat huffman_bytes) 7 0x80 out) (\<lambda>_. append_rb (huff_encode s))
         else try_then (encode_int (word_of_nat (length s)) 7 0x00 out) (\<lambda>_. append_str s))"

section \<open>The dynamic table\<close>

function evict :: "HpackTable \<Rightarrow> HpackTable" where
  "evict t =
     (if table_size t > max_table_size t \<and> dynamic_table t \<noteq> []
      then evict (t\<lparr>table_size := table_size t - entry_size (last (dynamic_table t)),
                    dynamic_table := butlast (dynamic_table t)\<rparr>)
      else t)"
  by pat_completeness auto
termination
  by (relation "measure (\<lambda>t. length (dynamic_table t))") auto

declare evict.simps [simp del]

definition add_to_dynamic :: "HpackHeader \<Rightarrow> HpackTable \<Rightarrow> HpackTable" where
  "add_to_dynamic h t =
     evict (t\<lparr>table_size := table_size t + entry_size h, dynamic_table := h # dynamic_table t\<rparr>)"

definition set_max_table_size :: "nat \<Rightarrow> HpackTable \<Rightarrow> HpackTable" where
  "set_max_table_size n t = evict (t\<lparr>max_table_size := n\<rparr>)"

definition lookup :: "nat \<Rightarrow> HpackTable \<Rightarrow> HpackHeader option" where
  "lookup index t =
     (if index = 0 then None
      else if index < length HPACK_STATIC_TABLE then Some (HPACK_STATIC_TABLE ! index)
      else let dyn = index - length HPACK_STATIC_TABLE
           in if dyn = 0 \<or> dyn > length (dynamic_table t) then None
              else Some (dynamic_table t ! (dyn - 1)))"

section \<open>The encoder\<close>

definition is_sensitive :: "HpackHeader \<Rightarrow> bool" where
  "is_sensitive h \<longleftrightarrow>
     hp_sensitive h \<or> hp_name h = ''authorization'' \<or> hp_name h = ''cookie'' \<or>
     hp_name h = ''proxy-authorization''"

definition encode_literal :: "HpackHeader \<Rightarrow> RingBuffer \<Rightarrow> unit result \<times> RingBuffer" where
  "encode_literal h out =
     try_then (encode_int 0 (if is_sensitive h then 4 else 6) (if is_sensitive h then 0x10 else 0x40) out)
       (\<lambda>_ out1. try_then (encode_string (hp_name h) out1) (\<lambda>_. encode_string (hp_value h)))"

fun hpack_encode ::
  "HpackTable \<Rightarrow> HpackHeader list \<Rightarrow> RingBuffer \<Rightarrow> unit result \<times> HpackTable \<times> RingBuffer" where
  "hpack_encode t [] out = (Inr (), t, out)"
| "hpack_encode t (h # hs) out =
     (if has_uppercase (hp_name h)
      then (Inl (from_code HpackError ''uppercase HTTP/2 header name''), t, out)
      else case encode_literal h out of
             (Inl e, out') \<Rightarrow> (Inl e, t, out')
           | (Inr _, out') \<Rightarrow> hpack_encode (if is_sensitive h then t else add_to_dynamic h t) hs out')"

section \<open>Integers and strings: reading\<close>

fun decode_int_tail :: "bytes \<Rightarrow> u64 \<Rightarrow> nat \<Rightarrow> (u64 \<times> bytes) result" where
  "decode_int_tail [] value m = Inl (from_code HpackError ''truncated HPACK integer'')"
| "decode_int_tail (b # data) value m =
     (let value' = value + push_bit m (ucast (b AND 0x7F))
      in if b AND 0x80 = 0 then Inr (value', data)
         else if m + 7 > 56 then Inl (from_code HpackError ''HPACK integer overflow'')
         else decode_int_tail data value' (m + 7))"

definition decode_int :: "bytes \<Rightarrow> nat \<Rightarrow> (u64 \<times> bytes) result" where
  "decode_int data prefix_bits =
     (if data = [] \<or> prefix_bits = 0 \<or> prefix_bits > 8
      then Inl (from_code HpackError ''truncated HPACK integer'')
      else let mask_p = push_bit prefix_bits 1 - 1;
               value = ucast (hd data) AND mask_p
           in if value < mask_p
              then if value = 0 \<and> prefix_bits = 7 then Inl (from_code HpackError ''invalid index 0'')
                   else Inr (value, tl data)
              else decode_int_tail (tl data) value 0)"

definition decode_string :: "bytes \<Rightarrow> (string \<times> bytes) result" where
  "decode_string data =
     (if data = [] then Inl (from_code HpackError ''truncated HPACK string'')
      else let huffman = (hd data AND 0x80 \<noteq> 0)
           in case decode_int data 7 of
                Inl e \<Rightarrow> Inl e
              | Inr (len, rest) \<Rightarrow>
                  if len > 65535 \<or> unat len > length rest
                  then Inl (from_code HpackError ''invalid HPACK string length'')
                  else if huffman
                  then map_r (huff_decode huff_tree 0 (bits_of_bytes (take (unat len) rest)) [])
                         (\<lambda>s. (s, drop (unat len) rest))
                  else Inr (string_of_bytes (take (unat len) rest), drop (unat len) rest))"

section \<open>The decoder\<close>

text \<open>\<open>decode_name\<close>: the name of a literal, read in full or taken from the tables.\<close>

definition decode_name :: "HpackTable \<Rightarrow> bytes \<Rightarrow> nat \<Rightarrow> (string \<times> bytes) result" where
  "decode_name t data prefix_bits =
     (case decode_int data prefix_bits of
        Inl e \<Rightarrow> Inl e
      | Inr (idx, rest) \<Rightarrow>
          if idx = 0 then decode_string rest
          else case lookup (unat idx) t of
                 None \<Rightarrow> Inl (from_code HpackError ''invalid HPACK name index'')
               | Some h \<Rightarrow> Inr (hp_name h, rest))"

definition decode_step :: "HpackTable \<Rightarrow> bytes \<Rightarrow> (bytes \<times> HpackTable \<times> HpackHeader option) result" where
  "decode_step t data =
     (let b = hd data
      in if b AND 0x80 \<noteq> 0 then
           (case decode_int data 7 of
              Inl e \<Rightarrow> Inl e
            | Inr (idx, rest) \<Rightarrow>
                (case lookup (unat idx) t of
                   None \<Rightarrow> Inl (from_code HpackError ''invalid HPACK index'')
                 | Some h \<Rightarrow> Inr (rest, t, Some h)))
         else if b AND 0x20 \<noteq> 0 then
           (case decode_int data 5 of
              Inl e \<Rightarrow> Inl e
            | Inr (sz, rest) \<Rightarrow>
                if unat sz > max_table_size t
                then Inl (from_code HpackError ''dynamic table size update too large'')
                else Inr (rest, set_max_table_size (unat sz) t, None))
         else
           let indexed = (b AND 0x40 \<noteq> 0);
               never_indexed = (b AND 0x10 \<noteq> 0)
           in case decode_name t data (if indexed then 6 else 4) of
                Inl e \<Rightarrow> Inl e
              | Inr (name, rest) \<Rightarrow>
                  (case decode_string rest of
                     Inl e \<Rightarrow> Inl e
                   | Inr (value, rest') \<Rightarrow>
                       if has_uppercase name
                       then Inl (from_code HpackError ''uppercase HTTP/2 header name'')
                       else let header = \<lparr>hp_name = name, hp_value = value, hp_sensitive = never_indexed\<rparr>
                            in Inr (rest', if indexed then add_to_dynamic header t else t, Some header)))"

lemma decode_int_tail_shorter: "decode_int_tail data v m = Inr (w, rest) \<Longrightarrow> length rest < length data"
  by (induction data v m rule: decode_int_tail.induct) (auto simp: Let_def split: if_splits)

lemma decode_int_shorter: "decode_int data p = Inr (w, rest) \<Longrightarrow> length rest < length data"
  by (cases data) (auto simp: decode_int_def Let_def split: if_splits dest: decode_int_tail_shorter)

lemma decode_string_shorter: "decode_string data = Inr (s, rest) \<Longrightarrow> length rest < length data"
  by (auto simp: decode_string_def Let_def map_r_Inr_iff split: if_splits sum.splits dest!: decode_int_shorter)

lemma decode_name_shorter: "decode_name t data p = Inr (s, rest) \<Longrightarrow> length rest < length data"
  by (auto simp: decode_name_def split: if_splits sum.splits option.splits
      dest!: decode_int_shorter decode_string_shorter)

lemma decode_step_shorter: "decode_step t data = Inr (rest, t', h) \<Longrightarrow> length rest < length data"
  by (auto simp: decode_step_def Let_def split: if_splits sum.splits option.splits
      dest!: decode_int_shorter decode_string_shorter decode_name_shorter)

function hpack_decode ::
  "HpackTable \<Rightarrow> bytes \<Rightarrow> HpackHeader list \<Rightarrow> unit result \<times> HpackTable \<times> HpackHeader list" where
  "hpack_decode t data out =
     (if data = [] then (Inr (), t, out)
      else case decode_step t data of
             Inl e \<Rightarrow> (Inl e, t, out)
           | Inr (rest, t', h) \<Rightarrow> hpack_decode t' rest (out @ (case h of None \<Rightarrow> [] | Some h' \<Rightarrow> [h'])))"
  by pat_completeness auto
termination
  by (relation "measure (\<lambda>(_, data, _). length data)") (auto dest: decode_step_shorter)

declare hpack_decode.simps [simp del]

end
