(* ===== verification/Huffman_Properties.thy ===== *)
theory Huffman_Properties
  imports Huffman
begin

text \<open>
  Correctness of the Huffman coder: the index-linked tree represents the code table, decoding is
  exactly the inverse of concatenating codes, and the bit-buffer encoder produces that
  concatenation padded with ones.
\<close>

section \<open>The tree as a set of paths with labels\<close>

fun walk :: "HuffNode list \<Rightarrow> nat \<Rightarrow> bool list \<Rightarrow> nat option" where
  "walk T k [] = Some k"
| "walk T k (b # bs) = (if child b (T ! k) = -1 then None else walk T (nat (child b (T ! k))) bs)"

definition tree_wf :: "HuffNode list \<Rightarrow> bool" where
  "tree_wf T \<longleftrightarrow> T \<noteq> [] \<and>
     (\<forall>k<length T. \<forall>b. child b (T ! k) = -1 \<or> (int k < child b (T ! k) \<and> child b (T ! k) < int (length T))) \<and>
     (\<forall>k<length T. \<forall>k'<length T. \<forall>b b'. child b (T ! k) = child b' (T ! k') \<longrightarrow>
        child b (T ! k) \<noteq> -1 \<longrightarrow> k = k' \<and> b = b')"

definition nodes :: "HuffNode list \<Rightarrow> bool list set" where
  "nodes T = {p. walk T 0 p \<noteq> None}"

definition label :: "HuffNode list \<Rightarrow> bool list \<Rightarrow> int" where
  "label T p = (case walk T 0 p of None \<Rightarrow> -1 | Some n \<Rightarrow> hn_sym (T ! n))"

lemma tree_wf_child:
  "tree_wf T \<Longrightarrow> k < length T \<Longrightarrow> child b (T ! k) \<noteq> -1 \<Longrightarrow>
     int k < child b (T ! k) \<and> child b (T ! k) < int (length T)"
  unfolding tree_wf_def by blast

lemma tree_wf_inj:
  "tree_wf T \<Longrightarrow> k < length T \<Longrightarrow> k' < length T \<Longrightarrow> child b (T ! k) = child b' (T ! k') \<Longrightarrow>
     child b (T ! k) \<noteq> -1 \<Longrightarrow> k = k' \<and> b = b'"
  unfolding tree_wf_def by blast

lemma walk_append:
  "walk T k (p @ q) = (case walk T k p of None \<Rightarrow> None | Some n \<Rightarrow> walk T n q)"
  by (induction p arbitrary: k) auto

lemma walk_bounds:
  "tree_wf T \<Longrightarrow> k < length T \<Longrightarrow> walk T k p = Some n \<Longrightarrow> n < length T \<and> (p \<noteq> [] \<longrightarrow> k < n)"
proof (induction p arbitrary: k)
  case (Cons b p)
  then have c: "child b (T ! k) \<noteq> -1" "walk T (nat (child b (T ! k))) p = Some n" by (auto split: if_splits)
  with tree_wf_child [OF Cons.prems(1,2) c(1)] have "k < nat (child b (T ! k))" "nat (child b (T ! k)) < length T"
    by linarith+
  with Cons.IH [OF Cons.prems(1) _ c(2)] show ?case by (cases "p = []") (use c(2) in auto)
qed auto

lemma tree_wf_pos: "tree_wf T \<Longrightarrow> 0 < length T"
  by (simp add: tree_wf_def)

lemmas walk_root = walk_bounds [OF _ tree_wf_pos]

lemma walk_snoc:
  "walk T 0 (p @ [b]) = Some n \<longleftrightarrow>
     (\<exists>k. walk T 0 p = Some k \<and> child b (T ! k) \<noteq> -1 \<and> n = nat (child b (T ! k)))"
  by (auto simp: walk_append split: option.splits)

lemma walk_inj:
  assumes "tree_wf T"
  shows "walk T 0 p = Some n \<Longrightarrow> walk T 0 q = Some n \<Longrightarrow> p = q"
proof (induction p arbitrary: n q rule: rev_induct)
  case Nil
  then show ?case using walk_root [OF assms assms, of q n] by fastforce
next
  case (snoc b p)
  have "n \<noteq> 0" using walk_root [OF assms assms snoc.prems(1)] by simp
  then obtain q' b' where q: "q = q' @ [b']" using snoc.prems(2) by (cases q rule: rev_cases) auto
  obtain k where k: "walk T 0 p = Some k" "child b (T ! k) \<noteq> -1" "n = nat (child b (T ! k))"
    using snoc.prems(1) unfolding walk_snoc by blast
  obtain k' where k': "walk T 0 q' = Some k'" "child b' (T ! k') \<noteq> -1" "n = nat (child b' (T ! k'))"
    using snoc.prems(2) unfolding q walk_snoc by blast
  have l: "k < length T" "k' < length T" using walk_root [OF assms assms] k(1) k'(1) by blast+
  have "0 \<le> child b (T ! k)" "0 \<le> child b' (T ! k')"
    using tree_wf_child [OF assms l(1) k(2)] tree_wf_child [OF assms l(2) k'(2)] by linarith+
  then have "child b (T ! k) = child b' (T ! k')" using k(3) k'(3) by linarith
  with tree_wf_inj [OF assms l] k(2) have "k = k'" "b = b'" by blast+
  with snoc.IH k(1) k'(1) q show ?case by blast
qed

section \<open>Growing the tree\<close>

lemma child_set_child: "child b (set_child b' c nd) = (if b = b' then c else child b nd)"
  by (simp add: child_def set_child_def)

lemma sym_set_child [simp]: "hn_sym (set_child b c nd) = hn_sym nd"
  by (simp add: set_child_def)

lemma child_new [simp]: "child b new_HuffNode = -1" "hn_sym new_HuffNode = -1"
  by (simp_all add: child_def new_HuffNode_def)

definition grow :: "HuffNode list \<Rightarrow> nat \<Rightarrow> bool \<Rightarrow> HuffNode list" where
  "grow T k b = T[k := set_child b (int (length T)) (T ! k)] @ [new_HuffNode]"

lemma child_grow:
  "k < length T \<Longrightarrow> n \<le> length T \<Longrightarrow> child c (grow T k b ! n) =
     (if n = length T then -1 else if n = k \<and> c = b then int (length T) else child c (T ! n))"
  by (auto simp: grow_def nth_append child_set_child nth_list_update)

lemma sym_grow:
  "k < length T \<Longrightarrow> n \<le> length T \<Longrightarrow> hn_sym (grow T k b ! n) = (if n = length T then -1 else hn_sym (T ! n))"
  by (auto simp: grow_def nth_append nth_list_update)

lemma length_grow [simp]: "length (grow T k b) = Suc (length T)"
  by (simp add: grow_def)

lemma tree_wf_grow:
  assumes "tree_wf T" "k < length T" "child b (T ! k) = -1"
  shows "tree_wf (grow T k b)"
proof -
  have small: "child c (T ! n) < int (length T)" if "n < length T" for c n
    using tree_wf_child [OF assms(1) that, of c] by (cases "child c (T ! n) = -1") auto
  have 1: "child c (grow T k b ! n) = -1 \<or>
      int n < child c (grow T k b ! n) \<and> child c (grow T k b ! n) < int (length (grow T k b))"
    if "n < length (grow T k b)" for n c
    using that tree_wf_child [OF assms(1), of n c] assms(2) by (auto simp: child_grow)
  have 2: "n = n' \<and> c = c'" if "n < length (grow T k b)" "n' < length (grow T k b)"
    "child c (grow T k b ! n) = child c' (grow T k b ! n')" "child c (grow T k b ! n) \<noteq> -1" for n n' c c'
    using that small [of n c] small [of n' c'] tree_wf_inj [OF assms(1), of n n' c c'] assms(2)
    by (auto simp: child_grow split: if_splits)
  show ?thesis unfolding tree_wf_def using 1 2 by (auto simp: grow_def)
qed

lemma walk_grow:
  assumes "tree_wf T" "k < length T" "child b (T ! k) = -1" "walk T 0 \<pi> = Some k"
  shows "walk (grow T k b) 0 p = (if p = \<pi> @ [b] then Some (length T) else walk T 0 p)"
proof (induction p rule: rev_induct)
  case (snoc c p)
  show ?case
  proof (cases "walk T 0 p")
    case None
    then have "p \<noteq> \<pi>" using assms(4) by auto
    show ?thesis
    proof (cases "p = \<pi> @ [b]")
      case True
      with snoc have "walk (grow T k b) 0 p = Some (length T)" by simp
      with None \<open>p \<noteq> \<pi>\<close> assms(2) show ?thesis by (simp add: walk_append [of _ _ p] child_grow)
    next
      case False
      with snoc None \<open>p \<noteq> \<pi>\<close> show ?thesis by (simp add: walk_append)
    qed
  next
    case (Some n)
    have "p \<noteq> \<pi> @ [b]" using Some assms(3,4) by (auto simp: walk_append)
    with snoc Some have w: "walk (grow T k b) 0 p = Some n" by simp
    have n: "n < length T" using walk_root [OF assms(1,1) Some] by simp
    have "n = k \<longleftrightarrow> p = \<pi>" using walk_inj [OF assms(1)] Some assms(4) by auto
    with w Some n assms(2,3) show ?thesis
      by (auto simp: walk_append child_grow assms(4))
  qed
qed simp

lemma nodes_grow:
  assumes "tree_wf T" "k < length T" "child b (T ! k) = -1" "walk T 0 \<pi> = Some k"
  shows "nodes (grow T k b) = insert (\<pi> @ [b]) (nodes T)"
  by (auto simp: nodes_def walk_grow [OF assms])

lemma label_grow:
  assumes "tree_wf T" "k < length T" "child b (T ! k) = -1" "walk T 0 \<pi> = Some k"
  shows "label (grow T k b) p = label T p"
proof -
  have "walk T 0 (\<pi> @ [b]) = None" using assms(3,4) by (simp add: walk_append)
  moreover have "n < length T" if "walk T 0 p = Some n" for n using walk_root [OF assms(1,1) that] by simp
  ultimately show ?thesis
    using assms(2) by (auto simp: label_def walk_grow [OF assms] sym_grow split: option.splits)
qed

lemma huff_insert_spec:
  assumes "tree_wf T" "walk T 0 \<pi> = Some k" "huff_insert T (int k) bs = (T', node)"
  shows "\<exists>n. node = int n \<and> tree_wf T' \<and> walk T' 0 (\<pi> @ bs) = Some n \<and> label T' = label T \<and>
    nodes T' = nodes T \<union> {\<pi> @ r |r. prefix r bs}"
  using assms
proof (induction bs arbitrary: T k \<pi>)
  case Nil
  then show ?case by (auto simp: nodes_def)
next
  case (Cons b bs)
  have k: "k < length T" using walk_root [OF Cons.prems(1,1,2)] by simp
  have step: "{\<pi> @ r |r. prefix r (b # bs)} = insert \<pi> {(\<pi> @ [b]) @ r |r. prefix r bs}"
    by (auto simp: prefix_Cons)
  have pi: "\<pi> \<in> nodes T" using Cons.prems(2) by (simp add: nodes_def)
  show ?case
  proof (cases "child b (T ! k) = -1")
    case True
    then have e: "huff_insert (grow T k b) (int (length T)) bs = (T', node)"
      using Cons.prems(3) by (simp add: grow_def Let_def)
    have w: "walk (grow T k b) 0 (\<pi> @ [b]) = Some (length T)"
      using walk_grow [OF Cons.prems(1) k True Cons.prems(2)] by simp
    from Cons.IH [OF tree_wf_grow [OF Cons.prems(1) k True] w e]
    show ?thesis
      using nodes_grow [OF Cons.prems(1) k True Cons.prems(2)]
        label_grow [OF Cons.prems(1) k True Cons.prems(2)] pi
      unfolding step by (auto simp: fun_eq_iff)
  next
    case False
    then have "0 \<le> child b (T ! k)" using tree_wf_child [OF Cons.prems(1) k False] by linarith
    then have e: "huff_insert T (int (nat (child b (T ! k)))) bs = (T', node)"
      using Cons.prems(3) False by (simp add: Let_def)
    have "walk T 0 (\<pi> @ [b]) = Some (nat (child b (T ! k)))"
      unfolding walk_snoc using Cons.prems(2) False by blast
    from Cons.IH [OF Cons.prems(1) this e] show ?thesis using pi unfolding step by auto
  qed
qed

definition set_sym :: "HuffNode list \<Rightarrow> nat \<Rightarrow> nat \<Rightarrow> HuffNode list" where
  "set_sym T n i = T[n := (T ! n)\<lparr>hn_sym := int i\<rparr>]"

lemma child_set_sym: "child b (set_sym T n i ! k) = child b (T ! k)"
  by (cases "n < length T")
    (auto simp: set_sym_def child_def nth_list_update list_update_beyond)

lemma walk_set_sym: "walk (set_sym T n i) k p = walk T k p"
  by (induction p arbitrary: k) (auto simp: child_set_sym)

lemma tree_wf_set_sym: "tree_wf T \<Longrightarrow> tree_wf (set_sym T n i)"
  unfolding tree_wf_def by (simp add: child_set_sym) (simp add: set_sym_def)

lemma label_set_sym:
  assumes "tree_wf T" "walk T 0 p = Some n"
  shows "label (set_sym T n i) = (label T)(p := int i)"
proof
  fix q
  have n: "n < length T" using walk_root [OF assms(1,1,2)] by simp
  show "label (set_sym T n i) q = ((label T)(p := int i)) q"
  proof (cases "walk T 0 q")
    case None
    with assms(2) show ?thesis by (auto simp: label_def walk_set_sym)
  next
    case (Some m)
    then have "m = n \<longleftrightarrow> q = p" using walk_inj [OF assms(1)] assms(2) by auto
    moreover have "hn_sym (set_sym T n i ! m) = (if m = n then int i else hn_sym (T ! m))"
      using n by (simp add: set_sym_def nth_list_update)
    ultimately show ?thesis using Some by (simp add: label_def walk_set_sym)
  qed
qed

lemma huff_add_spec:
  assumes "tree_wf T"
  shows "tree_wf (huff_add T i) \<and> label (huff_add T i) = (label T)(code_bits i := int i) \<and>
    nodes (huff_add T i) = nodes T \<union> {r. prefix r (code_bits i)}"
proof -
  obtain T' node where e: "huff_insert T (int 0) (code_bits i) = (T', node)"
    by (cases "huff_insert T (int 0) (code_bits i)")
  then obtain n where n: "node = int n" "tree_wf T'" "walk T' 0 (code_bits i) = Some n" "label T' = label T"
    "nodes T' = nodes T \<union> {r. prefix r (code_bits i)}"
    using huff_insert_spec [OF assms _ e, of "[]"] by auto
  have "huff_add T i = set_sym T' n i" using e n(1) by (simp add: huff_add_def set_sym_def)
  with n show ?thesis
    using tree_wf_set_sym label_set_sym by (auto simp: nodes_def walk_set_sym)
qed

lemma code_bits_inj: "i < 257 \<Longrightarrow> j < 257 \<Longrightarrow> code_bits i = code_bits j \<Longrightarrow> i = j"
  using code_prefix_free [of i j] by simp

lemma huff_tree_upto:
  assumes "m \<le> 257"
  shows "tree_wf (foldl huff_add [new_HuffNode] [0..<m]) \<and>
    nodes (foldl huff_add [new_HuffNode] [0..<m]) = insert [] {r. \<exists>i<m. prefix r (code_bits i)} \<and>
    (\<forall>i<m. label (foldl huff_add [new_HuffNode] [0..<m]) (code_bits i) = int i) \<and>
    (\<forall>p. (\<forall>i<m. p \<noteq> code_bits i) \<longrightarrow> label (foldl huff_add [new_HuffNode] [0..<m]) p = -1)"
  using assms
proof (induction m)
  case 0
  have "walk [new_HuffNode] 0 p = (if p = [] then Some 0 else None)" for p by (cases p) auto
  then show ?case by (auto simp: tree_wf_def nodes_def label_def split: option.splits)
next
  case (Suc m)
  let ?T = "foldl huff_add [new_HuffNode] [0..<m]"
  have IH: "tree_wf ?T" "nodes ?T = insert [] {r. \<exists>i<m. prefix r (code_bits i)}"
    "\<And>i. i < m \<Longrightarrow> label ?T (code_bits i) = int i"
    "\<And>p. (\<forall>i<m. p \<noteq> code_bits i) \<Longrightarrow> label ?T p = -1"
    using Suc by auto
  note add = huff_add_spec [OF IH(1), of m]
  have "code_bits i \<noteq> code_bits m" if "i < m" for i using code_bits_inj [of i m] that Suc.prems by auto
  then have "label (huff_add ?T m) (code_bits i) = int i" if "i < Suc m" for i
    using add IH(3) that by (auto simp: less_Suc_eq)
  moreover have "label (huff_add ?T m) p = -1" if "\<forall>i<Suc m. p \<noteq> code_bits i" for p
    using add IH(4) that by auto
  moreover have "nodes (huff_add ?T m) = insert [] {r. \<exists>i<Suc m. prefix r (code_bits i)}"
    using add IH(2) by (auto simp: less_Suc_eq)
  ultimately show ?case using add by auto
qed

lemma huff_tree_facts:
  "tree_wf huff_tree" "p \<in> nodes huff_tree \<longleftrightarrow> (\<exists>i<257. prefix p (code_bits i))"
  "i < 257 \<Longrightarrow> label huff_tree (code_bits i) = int i"
  "\<forall>i<257. p \<noteq> code_bits i \<Longrightarrow> label huff_tree p = -1"
proof -
  note u = huff_tree_upto [OF order_refl, folded huff_tree_def]
  show "tree_wf huff_tree" using u by (rule conjunct1)
  have "\<exists>i<257. prefix [] (code_bits i)" by (rule exI [of _ 0]) simp
  then show "p \<in> nodes huff_tree \<longleftrightarrow> (\<exists>i<257. prefix p (code_bits i))"
    unfolding u [THEN conjunct2, THEN conjunct1] by auto
  show "i < 257 \<Longrightarrow> label huff_tree (code_bits i) = int i"
    using u [THEN conjunct2, THEN conjunct2, THEN conjunct1] by (simp only: simp_thms)
  show "\<forall>i<257. p \<noteq> code_bits i \<Longrightarrow> label huff_tree p = -1"
    using u [THEN conjunct2, THEN conjunct2, THEN conjunct2] by (simp only: simp_thms)
qed

declare huff_decode.simps(2) [simp del]

section \<open>Decoding inverts the concatenation of codes\<close>

text \<open>The decoder at the node it reaches with the bits \<open>p\<close> read since the last symbol.\<close>

definition is_pre :: "bool list \<Rightarrow> bool" where
  "is_pre q \<longleftrightarrow> (\<exists>i<257. prefix q (code_bits i))"

definition is_sym :: "bool list \<Rightarrow> bool" where
  "is_sym q \<longleftrightarrow> (\<exists>i<256. q = code_bits i)"

definition is_eos :: "bool list \<Rightarrow> bool" where
  "is_eos q \<longleftrightarrow> q = code_bits 256"

lemma any_code: "(\<exists>i<257. q = code_bits i) \<longleftrightarrow> is_eos q \<or> is_sym q"
proof -
  have last: "i < (257 :: nat) \<longleftrightarrow> i = 256 \<or> i < 256" for i by auto
  show ?thesis unfolding last is_sym_def is_eos_def by blast
qed

lemma label_code:
  "label huff_tree q = -1 \<longleftrightarrow> \<not> is_eos q \<and> \<not> is_sym q"
  "label huff_tree q = 256 \<longleftrightarrow> is_eos q"
proof -
  show l1: "label huff_tree q = -1 \<longleftrightarrow> \<not> is_eos q \<and> \<not> is_sym q"
  proof (cases "\<exists>i<257. q = code_bits i")
    case True
    then obtain i where "i < 257" "q = code_bits i" by blast
    then have "label huff_tree q = int i" using huff_tree_facts(3) by simp
    with True show ?thesis unfolding any_code by simp
  next
    case False
    then have "label huff_tree q = -1" using huff_tree_facts(4) by blast
    with False show ?thesis unfolding any_code by simp
  qed
  show "label huff_tree q = 256 \<longleftrightarrow> is_eos q"
  proof
    assume a: "label huff_tree q = 256"
    then have "label huff_tree q \<noteq> -1" by simp
    then obtain i where "i < 257" "q = code_bits i" unfolding l1 using any_code by blast
    with a show "is_eos q" using huff_tree_facts(3) [of i] by (simp add: is_eos_def)
  next
    assume "is_eos q"
    then show "label huff_tree q = 256" using huff_tree_facts(3) [of 256] by (simp add: is_eos_def)
  qed
qed

lemma huff_decode_step:
  assumes "walk huff_tree 0 p = Some k"
  shows "huff_decode huff_tree (int k) (b # bs) out =
    (if is_pre (p @ [b])
     then if is_eos (p @ [b]) then Inl (from_code HpackError ''EOS symbol in Huffman'')
          else if is_sym (p @ [b])
          then huff_decode huff_tree 0 bs (out @ [char_of (nat (label huff_tree (p @ [b])))])
          else huff_decode huff_tree (child b (huff_tree ! k)) bs out
     else Inl (from_code HpackError ''invalid Huffman code''))"
proof -
  let ?c = "child b (huff_tree ! k)"
  have node: "?c = -1 \<longleftrightarrow> \<not> is_pre (p @ [b])"
    unfolding is_pre_def huff_tree_facts(2) [symmetric] using assms by (simp add: nodes_def walk_append)
  have "hn_sym (huff_tree ! nat ?c) = label huff_tree (p @ [b])" if "is_pre (p @ [b])"
    using that node assms by (simp add: label_def walk_append)
  with node label_code [of "p @ [b]"] show ?thesis
    by (auto simp: huff_decode.simps(2) Let_def)
qed

definition codes :: "string \<Rightarrow> bool list" where
  "codes s = concat (map (\<lambda>c. code_bits (ord_c c)) s)"

lemma codes_simps [simp]: "codes [] = []" "codes (c # s) = code_bits (ord_c c) @ codes s"
  by (simp_all add: codes_def)

lemma ord_c_lt: "ord_c c < 257" "ord_c c \<noteq> 256"
  using ord_c_less [of c] by auto

lemma walk_code: "i < 257 \<Longrightarrow> prefix p (code_bits i) \<Longrightarrow> \<exists>k. walk huff_tree 0 p = Some k"
  using huff_tree_facts(2) [of p] by (auto simp: nodes_def)

lemma walk_next:
  assumes "walk huff_tree 0 p = Some k" "i < 257" "prefix (p @ [b]) (code_bits i)"
  shows "\<exists>k'. child b (huff_tree ! k) = int k' \<and> walk huff_tree 0 (p @ [b]) = Some k'"
proof -
  obtain k' where k': "walk huff_tree 0 (p @ [b]) = Some k'" using walk_code assms(2,3) by blast
  then have c: "child b (huff_tree ! k) \<noteq> -1" "k' = nat (child b (huff_tree ! k))"
    using assms(1) by (auto simp: walk_append split: if_splits)
  have "k < length huff_tree" using walk_root [OF huff_tree_facts(1,1) assms(1)] by simp
  then show ?thesis using tree_wf_child [OF huff_tree_facts(1) _ c(1)] c(2) k' by auto
qed

lemma huff_decode_pending:
  "walk huff_tree 0 p = Some k \<Longrightarrow> i < 257 \<Longrightarrow> strict_prefix (p @ bs) (code_bits i) \<Longrightarrow>
   huff_decode huff_tree (int k) bs out = Inr out"
proof (induction bs arbitrary: p k)
  case (Cons b bs)
  have pre: "strict_prefix (p @ [b]) (code_bits i)"
    using Cons.prems(3) by (metis append.assoc append_Cons append_Nil prefixI prefix_order.le_less_trans)
  have no: "p @ [b] \<noteq> code_bits j" if "j < 257" for j
    using code_prefix_free [OF that Cons.prems(2)] pre by (auto simp: strict_prefix_def)
  obtain k' where k': "child b (huff_tree ! k) = int k'" "walk huff_tree 0 (p @ [b]) = Some k'"
    using walk_next [OF Cons.prems(1,2)] pre by (auto simp: strict_prefix_def)
  have "huff_decode huff_tree (int k) (b # bs) out = huff_decode huff_tree (int k') bs out"
  proof -
    have "is_pre (p @ [b])" using Cons.prems(2) pre by (auto simp: strict_prefix_def is_pre_def)
    moreover have "\<not> is_sym (p @ [b])" "\<not> is_eos (p @ [b])" using no any_code by blast+
    ultimately show ?thesis using k'(1) by (simp add: huff_decode_step [OF Cons.prems(1)])
  qed
  with Cons.IH [OF k'(2) Cons.prems(2)] Cons.prems(3) show ?case by simp
qed simp

lemma huff_decode_symbol:
  "walk huff_tree 0 p = Some k \<Longrightarrow> p @ bs = code_bits (ord_c c) \<Longrightarrow> bs \<noteq> [] \<Longrightarrow>
   huff_decode huff_tree (int k) (bs @ rest) out = huff_decode huff_tree 0 rest (out @ [c])"
proof (induction bs arbitrary: p k)
  case (Cons b bs)
  let ?i = "ord_c c"
  have pre: "prefix (p @ [b]) (code_bits ?i)" using Cons.prems(2) by (metis append.assoc append_Cons append_Nil prefixI)
  have only: "p @ [b] = code_bits j \<longleftrightarrow> bs = [] \<and> j = ?i" if "j < 257" for j
  proof
    assume a: "p @ [b] = code_bits j"
    with pre have "j = ?i" using code_prefix_free [OF that ord_c_lt(1)] by simp
    with a Cons.prems(2) show "bs = [] \<and> j = ?i" by (metis append.assoc append_Cons append_Nil append_self_conv)
  qed (use Cons.prems(2) in simp)
  obtain k' where k': "child b (huff_tree ! k) = int k'" "walk huff_tree 0 (p @ [b]) = Some k'"
    using walk_next [OF Cons.prems(1) ord_c_lt(1) pre] by blast
  show ?case
  proof (cases "bs = []")
    case True
    with Cons.prems(2) have "label huff_tree (p @ [b]) = int ?i"
      using huff_tree_facts(3) [OF ord_c_lt(1)] by simp
    moreover have "char_of ?i = c" by (simp add: ord_c_def)
    moreover have "is_pre (p @ [b])" using pre ord_c_lt unfolding is_pre_def by blast
    moreover have "is_sym (p @ [b])" using True Cons.prems(2) ord_c_less unfolding is_sym_def by blast
    moreover have "\<not> is_eos (p @ [b])" using only [of 256] ord_c_lt(2) [of c] by (simp add: is_eos_def)
    ultimately show ?thesis using True by (simp add: huff_decode_step [OF Cons.prems(1)])
  next
    case False
    then have "huff_decode huff_tree (int k) ((b # bs) @ rest) out = huff_decode huff_tree (int k') (bs @ rest) out"
    proof -
      have "is_pre (p @ [b])" using pre ord_c_lt unfolding is_pre_def by blast
      moreover have "\<not> is_sym (p @ [b])" "\<not> is_eos (p @ [b])" using False only any_code by blast+
      ultimately show ?thesis using k'(1) by (simp add: huff_decode_step [OF Cons.prems(1)])
    qed
    with Cons.IH [OF k'(2) _ False] Cons.prems(2) show ?thesis by simp
  qed
qed simp

lemma huff_decode_codes:
  "huff_decode huff_tree 0 (codes s @ rest) out = huff_decode huff_tree 0 rest (out @ s)"
proof (induction s arbitrary: out)
  case (Cons c s)
  have "huff_decode huff_tree (int 0) (code_bits (ord_c c) @ codes s @ rest) out =
      huff_decode huff_tree 0 (codes s @ rest) (out @ [c])"
    by (rule huff_decode_symbol [of "[]"]) (simp_all add: code_bits_nonempty [OF ord_c_lt(1)])
  with Cons show ?case by simp
qed simp

lemma huff_decode_sound:
  assumes "walk huff_tree 0 p = Some k" "i < 257" "strict_prefix p (code_bits i)"
    and "huff_decode huff_tree (int k) bs out = Inr s"
  shows "\<exists>t r j. s = out @ t \<and> p @ bs = codes t @ r \<and> j < 257 \<and> strict_prefix r (code_bits j)"
  using assms
proof (induction bs arbitrary: p k i out)
  case Nil
  then have "s = out @ [] \<and> p @ [] = codes [] @ p \<and> i < 257 \<and> strict_prefix p (code_bits i)" by simp
  then show ?case by blast
next
  case (Cons b bs)
  note d = Cons.prems(4) [unfolded huff_decode_step [OF Cons.prems(1)]]
  obtain j where j: "j < 257" "prefix (p @ [b]) (code_bits j)" using d
    by (auto simp: is_pre_def split: if_splits)
  show ?case
  proof (cases "is_sym (p @ [b])")
    case True
    then obtain c where c: "c < 256" "p @ [b] = code_bits c" unfolding is_sym_def by blast
    have cc: "ord_c (char_of c) = c" using c(1) by (simp add: ord_c_char_of)
    have "label huff_tree (p @ [b]) = int c" using huff_tree_facts(3) [of c] c by simp
    then have e: "huff_decode huff_tree (int 0) bs (out @ [char_of c]) = Inr s"
      using d True by (simp split: if_splits)
    have "walk huff_tree 0 [] = Some 0" "strict_prefix [] (code_bits 0)"
      using code_bits_nonempty [of 0] by (auto simp: strict_prefix_def)
    from Cons.IH [OF this(1) _ this(2) e] obtain t r j where
      "s = (out @ [char_of c]) @ t" "bs = codes t @ r" "j < 257" "strict_prefix r (code_bits j)" by auto
    then have "s = out @ (char_of c # t) \<and> p @ b # bs = codes (char_of c # t) @ r \<and> j < 257 \<and>
        strict_prefix r (code_bits j)" using c(2) cc by simp
    then show ?thesis by blast
  next
    case False
    moreover have "\<not> is_eos (p @ [b])" using d by (auto split: if_splits)
    ultimately have ne: "p @ [b] \<noteq> code_bits j" using j(1) any_code by blast
    then have sp: "strict_prefix (p @ [b]) (code_bits j)" using j(2) by (simp add: strict_prefix_def)
    obtain k' where k': "child b (huff_tree ! k) = int k'" "walk huff_tree 0 (p @ [b]) = Some k'"
      using walk_next [OF Cons.prems(1) j] by blast
    have "huff_decode huff_tree (int k') bs out = Inr s"
      using d False k'(1) by (simp split: if_splits)
    from Cons.IH [OF k'(2) j(1) sp this] show ?thesis by simp
  qed
qed

lemma huff_decode_iff:
  "huff_decode huff_tree 0 bs [] = Inr s \<longleftrightarrow> (\<exists>r i. bs = codes s @ r \<and> i < 257 \<and> strict_prefix r (code_bits i))"
proof
  assume d: "huff_decode huff_tree 0 bs [] = Inr s"
  have "walk huff_tree 0 [] = Some 0" "strict_prefix [] (code_bits 0)"
    using code_bits_nonempty [of 0] by (auto simp: strict_prefix_def)
  from huff_decode_sound [OF this(1) _ this(2), of bs "[]" s] d
  show "\<exists>r i. bs = codes s @ r \<and> i < 257 \<and> strict_prefix r (code_bits i)" by auto
next
  assume "\<exists>r i. bs = codes s @ r \<and> i < 257 \<and> strict_prefix r (code_bits i)"
  then obtain r i where r: "bs = codes s @ r" "i < 257" "strict_prefix r (code_bits i)" by blast
  have "huff_decode huff_tree (int 0) r s = Inr s"
    by (rule huff_decode_pending [of "[]"]) (use r in auto)
  with r(1) show "huff_decode huff_tree 0 bs [] = Inr s" by (simp add: huff_decode_codes)
qed

section \<open>The bit buffer\<close>

lemma nth_low_bits: "i < n \<Longrightarrow> low_bits n w ! i = bit w (n - 1 - i)"
  by (simp add: low_bits_def rev_nth)

lemma low_bits_append: "low_bits (m + n) w = low_bits m (drop_bit n w) @ low_bits n w"
proof (rule nth_equalityI)
  fix i assume i: "i < length (low_bits (m + n) w)"
  show "low_bits (m + n) w ! i = (low_bits m (drop_bit n w) @ low_bits n w) ! i"
  proof (cases "i < m")
    case True
    then have "n + (m - 1 - i) = m + n - 1 - i" by simp
    with True i show ?thesis by (simp add: nth_append nth_low_bits bit_drop_bit_eq)
  next
    case False
    then have "n - 1 - (i - m) = m + n - 1 - i" by simp
    with False i show ?thesis by (simp add: nth_append nth_low_bits)
  qed
qed simp

lemma low_bits_eqI: "(\<And>i. i < n \<Longrightarrow> bit v i = bit w i) \<Longrightarrow> low_bits n v = low_bits n w"
  by (simp add: low_bits_def)

lemma sym_code_high: "i < 257 \<Longrightarrow> sym_nbits i \<le> k \<Longrightarrow> \<not> bit (sym_code i) k"
  using sym_nbits_bounds [of i]
  by (auto simp: sym_code_def bit_drop_bit_eq dest: bit_imp_le_length)

text \<open>Shifting a code into the bit buffer appends its bits to the pending ones.\<close>

lemma low_bits_push:
  assumes "i < 257" "len \<le> 8"
  shows "low_bits (len + sym_nbits i) (push_bit (sym_nbits i) (w :: u64) OR ucast (sym_code i)) =
    low_bits len w @ code_bits i"
proof -
  note nb = sym_nbits_bounds [OF assms(1)]
  have "low_bits len (drop_bit (sym_nbits i) (push_bit (sym_nbits i) w OR ucast (sym_code i))) = low_bits len w"
    using assms nb sym_code_high [OF assms(1)]
    by (intro low_bits_eqI) (auto simp: bit_drop_bit_eq bit_simps)
  moreover have "low_bits (sym_nbits i) (push_bit (sym_nbits i) w OR ucast (sym_code i)) = code_bits i"
    using nb by (auto simp: low_bits_def code_bits_def bit_simps)
  ultimately show ?thesis by (simp add: low_bits_append)
qed

lemma bits_of_bytes_simps [simp]:
  "bits_of_bytes [] = []" "bits_of_bytes (x @ y) = bits_of_bytes x @ bits_of_bytes y"
  "bits_of_bytes [b] = low_bits 8 b"
  by (simp_all add: bits_of_bytes_def)

lemma length_bits_of_bytes [simp]: "length (bits_of_bytes bs) = 8 * length bs"
  by (induction bs) (simp_all add: bits_of_bytes_def)

lemma low_bits_byte: "low_bits 8 (ucast ((x :: u64) AND 0xff) :: 8 word) = low_bits 8 x"
proof (rule low_bits_eqI)
  fix i :: nat assume i: "i < 8"
  have m: "(0xff :: u64) = mask 8" by (simp add: mask_eq_exp_minus_1)
  show "bit (ucast (x AND 0xff) :: 8 word) i = bit x i" unfolding m using i by (simp add: bit_simps)
qed

lemma huff_drain_bits:
  "huff_drain w len enc = (len', enc') \<Longrightarrow>
   len' < 8 \<and> bits_of_bytes enc' @ low_bits len' w = bits_of_bytes enc @ low_bits len w"
proof (induction w len enc rule: huff_drain.induct)
  case (1 w len enc)
  show ?case
  proof (cases "8 \<le> len")
    case True
    then have "huff_drain w (len - 8) (enc @ [ucast (drop_bit (len - 8) w AND 0xff)]) = (len', enc')"
      using "1.prems" by (subst (asm) huff_drain.simps) simp
    with "1.IH" True have "len' < 8" "bits_of_bytes enc' @ low_bits len' w =
        bits_of_bytes enc @ low_bits 8 (drop_bit (len - 8) w) @ low_bits (len - 8) w"
      by (simp_all add: low_bits_byte)
    then show ?thesis using low_bits_append [of 8 "len - 8" w] True by simp
  next
    case False
    with "1.prems" show ?thesis by (subst (asm) huff_drain.simps) simp
  qed
qed

lemma huff_fold_bits:
  assumes "fold huff_step s (w, len, enc) = (w', len', enc')" "len < 8"
  shows "len' < 8 \<and> bits_of_bytes enc' @ low_bits len' w' = bits_of_bytes enc @ low_bits len w @ codes s"
  using assms
proof (induction s arbitrary: w len enc)
  case (Cons c s)
  let ?i = "ord_c c"
  let ?w = "push_bit (sym_nbits ?i) w OR ucast (sym_code ?i)"
  obtain l e where d: "huff_drain ?w (len + sym_nbits ?i) enc = (l, e)"
    by (cases "huff_drain ?w (len + sym_nbits ?i) enc")
  then have f: "fold huff_step s (?w, l, e) = (w', len', enc')"
    using Cons.prems(1) by (simp add: huff_step_def [of c] Let_def)
  note b = huff_drain_bits [OF d]
  have "low_bits (len + sym_nbits ?i) ?w = low_bits len w @ code_bits ?i"
    using Cons.prems(2) by (intro low_bits_push ord_c_lt(1)) simp
  then have "(bits_of_bytes e @ low_bits l ?w) @ codes s = bits_of_bytes enc @ low_bits len w @ codes (c # s)"
    unfolding conjunct2 [OF b] by simp
  moreover have "len' < 8 \<and> bits_of_bytes enc' @ low_bits len' w' = bits_of_bytes e @ low_bits l ?w @ codes s"
    using Cons.IH [OF f] b by blast
  ultimately show ?case by (metis append_assoc)
qed simp

lemma code_bits_eos: "code_bits 256 = replicate 30 True"
  by code_simp

lemma low_bits_pad:
  assumes "len < 8"
  shows "low_bits 8 (ucast ((push_bit (8 - len) (w :: u64) OR (push_bit (8 - len) 1 - 1)) AND 0xff) :: 8 word) =
    low_bits len w @ replicate (8 - len) True"
proof -
  let ?n = "8 - len"
  let ?x = "push_bit ?n w OR (push_bit ?n 1 - 1)"
  have m: "(push_bit ?n 1 - 1 :: u64) = mask ?n" by (simp add: mask_eq_exp_minus_1 push_bit_of_1)
  have "low_bits len (drop_bit ?n ?x) = low_bits len w"
    unfolding m using assms by (intro low_bits_eqI) (auto simp: bit_simps)
  moreover have "low_bits ?n ?x = replicate ?n True"
    unfolding m using assms by (intro nth_equalityI) (auto simp: nth_low_bits bit_simps)
  ultimately show ?thesis
    unfolding low_bits_byte using low_bits_append [of len ?n ?x] assms by simp
qed

lemma huff_encode_bits:
  "\<exists>k<8. bits_of_bytes (huff_encode s) = codes s @ replicate k True"
proof -
  obtain w len enc where f: "fold huff_step s (0, 0, []) = (w, len, enc)"
    by (cases "fold huff_step s (0, 0, [])")
  from huff_fold_bits [OF f] have l: "len < 8" and c: "bits_of_bytes enc @ low_bits len w = codes s"
    by (simp_all add: low_bits_def)
  show ?thesis
  proof (cases "len > 0")
    case True
    then have "huff_encode s =
        enc @ [ucast ((push_bit (8 - len) w OR (push_bit (8 - len) 1 - 1)) AND 0xff)]"
      by (simp add: huff_encode_def f)
    then have "bits_of_bytes (huff_encode s) = codes s @ replicate (8 - len) True"
      using c by (simp only: bits_of_bytes_simps low_bits_pad [OF l]) simp
    with True show ?thesis by (intro exI [of _ "8 - len"]) simp
  next
    case False
    then have "bits_of_bytes (huff_encode s) = codes s @ replicate 0 True"
      using c by (simp add: huff_encode_def f low_bits_def)
    then show ?thesis by (intro exI [of _ 0]) simp
  qed
qed

lemma length_codes: "length (codes s) = huffman_len s"
  by (induction s) (simp_all add: huffman_len_def code_bits_def)

lemma huff_encode_length: "length (huff_encode s) = (huffman_len s + 7) div 8"
proof -
  obtain k where k: "k < 8" "bits_of_bytes (huff_encode s) = codes s @ replicate k True"
    using huff_encode_bits by blast
  from arg_cong [OF k(2), of length] have "8 * length (huff_encode s) = huffman_len s + k"
    by (simp add: length_codes)
  with k(1) show ?thesis by simp
qed

lemma huff_decode_encode: "huff_decode huff_tree 0 (bits_of_bytes (huff_encode s)) [] = Inr s"
proof -
  obtain k where k: "k < 8" "bits_of_bytes (huff_encode s) = codes s @ replicate k True"
    using huff_encode_bits by blast
  have "code_bits 256 = replicate k True @ replicate (30 - k) True"
    using k(1) by (simp add: code_bits_eos flip: replicate_add)
  then have "strict_prefix (replicate k True) (code_bits 256)"
    using k(1) by (auto simp: strict_prefix_def prefix_def)
  then show ?thesis unfolding huff_decode_iff using k(2) by (metis lessI numeral_eq_Suc pred_numeral_simps(3))
qed

section \<open>Properties\<close>

text \<open>C18. Huffman round trip: for every string, the bytes of the bit-buffer encoder, decoded with
  the index-linked tree, give the string back, and the number of bytes is the length that
  encode_string announces before it encodes.\<close>

theorem huffman_round_trip:
  "huff_decode huff_tree 0 (bits_of_bytes (huff_encode s)) [] = Inr s \<and>
   length (huff_encode s) = (huffman_len s + 7) div 8"
  by (simp add: huff_decode_encode huff_encode_length)

text \<open>C29. What the Huffman decoder accepts: a bit string decodes to s exactly when it is the
  concatenation of the codes of s followed by an incomplete code.  In particular the decoding is
  unambiguous, the end-of-string symbol never decodes, and the padding is not checked: any
  incomplete code is accepted, of any length and with any bits, where RFC 7541 asks for fewer
  than eight one bits.\<close>

theorem huffman_decode_exact:
  "huff_decode huff_tree 0 bs [] = Inr s \<longleftrightarrow>
     (\<exists>r i. bs = codes s @ r \<and> i < 257 \<and> strict_prefix r (code_bits i))"
  by (rule huff_decode_iff)

end
