(* ===== verification/Hpack_Properties.thy ===== *)
theory Hpack_Properties
  imports Hpack Huffman_Properties
begin

text \<open>
  Correctness of HPACK: integers, strings and header blocks are read back as they were written,
  encoder and decoder tables stay equal, and the decoder's table is well formed and bounded
  whatever bytes arrive; also where the decoder departs from RFC 7541.
\<close>

section \<open>Integers\<close>

fun var_bytes :: "nat \<Rightarrow> bytes" where
  "var_bytes n = (if n \<ge> 128 then word_of_nat (n mod 128 + 128) # var_bytes (n div 128) else [word_of_nat n])"

declare var_bytes.simps [simp del]

lemma ucast_of_nat_byte: "unat (v :: u64) = n \<Longrightarrow> (ucast v :: 8 word) = word_of_nat n"
  by auto

lemma emits_encode_int_tail: "rbq.emits (encode_int_tail v) (var_bytes (unat v))"
proof (induction "unat v" arbitrary: v rule: less_induct)
  case less
  show ?case
  proof (cases "128 \<le> v")
    case True
    have u: "unat (v div 128) = unat v div 128" by (simp add: unat_div)
    have "unat (v mod 128 + 128) = unat v mod 128 + 128"
      by (subst unat_add_lem [THEN iffD1]) (simp_all add: unat_mod)
    then have b: "(ucast (v mod 128 + 128) :: 8 word) = word_of_nat (unat v mod 128 + 128)"
      by (rule ucast_of_nat_byte)
    have "encode_int_tail v = (\<lambda>out. try_then (append_rb [word_of_nat (unat v mod 128 + 128)] out)
        (\<lambda>_. encode_int_tail (v div 128)))"
      using True by (simp add: encode_int_tail.simps [of v] b fun_eq_iff)
    moreover have "var_bytes (unat v) = [word_of_nat (unat v mod 128 + 128)] @ var_bytes (unat (v div 128))"
      using True by (subst var_bytes.simps) (simp add: u word_le_nat_alt)
    ultimately show ?thesis
      using rbq.emits_seq [OF rbq.emits_push less(1) [OF unat_div_128 [OF True]]] by metis
  next
    case False
    then have "encode_int_tail v = append_rb [word_of_nat (unat v)]" "var_bytes (unat v) = [word_of_nat (unat v)]"
      by (auto simp: encode_int_tail.simps [of v] fun_eq_iff var_bytes.simps [of "unat v"] word_le_nat_alt)
    then show ?thesis using rbq.emits_push by metis
  qed
qed

lemma byte_low: "(word_of_nat n :: 8 word) AND 0x7F = word_of_nat (n mod 128)"
proof -
  have m: "(0x7F :: 8 word) = mask 7" by (simp add: mask_eq_exp_minus_1)
  show ?thesis unfolding m by (rule bit_word_eqI) (auto simp: bit_simps simp flip: take_bit_eq_mod [of 7, simplified])
qed

lemma byte_high: "(word_of_nat n :: 8 word) AND 0x80 = 0 \<longleftrightarrow> even (n div 128)"
proof -
  have "bit (word_of_nat n :: 8 word) 7 \<longleftrightarrow> bit n 7" by (simp add: bit_simps)
  moreover have "bit n 7 \<longleftrightarrow> odd (n div 128)" by (simp add: bit_iff_odd)
  ultimately show ?thesis using and_exp_eq_0_iff_not_bit [of "word_of_nat n :: 8 word" 7] by simp
qed

lemma ucast_small: "n < 256 \<Longrightarrow> (ucast (word_of_nat n :: 8 word) :: u64) = word_of_nat n"
  by (rule unsigned_word_eqI) (simp add: unsigned_ucast_eq unsigned_of_nat take_bit_nat_eq_self)

lemma decode_int_tail_var_bytes:
  assumes "k \<le> 8"
  shows "decode_int_tail (var_bytes n @ rest) v (7 * k) =
    (if n < 2 ^ (63 - 7 * k) then Inr (v + word_of_nat (n * 2 ^ (7 * k)), rest)
     else Inl (from_code HpackError ''HPACK integer overflow''))"
  using assms
proof (induction n arbitrary: k v rule: var_bytes.induct)
  case (1 n)
  have e: "(2 :: nat) ^ (63 - 7 * k) = (if k = 8 then 128 else 2 ^ (63 - 7 * (k + 1)) * 128)"
  proof (cases "k = 8")
    case False
    with "1.prems" have "63 - 7 * k = 63 - 7 * (k + 1) + 7" by simp
    then show ?thesis using False by (simp only: power_add) simp
  qed simp
  show ?case
  proof (cases "128 \<le> n")
    case True
    have "(n mod 128 + 128) div 128 = 1" by simp
    then have b: "(word_of_nat (n mod 128 + 128) :: 8 word) AND 0x7F = word_of_nat (n mod 128)"
      "(word_of_nat (n mod 128 + 128) :: 8 word) AND 0x80 \<noteq> 0"
      unfolding byte_low byte_high by auto
    have d: "decode_int_tail (var_bytes n @ rest) v (7 * k) =
        (if k = 8 then Inl (from_code HpackError ''HPACK integer overflow'')
         else decode_int_tail (var_bytes (n div 128) @ rest) (v + word_of_nat (n mod 128 * 2 ^ (7 * k))) (7 * (k + 1)))"
      using True b "1.prems"
      by (simp add: var_bytes.simps [of n] Let_def ucast_small push_bit_eq_mult add.commute [of 7])
    show ?thesis
    proof (cases "k = 8")
      case True
      with d \<open>128 \<le> n\<close> show ?thesis by simp
    next
      case False
      have lt: "n div 128 < 2 ^ (63 - 7 * (k + 1)) \<longleftrightarrow> n < 2 ^ (63 - 7 * k)"
        using e False by (simp add: div_less_iff_less_mult)
      have "n mod 128 * 2 ^ (7 * k) + n div 128 * 2 ^ (7 * (k + 1)) = (n div 128 * 128 + n mod 128) * 2 ^ (7 * k)"
        by (simp only: add_mult_distrib add.commute [of "n mod 128 * _"] mult.assoc) (simp add: power_add)
      also have "\<dots> = n * 2 ^ (7 * k)" by (simp only: div_mult_mod_eq)
      finally have "v + word_of_nat (n mod 128 * 2 ^ (7 * k)) + word_of_nat (n div 128 * 2 ^ (7 * (k + 1))) =
          v + (word_of_nat (n * 2 ^ (7 * k)) :: u64)"
        by (simp only: add.assoc of_nat_add [symmetric])
      then show ?thesis
        using "1.IH" [OF True, of "k + 1"] False "1.prems" lt by (simp add: d)
    qed
  next
    case False
    have b: "(word_of_nat n :: 8 word) AND 0x7F = word_of_nat n" "(word_of_nat n :: 8 word) AND 0x80 = 0"
      unfolding byte_low byte_high using False by auto
    have "(2 :: nat) ^ 7 \<le> 2 ^ (63 - 7 * k)" by (rule power_increasing) (use "1.prems" in simp_all)
    then have "n < 2 ^ (63 - 7 * k)" using False by simp
    with False b "1.prems" show ?thesis
      by (simp add: var_bytes.simps [of n] Let_def ucast_small push_bit_eq_mult)
  qed
qed

definition int_bytes :: "u64 \<Rightarrow> nat \<Rightarrow> 8 word \<Rightarrow> bytes" where
  "int_bytes v p pre =
     (if v < mask p then [pre OR ucast v] else (pre OR ucast (mask p :: u64)) # var_bytes (unat (v - mask p)))"

lemma max_prefix: "(push_bit p 1 - 1 :: u64) = mask p"
  by (simp add: mask_eq_exp_minus_1 push_bit_of_1)

lemma emits_encode_int: "rbq.emits (encode_int v p pre) (int_bytes v p pre)"
proof (cases "v < mask p")
  case True
  then have "encode_int v p pre = append_rb [pre OR ucast v]"
    unfolding encode_int_def max_prefix Let_def by simp
  with True show ?thesis using rbq.emits_push by (simp add: int_bytes_def)
next
  case False
  then have "encode_int v p pre = (\<lambda>out. try_then (append_rb [pre OR ucast (mask p :: u64)] out)
      (\<lambda>_. encode_int_tail (v - mask p)))"
    unfolding encode_int_def max_prefix Let_def by simp
  with False show ?thesis
    using rbq.emits_seq [OF rbq.emits_push emits_encode_int_tail, of "[pre OR ucast (mask p :: u64)]" "v - mask p"]
    by (simp add: int_bytes_def)
qed

lemma first_byte:
  assumes "p \<le> 8" "pre AND mask p = 0" "take_bit p (x :: u64) = x"
  shows "ucast (pre OR ucast x :: 8 word) AND mask p = x"
proof (rule bit_word_eqI)
  fix i :: nat assume "i < LENGTH(64)"
  have 1: "bit x i \<Longrightarrow> i < p" using assms(3) by (metis bit_take_bit_iff)
  have "\<not> bit (pre AND mask p) i" using assms(2) by simp
  then have 2: "i < p \<Longrightarrow> \<not> bit pre i" using assms(1) by (auto simp: bit_simps)
  show "bit (ucast (pre OR ucast x) AND mask p :: u64) i = bit x i"
    using 1 2 assms(1) \<open>i < LENGTH(64)\<close> by (auto simp: bit_simps)
qed

lemma unat_mask: "p \<le> 8 \<Longrightarrow> unat (mask p :: u64) = 2 ^ p - 1"
proof -
  assume "p \<le> 8"
  then have "uint (mask p :: u64) = mask p" by (simp add: uint_mask_eq min_def)
  then have "uint (mask p :: u64) = 2 ^ p - 1" by (simp only: mask_eq_exp_minus_1 [where 'a = int])
  then show ?thesis by (simp add: unat_eq_nat_uint nat_diff_distrib nat_power_eq)
qed

lemma take_bit_small: "unat (v :: u64) < 2 ^ p \<Longrightarrow> take_bit p v = v"
proof -
  assume "unat v < 2 ^ p"
  then have "unat (take_bit p v) = unat v" by (simp add: unsigned_take_bit_eq take_bit_nat_eq_self)
  then show ?thesis by (rule unsigned_word_eqI)
qed

lemma decode_int_bytes:
  assumes "1 \<le> p" "p \<le> 8" "pre AND mask p = 0"
  shows "decode_int (int_bytes v p pre @ rest) p =
    (if v = 0 \<and> p = 7 then Inl (from_code HpackError ''invalid index 0'')
     else if unat v < 2 ^ p - 1 + 2 ^ 63 then Inr (v, rest)
     else Inl (from_code HpackError ''HPACK integer overflow''))"
proof (cases "v < mask p")
  case True
  then have "unat v < 2 ^ p - 1" using unat_mask [OF assms(2)] by (simp add: word_less_nat_alt)
  then have v: "unat v < 2 ^ p" "unat v < 2 ^ p - 1 + 2 ^ 63" by auto
  have "ucast (pre OR ucast v :: 8 word) AND mask p = v"
    using assms(2,3) take_bit_small [OF v(1)] by (rule first_byte)
  with True assms v(2) show ?thesis
    unfolding decode_int_def max_prefix Let_def int_bytes_def by simp
next
  case False
  have m: "take_bit p (mask p :: u64) = mask p" by simp
  have f: "ucast (pre OR ucast (mask p :: u64) :: 8 word) AND mask p = (mask p :: u64)"
    using assms(2,3) m by (rule first_byte)
  have le: "mask p \<le> v" using False by simp
  then have u: "unat (v - mask p) = unat v - (2 ^ p - 1)" "2 ^ p - 1 \<le> unat v"
    using unat_mask [OF assms(2)] by (simp_all add: unat_sub word_le_nat_alt)
  have "(2 :: nat) ^ 1 \<le> 2 ^ p" by (rule power_increasing) (use assms in simp_all)
  then have "v \<noteq> 0" using u(2) by auto
  moreover have "decode_int (int_bytes v p pre @ rest) p =
      decode_int_tail (var_bytes (unat (v - mask p)) @ rest) (mask p) (7 * 0)"
    using False assms(1,2) f unfolding decode_int_def max_prefix Let_def int_bytes_def by simp
  moreover have "mask p + word_of_nat (unat (v - mask p) * 2 ^ (7 * 0)) = v" by simp
  moreover have "unat (v - mask p) < 2 ^ (63 - 7 * 0) \<longleftrightarrow> unat v < 2 ^ p - 1 + 2 ^ 63" using u by auto
  moreover note decode_int_tail_var_bytes [of 0 "unat (v - mask p)" rest "mask p"]
  ultimately show ?thesis by simp
qed

section \<open>Strings\<close>

definition string_len :: "string \<Rightarrow> nat" where
  "string_len s = (let hb = (huffman_len s + 7) div 8 in if hb < length s then hb else length s)"

lemma string_len_le: "string_len s \<le> length s"
  by (simp add: string_len_def Let_def)

definition string_bytes :: "string \<Rightarrow> bytes" where
  "string_bytes s =
     (if (huffman_len s + 7) div 8 < length s
      then int_bytes (word_of_nat (string_len s)) 7 0x80 @ huff_encode s
      else int_bytes (word_of_nat (string_len s)) 7 0x00 @ bytes_of_string s)"

lemma emits_encode_string: "rbq.emits (encode_string s) (string_bytes s)"
proof (cases "(huffman_len s + 7) div 8 < length s")
  case True
  then show ?thesis
    using rbq.emits_seq [OF emits_encode_int rbq.emits_push]
    by (simp add: encode_string_def [abs_def] string_bytes_def string_len_def Let_def)
next
  case False
  then show ?thesis
    using rbq.emits_seq [OF emits_encode_int emits_append_str]
    by (simp add: encode_string_def [abs_def] string_bytes_def string_len_def Let_def)
qed

lemma high_bit: "(b :: 8 word) AND 0x80 = 0 \<longleftrightarrow> \<not> bit b 7"
  using and_exp_eq_0_iff_not_bit [of b 7] by simp

lemma int_bytes_hd: "bit (hd (int_bytes v 7 pre @ rest)) 7 \<longleftrightarrow> bit pre 7"
proof (cases "v < mask 7")
  case True
  then have "unat v < 2 ^ 7" using unat_mask [of 7] by (simp add: word_less_nat_alt)
  then have "take_bit 7 v = v" by (rule take_bit_small)
  then have "\<not> bit v 7" by (metis bit_take_bit_iff order_less_irrefl)
  then show ?thesis using True by (simp add: int_bytes_def bit_simps)
next
  case False
  then show ?thesis by (simp add: int_bytes_def bit_or_iff bit_unsigned_iff) (simp add: bit_mask_iff flip: mask_eq_exp_minus_1)
qed

lemma int_bytes_ne: "int_bytes v p pre \<noteq> []"
  by (simp add: int_bytes_def)

lemma huffman_len_pos: "s \<noteq> [] \<Longrightarrow> 0 < huffman_len s"
  using sym_nbits_bounds [OF ord_c_lt(1)] by (cases s) (auto simp: huffman_len_def Suc_le_eq intro: add_pos_nonneg)

lemma word_of_nat_len: "n \<le> 65535 \<Longrightarrow> unat (word_of_nat n :: u64) = n"
  by (simp add: unat_of_nat)

lemma decode_string_bytes:
  assumes "s \<noteq> []" "string_len s \<le> 65535"
  shows "decode_string (string_bytes s @ rest) = Inr (s, rest)"
proof -
  let ?n = "string_len s"
  have n: "unat (word_of_nat ?n :: u64) = ?n" using assms(2) by (rule word_of_nat_len)
  have pos: "0 < ?n" using assms(1) huffman_len_pos [OF assms(1)]
    by (auto simp: string_len_def Let_def div_greater_zero_iff)
  then have nz: "(word_of_nat ?n :: u64) \<noteq> 0" using n by auto
  have le: "\<not> 65535 < (word_of_nat ?n :: u64)" using n assms(2) by (simp add: word_less_nat_alt)
  have d: "decode_int (int_bytes (word_of_nat ?n) 7 pre @ xs) 7 = Inr (word_of_nat ?n, xs)"
    if "pre AND mask 7 = 0" for pre xs
    using decode_int_bytes [of 7 pre "word_of_nat ?n" xs] that nz n assms(2) by simp
  have m: "(0x80 :: 8 word) AND mask 7 = 0" "(0 :: 8 word) AND mask 7 = 0"
    by (simp_all add: mask_eq_exp_minus_1)
  show ?thesis
  proof (cases "(huffman_len s + 7) div 8 < length s")
    case True
    let ?data = "int_bytes (word_of_nat ?n) 7 0x80 @ huff_encode s @ rest"
    have b: "hd ?data AND 0x80 \<noteq> 0" unfolding high_bit int_bytes_hd by (simp add: bit_simps)
    have l: "length (huff_encode s) = ?n" using True by (simp add: huff_encode_length string_len_def)
    have "decode_string ?data = Inr (s, rest)"
      unfolding decode_string_def Let_def d [OF m(1)]
      using b le n l int_bytes_ne by (simp add: huff_decode_encode)
    with True show ?thesis by (simp add: string_bytes_def)
  next
    case False
    let ?data = "int_bytes (word_of_nat ?n) 7 0 @ bytes_of_string s @ rest"
    have b: "hd ?data AND 0x80 = 0" unfolding high_bit int_bytes_hd by simp
    have l: "length s = ?n" using False by (simp add: string_len_def)
    have "decode_string ?data = Inr (s, rest)"
      unfolding decode_string_def Let_def d [OF m(2)]
      using b le n l int_bytes_ne by simp
    with False show ?thesis by (simp add: string_bytes_def)
  qed
qed

lemma decode_string_empty:
  "decode_string (string_bytes [] @ rest) = Inl (from_code HpackError ''invalid index 0'')"
proof -
  have "decode_int (int_bytes 0 7 0 @ rest) 7 = Inl (from_code HpackError ''invalid index 0'')"
    using decode_int_bytes [of 7 0 0 rest] by simp
  then show ?thesis
    by (simp add: string_bytes_def string_len_def huffman_len_def decode_string_def int_bytes_ne)
qed

section \<open>Header blocks\<close>

definition header_ok :: "HpackHeader \<Rightarrow> bool" where
  "header_ok h \<longleftrightarrow> hp_name h \<noteq> [] \<and> hp_value h \<noteq> [] \<and> \<not> has_uppercase (hp_name h) \<and>
     string_len (hp_name h) \<le> 65535 \<and> string_len (hp_value h) \<le> 65535"

definition received :: "HpackHeader \<Rightarrow> HpackHeader" where
  "received h = h\<lparr>hp_sensitive := is_sensitive h\<rparr>"

definition literal_bytes :: "HpackHeader \<Rightarrow> bytes" where
  "literal_bytes h =
     (if is_sensitive h then 0x10 else 0x40) # string_bytes (hp_name h) @ string_bytes (hp_value h)"

lemma int_bytes_zero: "1 \<le> p \<Longrightarrow> int_bytes 0 p pre = [pre]"
  by (simp add: int_bytes_def word_neq_0_conv [symmetric])

lemma emits_encode_literal: "rbq.emits (encode_literal h) (literal_bytes h)"
proof -
  let ?p = "if is_sensitive h then 4 else 6 :: nat" and ?b = "if is_sensitive h then 0x10 else 0x40 :: 8 word"
  have "literal_bytes h = int_bytes 0 ?p ?b @ string_bytes (hp_name h) @ string_bytes (hp_value h)"
    by (simp add: literal_bytes_def int_bytes_zero)
  then show ?thesis
    using rbq.emits_seq [OF emits_encode_int rbq.emits_seq [OF emits_encode_string emits_encode_string],
        of 0 ?p ?b "hp_name h" "hp_value h"]
    by (simp only: encode_literal_def [abs_def])
qed

lemma decode_step_literal:
  assumes "header_ok h"
  shows "decode_step t (literal_bytes h @ rest) =
    Inr (rest, if is_sensitive h then t else add_to_dynamic (received h) t, Some (received h))"
proof -
  let ?p = "if is_sensitive h then 4 else 6 :: nat" and ?b = "if is_sensitive h then 0x10 else 0x40 :: 8 word"
  let ?r1 = "string_bytes (hp_name h) @ string_bytes (hp_value h) @ rest"
  have m: "?b AND mask ?p = 0" by (simp add: mask_eq_exp_minus_1)
  have "decode_int (?b # ?r1) ?p = Inr (0, ?r1)"
    using decode_int_bytes [OF _ _ m, of 0 ?r1] by (simp add: int_bytes_zero split: if_splits)
  then have n: "decode_name t (?b # ?r1) ?p = Inr (hp_name h, string_bytes (hp_value h) @ rest)"
    using assms by (simp add: decode_name_def decode_string_bytes header_ok_def)
  have v: "decode_string (string_bytes (hp_value h) @ rest) = Inr (hp_value h, rest)"
    using assms by (simp add: decode_string_bytes header_ok_def)
  have l: "literal_bytes h @ rest = ?b # ?r1" by (simp add: literal_bytes_def)
  have h: "\<lparr>hp_name = hp_name h, hp_value = hp_value h, hp_sensitive = b\<rparr> = h\<lparr>hp_sensitive := b\<rparr>" for b
    by (cases h) simp
  show ?thesis
  proof (cases "is_sensitive h")
    case True
    then show ?thesis unfolding l decode_step_def using n v assms
      by (simp add: header_ok_def received_def Let_def h)
  next
    case False
    then show ?thesis unfolding l decode_step_def using n v assms
      by (simp add: header_ok_def received_def Let_def h)
  qed
qed

lemma literal_bytes_ne [simp]: "literal_bytes h \<noteq> []"
  by (simp add: literal_bytes_def)

lemma received_plain: "\<not> is_sensitive h \<Longrightarrow> received h = h"
  by (simp add: received_def is_sensitive_def)

lemma hpack_encode_decode:
  assumes "\<forall>h\<in>set hs. header_ok h" "rb_inv out"
  shows "\<exists>t' out'. hpack_encode t hs out = (Inr (), t', out') \<and> rb_inv out' \<and>
    contents out' = contents out @ concat (map literal_bytes hs) \<and>
    (\<forall>acc. hpack_decode t (concat (map literal_bytes hs)) acc = (Inr (), t', acc @ map received hs))"
  using assms
proof (induction hs arbitrary: t out)
  case Nil
  then show ?case by (auto simp: hpack_decode.simps)
next
  case (Cons h hs)
  let ?t = "if is_sensitive h then t else add_to_dynamic h t"
  obtain out1 where o: "encode_literal h out = (Inr (), out1)" "rb_inv out1" "contents out1 = contents out @ literal_bytes h"
    using rbq.emitsD [OF emits_encode_literal Cons.prems(2)] by blast
  obtain t' out' where IH: "hpack_encode ?t hs out1 = (Inr (), t', out')" "rb_inv out'"
    "contents out' = contents out1 @ concat (map literal_bytes hs)"
    "\<And>acc. hpack_decode ?t (concat (map literal_bytes hs)) acc = (Inr (), t', acc @ map received hs)"
    using Cons.IH [OF _ o(2), of ?t] Cons.prems(1) by auto
  have "hpack_decode t (literal_bytes h @ concat (map literal_bytes hs)) acc =
      hpack_decode ?t (concat (map literal_bytes hs)) (acc @ [received h])" for acc
    using Cons.prems(1) by (subst hpack_decode.simps) (simp add: decode_step_literal received_plain)
  then show ?case using IH o Cons.prems(1) by (auto simp: header_ok_def)
qed

section \<open>The dynamic table\<close>

definition table_ok :: "HpackTable \<Rightarrow> bool" where
  "table_ok t \<longleftrightarrow> table_size t = sum_list (map entry_size (dynamic_table t)) \<and>
     table_size t \<le> max_table_size t \<and> max_table_size t \<le> 4096 \<and>
     (\<forall>h\<in>set (dynamic_table t). \<not> has_uppercase (hp_name h))"

lemma evict_spec:
  assumes "table_size t = sum_list (map entry_size (dynamic_table t))"
  shows "table_size (evict t) = sum_list (map entry_size (dynamic_table (evict t))) \<and>
    table_size (evict t) \<le> max_table_size (evict t) \<and> max_table_size (evict t) = max_table_size t \<and>
    prefix (dynamic_table (evict t)) (dynamic_table t)"
  using assms
proof (induction t rule: evict.induct)
  case (1 t)
  show ?case
  proof (cases "table_size t > max_table_size t \<and> dynamic_table t \<noteq> []")
    case True
    let ?t = "t\<lparr>table_size := table_size t - entry_size (last (dynamic_table t)),
                    dynamic_table := butlast (dynamic_table t)\<rparr>"
    have e: "evict t = evict ?t" using True by (subst evict.simps) simp
    have d: "dynamic_table t = butlast (dynamic_table t) @ [last (dynamic_table t)]" using True by simp
    have "table_size ?t = sum_list (map entry_size (dynamic_table ?t))"
      using "1.prems" arg_cong [OF d, of "\<lambda>l. sum_list (map entry_size l)"] by simp
    from "1.IH" [OF True this] show ?thesis unfolding e
      by (auto intro: prefix_order.trans [OF _ prefixI [OF d]])
  next
    case False
    then show ?thesis using "1.prems" by (subst (1 2 3 4 5 6) evict.simps) auto
  qed
qed

lemma table_ok_evict:
  "table_size t = sum_list (map entry_size (dynamic_table t)) \<Longrightarrow> max_table_size t \<le> 4096 \<Longrightarrow>
   \<forall>h\<in>set (dynamic_table t). \<not> has_uppercase (hp_name h) \<Longrightarrow> table_ok (evict t)"
  using evict_spec [of t] set_mono_prefix [of "dynamic_table (evict t)" "dynamic_table t"]
  by (auto simp: table_ok_def)

lemma table_ok_add: "table_ok t \<Longrightarrow> \<not> has_uppercase (hp_name h) \<Longrightarrow> table_ok (add_to_dynamic h t)"
  unfolding add_to_dynamic_def by (rule table_ok_evict) (auto simp: table_ok_def)

lemma table_ok_set_max: "table_ok t \<Longrightarrow> n \<le> max_table_size t \<Longrightarrow> table_ok (set_max_table_size n t)"
  unfolding set_max_table_size_def by (rule table_ok_evict) (auto simp: table_ok_def)

lemma table_ok_new: "table_ok new_HpackTable"
  by (simp add: table_ok_def new_HpackTable_def)

lemma static_table_lower: "\<forall>h\<in>set HPACK_STATIC_TABLE. \<not> has_uppercase (hp_name h)"
  by (simp add: HPACK_STATIC_TABLE_def static_header_def has_uppercase_def isupper_c_def ord_c_def)

lemma lookup_lower: "table_ok t \<Longrightarrow> lookup i t = Some h \<Longrightarrow> \<not> has_uppercase (hp_name h)"
  using static_table_lower by (auto simp: lookup_def table_ok_def Let_def split: if_splits)

lemma decode_step_ok:
  "decode_step t data = Inr (rest, t', h) \<Longrightarrow> table_ok t \<Longrightarrow>
     table_ok t' \<and> (\<forall>h'. h = Some h' \<longrightarrow> \<not> has_uppercase (hp_name h'))"
  by (auto simp: decode_step_def Let_def not_less split: if_splits sum.splits option.splits
      intro!: table_ok_add table_ok_set_max dest: lookup_lower)

lemma hpack_decode_ok:
  assumes "hpack_decode t data out = (r, t', out')" "table_ok t"
  shows "table_ok t' \<and> (\<exists>new. out' = out @ new \<and> length new \<le> length data \<and>
    (\<forall>h\<in>set new. \<not> has_uppercase (hp_name h)))"
  using assms
proof (induction t data out rule: hpack_decode.induct)
  case (1 t data out)
  show ?case
  proof (cases "data = []")
    case True
    with "1.prems" show ?thesis by (subst (asm) hpack_decode.simps) auto
  next
    case False
    show ?thesis
    proof (cases "decode_step t data")
      case (Inl e)
      with "1.prems" False show ?thesis by (subst (asm) hpack_decode.simps) auto
    next
      case (Inr x)
      then obtain rest t1 h where x: "decode_step t data = Inr (rest, t1, h)" by (cases x) auto
      let ?add = "case h of None \<Rightarrow> [] | Some h' \<Rightarrow> [h']"
      have d: "hpack_decode t1 rest (out @ ?add) = (r, t', out')"
        using "1.prems"(1) False x by (subst (asm) hpack_decode.simps) simp
      note ok = decode_step_ok [OF x "1.prems"(2)]
      from "1.IH" [OF False x refl refl d] ok obtain new where
        "table_ok t'" "out' = (out @ ?add) @ new" "length new \<le> length rest"
        "\<forall>h\<in>set new. \<not> has_uppercase (hp_name h)" by blast
      moreover have "length rest < length data" using x by (rule decode_step_shorter)
      ultimately show ?thesis using ok by (intro conjI exI [of _ "?add @ new"]) (auto split: option.splits)
    qed
  qed
qed

section \<open>Properties\<close>

lemma writes_to_empty:
  assumes "rbq.emits f bs" "rb_inv out" "contents out = []"
  shows "\<exists>out'. f out = (Inr (), out') \<and> rb_inv out' \<and> contents out' = bs"
  using rbq.emitsD [OF assms(1,2)] assms(3) by (metis append_Nil)

text \<open>Integers: for every prefix width from 1 to 8 bits, every prefix byte whose low bits are
  free and every 64-bit value, what encode_int writes is read back by decode_int as the same
  value, leaving the following bytes, with two exceptions: the value 0 with a 7-bit prefix is
  refused, and so is a value that needs more than nine continuation bytes.\<close>

lemma hpack_int_round_trip:
  assumes "1 \<le> p" "p \<le> 8" "pre AND mask p = 0" "rb_inv out" "contents out = []"
  shows "\<exists>out'. encode_int v p pre out = (Inr (), out') \<and>
    decode_int (contents out' @ rest) p =
      (if v = 0 \<and> p = 7 then Inl (from_code HpackError ''invalid index 0'')
       else if unat v < 2 ^ p - 1 + 2 ^ 63 then Inr (v, rest)
       else Inl (from_code HpackError ''HPACK integer overflow''))"
  using writes_to_empty [OF emits_encode_int assms(4,5), of v p pre] decode_int_bytes [OF assms(1-3)] by auto

lemma hpack_int_round_trip_witness:
  "\<exists>out'. encode_int 1337 5 0x20 (new_RingBuffer 4) = (Inr (), out') \<and>
    decode_int (contents out' @ [7]) 5 = Inr (1337, [7])"
  using hpack_int_round_trip [of 5 "0x20" "new_RingBuffer 4" 1337 "[7]"]
  by (simp add: mask_eq_exp_minus_1)

text \<open>Strings: every non-empty string whose encoding (Huffman or raw, whichever is shorter) has
  at most 65535 bytes is read back by decode_string, leaving the following bytes.\<close>

lemma hpack_string_round_trip:
  assumes "s \<noteq> []" "string_len s \<le> 65535" "rb_inv out" "contents out = []"
  shows "\<exists>out'. encode_string s out = (Inr (), out') \<and> decode_string (contents out' @ rest) = Inr (s, rest)"
  using writes_to_empty [OF emits_encode_string assms(3,4), of s] decode_string_bytes [OF assms(1,2)] by auto

lemma hpack_string_round_trip_witness:
  "\<exists>out'. encode_string ''a'' (new_RingBuffer 4) = (Inr (), out') \<and> decode_string (contents out' @ [7]) = Inr (''a'', [7])"
  by (rule hpack_string_round_trip) (use string_len_le [of "''a''"] in simp_all)

text \<open>C30. Empty values do not survive: a header with a legal name and an empty value is encoded
  without error, but the decoder refuses the block, because it takes the string length 0 for an
  index 0.\<close>

theorem hpack_empty_value_rejected:
  assumes "hp_name h \<noteq> []" "\<not> has_uppercase (hp_name h)" "string_len (hp_name h) \<le> 65535" "hp_value h = []"
    and "rb_inv out" "contents out = []"
  shows "\<exists>t' out'. hpack_encode t [h] out = (Inr (), t', out') \<and>
    hpack_decode t (contents out') acc = (Inl (from_code HpackError ''invalid index 0''), t, acc)"
proof -
  let ?p = "if is_sensitive h then 4 else 6 :: nat" and ?b = "if is_sensitive h then 0x10 else 0x40 :: 8 word"
  let ?r1 = "string_bytes (hp_name h) @ string_bytes []"
  have m: "?b AND mask ?p = 0" by (simp add: mask_eq_exp_minus_1)
  have "decode_int (?b # ?r1) ?p = Inr (0, ?r1)"
    using decode_int_bytes [OF _ _ m, of 0 ?r1] by (simp add: int_bytes_zero split: if_splits)
  then have n: "decode_name t (?b # ?r1) ?p = Inr (hp_name h, string_bytes [])"
    using assms by (simp add: decode_name_def decode_string_bytes)
  have "decode_step t (?b # ?r1) = Inl (from_code HpackError ''invalid index 0'')"
    using n decode_string_empty [of "[]"] by (simp add: decode_step_def split: if_splits)
  then have d: "hpack_decode t (literal_bytes h) acc = (Inl (from_code HpackError ''invalid index 0''), t, acc)"
    using assms(4) by (subst hpack_decode.simps) (simp add: literal_bytes_def)
  from writes_to_empty [OF emits_encode_literal assms(5,6), of h] obtain out' where
    "encode_literal h out = (Inr (), out')" "contents out' = literal_bytes h" by blast
  with d assms(2) show ?thesis by auto
qed

definition demo_header :: HpackHeader where
  "demo_header = \<lparr>hp_name = ''te'', hp_value = [], hp_sensitive = False\<rparr>"

lemma demo_string_len: "string_len ''te'' \<le> 65535" "string_len ''x'' \<le> 65535"
  using string_len_le [of "''te''"] string_len_le [of "''x''"] by simp_all

theorem hpack_empty_value_rejected_witness:
  "\<exists>t' out'. hpack_encode new_HpackTable [demo_header] (new_RingBuffer 4) = (Inr (), t', out') \<and>
    hpack_decode new_HpackTable (contents out') [] =
      (Inl (from_code HpackError ''invalid index 0''), new_HpackTable, [])"
  by (rule hpack_empty_value_rejected)
    (simp_all add: demo_header_def demo_string_len has_uppercase_def isupper_c_def ord_c_def)



text \<open>C31. The decoder is safe on every input: from a well-formed table, whatever bytes are decoded
  and whether or not decoding succeeds, the table stays well formed (its size is the sum of its
  entries, at most the current maximum and never above 4096, names in lower case), and the
  headers delivered are at most one per input byte, all with lower-case names.\<close>

theorem hpack_decoder_safe:
  assumes "hpack_decode t data out = (r, t', out')" "table_ok t"
  shows "table_ok t' \<and> (\<exists>new. out' = out @ new \<and> length new \<le> length data \<and>
    list_all (\<lambda>h. \<not> has_uppercase (hp_name h)) new)"
  using hpack_decode_ok [OF assms] by (auto simp: list_all_iff)

theorem hpack_decoder_safe_witness:
  "hpack_decode new_HpackTable [0x82] [] = (Inr (), new_HpackTable, [static_header ('':method'', ''GET'')]) \<and>
   table_ok new_HpackTable"
proof -
  have s: "HPACK_STATIC_TABLE ! 2 = static_header ('':method'', ''GET'')" "length HPACK_STATIC_TABLE = 62"
    by (simp_all add: HPACK_STATIC_TABLE_def)
  have "decode_step new_HpackTable [0x82] = Inr ([], new_HpackTable, Some (static_header ('':method'', ''GET'')))"
    by (simp add: decode_step_def decode_int_def Let_def lookup_def s)
  then have d: "hpack_decode new_HpackTable [0x82] [] =
      (Inr (), new_HpackTable, [static_header ('':method'', ''GET'')])"
    by (simp add: hpack_decode.simps)
  from hpack_decoder_safe [OF d table_ok_new] d show ?thesis by blast
qed

text \<open>Dynamic indices are shifted by one: index 62, which RFC 7541 gives to the newest dynamic
  entry, is always refused, and the newest entry is found at index 63.\<close>

lemma hpack_dynamic_index_shift:
  "lookup 62 t = None \<and> (k < length (dynamic_table t) \<longrightarrow> lookup (63 + k) t = Some (dynamic_table t ! k))"
proof -
  have "length HPACK_STATIC_TABLE = 62" by (simp add: HPACK_STATIC_TABLE_def)
  then show ?thesis by (auto simp: lookup_def Let_def)
qed

lemma hpack_dynamic_index_shift_witness:
  "lookup 62 (new_HpackTable\<lparr>dynamic_table := [demo_header]\<rparr>) = None \<and>
   lookup 63 (new_HpackTable\<lparr>dynamic_table := [demo_header]\<rparr>) = Some demo_header"
  using hpack_dynamic_index_shift [of "new_HpackTable\<lparr>dynamic_table := [demo_header]\<rparr>" 0] by simp

text \<open>Literals with an indexed name of 32 or more are misread: a byte 011xxxxx, in RFC 7541 a
  literal with incremental indexing whose name has an index from 32 on, is taken as a table size
  update; it never produces a header, and when it is accepted it sets the table size to a value
  of five bits or more from the input.\<close>

lemma hpack_literal_misread:
  assumes "b AND 0xE0 = 0x60" "decode_step t (b # data) = Inr (rest, t', h)"
  shows "h = None \<and> (\<exists>n. n \<le> max_table_size t \<and> t' = set_max_table_size n t)"
proof -
  have "b AND 0x80 = (b AND 0xE0) AND 0x80" "b AND 0x20 = (b AND 0xE0) AND 0x20" by (simp_all add: and.assoc)
  then have "b AND 0x80 = 0" "b AND 0x20 \<noteq> 0" unfolding assms(1) by simp_all
  with assms(2) show ?thesis
    by (auto simp: decode_step_def Let_def not_less split: sum.splits if_splits)
qed

lemma hpack_literal_misread_witness:
  "decode_step new_HpackTable [0x60] = Inr ([], set_max_table_size 0 new_HpackTable, None) \<and>
   (\<exists>n. n \<le> max_table_size new_HpackTable \<and> set_max_table_size 0 new_HpackTable = set_max_table_size n new_HpackTable)"
proof -
  have d: "decode_step new_HpackTable [0x60] = Inr ([], set_max_table_size 0 new_HpackTable, None)"
    by (simp add: decode_step_def decode_int_def Let_def)
  have "(0x60 :: 8 word) AND 0xE0 = 0x60" by simp
  from hpack_literal_misread [OF this d] d show ?thesis by blast
qed

end
