(* ===== verification/Http1.thy ===== *)
theory Http1
  imports Ring_Buffer
begin

text \<open>
  The HTTP/1.1 parser and serialiser (\<^verbatim>\<open>include/uproxy/http1.h\<close>, \<^verbatim>\<open>src/http1.cpp\<close>).

  \<^verbatim>\<open>parse_headers\<close> fills a request or a response object in place, also on the paths that
  return an error, so the model returns the object it leaves together with the
  \<open>ParseResult\<close>.  Its parts are \<open>find_head\<close> (the header block and the start line),
  \<open>request_line\<close> and \<open>status_line\<close>, \<open>header_line\<close> (the body of the loop over header
  lines) and \<open>header_loop\<close> (the loop; it carries the unread rest of the block instead of an
  offset).  What the loop changes of the object is the record \<open>msg_acc\<close>.
\<close>

record HttpHeader =
  h_name :: string
  h_value :: string

record HttpRequest =
  req_method :: string
  req_target :: string
  req_version :: string
  req_headers :: "HttpHeader list"
  req_keep_alive :: bool
  req_content_length :: u64
  req_chunked :: bool
  req_header_bytes :: nat

record HttpResponse =
  resp_status :: int
  resp_reason :: string
  resp_headers :: "HttpHeader list"
  resp_content_length :: u64
  resp_chunked :: bool
  resp_header_bytes :: nat

definition empty_request :: HttpRequest where
  "empty_request =
     \<lparr>req_method = [], req_target = [], req_version = [], req_headers = [], req_keep_alive = True,
      req_content_length = 0, req_chunked = False, req_header_bytes = 0\<rparr>"

definition empty_response :: HttpResponse where
  "empty_response =
     \<lparr>resp_status = 200, resp_reason = ''OK'', resp_headers = [], resp_content_length = 0,
      resp_chunked = False, resp_header_bytes = 0\<rparr>"

definition HTTP1_MAX_METHOD_LEN :: nat where "HTTP1_MAX_METHOD_LEN = 16"
definition HTTP1_MAX_TARGET_LEN :: nat where "HTTP1_MAX_TARGET_LEN = 8192"
definition HTTP1_MAX_HEADER_NAME :: nat where "HTTP1_MAX_HEADER_NAME = 256"
definition HTTP1_MAX_HEADER_VALUE :: nat where "HTTP1_MAX_HEADER_VALUE = 8192"
definition HTTP1_MAX_HEADER_COUNT :: nat where "HTTP1_MAX_HEADER_COUNT = 100"
definition HTTP1_MAX_HEADER_BYTES :: nat where "HTTP1_MAX_HEADER_BYTES = 65536"

lemmas http1_limits =
  HTTP1_MAX_METHOD_LEN_def HTTP1_MAX_TARGET_LEN_def HTTP1_MAX_HEADER_NAME_def
  HTTP1_MAX_HEADER_VALUE_def HTTP1_MAX_HEADER_COUNT_def HTTP1_MAX_HEADER_BYTES_def

datatype ParseResult = Complete | Incomplete | PError

section \<open>Character classes and strings\<close>

definition token_extra :: string where
  "token_extra = ''!#$%&'' @ [CHR 0x27] @ ''*+-.^_'' @ [CHR 0x60] @ ''|~''"

definition is_token_char :: "char \<Rightarrow> bool" where
  "is_token_char c = (if isalnum_c c then True else find_str [c] token_extra \<noteq> None)"

definition lower :: "string \<Rightarrow> string" where
  "lower s = map tolower_c s"

definition is_ows :: "char \<Rightarrow> bool" where
  "is_ows c \<longleftrightarrow> c = SP \<or> c = TAB"

definition trim_ows :: "string \<Rightarrow> string" where
  "trim_ows s = strip is_ows s"

definition valid_value_char :: "char \<Rightarrow> bool" where
  "valid_value_char c \<longleftrightarrow> \<not> (c = CR \<or> c = LF) \<and> \<not> (ord_c c < 0x20 \<and> c \<noteq> TAB)"

definition valid_header_value :: "string \<Rightarrow> bool" where
  "valid_header_value value = list_all valid_value_char value"

text \<open>\<^verbatim>\<open>std::from_chars\<close> for \<^verbatim>\<open>int\<close>: an optional minus sign, then digits.\<close>

definition from_chars_int :: "string \<Rightarrow> (int \<times> string) option" where
  "from_chars_int s =
     (if s \<noteq> [] \<and> hd s = CHR ''-''
      then map_option (\<lambda>(v, r). (- int v, r)) (from_chars 10 (2 ^ 31 + 1) (tl s))
      else map_option (\<lambda>(v, r). (int v, r)) (from_chars 10 (2 ^ 31) s))"

definition show_int :: "int \<Rightarrow> string" where
  "show_int n = (if n < 0 then ''-'' @ show_nat 10 (nat (- n)) else show_nat 10 (nat n))"

section \<open>Parsing\<close>

abbreviation CRLF2 :: string where "CRLF2 \<equiv> [CHR 0x0D, CHR 0x0A, CHR 0x0D, CHR 0x0A]"

text \<open>\<open>Inl\<close>: the early return; \<open>Inr (end, block, line_end)\<close>: where the blank line starts, the
  block up to it, and the length of the start line.\<close>

definition bare_lf :: "string \<Rightarrow> bool" where
  "bare_lf block =
     list_ex (\<lambda>i. block ! i = LF \<and> (i = 0 \<or> block ! (i - 1) \<noteq> CR)) [0..<length block]"

definition find_head :: "string \<Rightarrow> ParseResult + nat \<times> string \<times> nat" where
  "find_head bs =
     (case find_str CRLF2 bs of
        None \<Rightarrow>
          if length bs > HTTP1_MAX_HEADER_BYTES \<or> find_str [LF] bs \<noteq> None then Inl PError
          else Inl Incomplete
      | Some e \<Rightarrow>
          if e + 4 > HTTP1_MAX_HEADER_BYTES then Inl PError
          else let block = take (e + 2) bs
               in if find_str [LF] block \<noteq> None \<and> bare_lf block then Inl PError
                  else case find_str CRLF block of
                         None \<Rightarrow> Inl Incomplete
                       | Some line_end \<Rightarrow> Inr (e, block, line_end))"

definition request_line :: "string \<Rightarrow> (string \<times> string \<times> string) option" where
  "request_line start =
     (case find_str [SP] start of
        None \<Rightarrow> None
      | Some sp1 \<Rightarrow>
          (case find_from [SP] (sp1 + 1) start of
             None \<Rightarrow> None
           | Some sp2 \<Rightarrow>
               if find_from [SP] (sp2 + 1) start \<noteq> None then None
               else let method = take sp1 start;
                        target = take (sp2 - sp1 - 1) (drop (sp1 + 1) start);
                        version = drop (sp2 + 1) start
                    in if method = [] \<or> length method > HTTP1_MAX_METHOD_LEN \<or>
                          \<not> list_all is_token_char method then None
                       else if target = [] \<or> length target > HTTP1_MAX_TARGET_LEN \<or>
                               (version \<noteq> ''HTTP/1.1'' \<and> version \<noteq> ''HTTP/1.0'') then None
                       else Some (method, target, version)))"

definition status_line :: "string \<Rightarrow> (int \<times> string) option" where
  "status_line start =
     (if take 5 start \<noteq> ''HTTP/'' \<or> length start < 12 then None
      else case from_chars_int (take 3 (drop 9 start)) of
             None \<Rightarrow> None
           | Some (status, rest) \<Rightarrow>
               if rest \<noteq> [] then None
               else Some (status, if length start > 13 then drop 13 start else []))"

record msg_acc =
  a_headers :: "HttpHeader list"
  a_chunked :: bool
  a_keep_alive :: bool
  a_saw_cl :: bool
  a_cl :: u64

text \<open>One header line: \<open>lex_header\<close> splits and checks it, \<open>absorb_header\<close> records it;
  \<open>None\<close> is \<^verbatim>\<open>return ParseResult::Error\<close>.\<close>

definition lex_header :: "string \<Rightarrow> HttpHeader option" where
  "lex_header line =
     (if line \<noteq> [] \<and> (hd line = SP \<or> hd line = TAB) then None
      else case find_str '':'' line of
             None \<Rightarrow> None
           | Some colon \<Rightarrow>
               if colon = 0 then None
               else if line ! (colon - 1) = SP \<or> line ! (colon - 1) = TAB then None
               else let name = take colon line
                    in if length name > HTTP1_MAX_HEADER_NAME \<or> \<not> list_all is_token_char name then None
                       else let value = trim_ows (drop (colon + 1) line)
                            in if length value > HTTP1_MAX_HEADER_VALUE \<or> \<not> valid_header_value value
                               then None
                               else Some \<lparr>h_name = name, h_value = value\<rparr>)"

definition push_header :: "HttpHeader \<Rightarrow> msg_acc \<Rightarrow> msg_acc" where
  "push_header h acc = acc\<lparr>a_headers := a_headers acc @ [h]\<rparr>"

definition absorb_header :: "bool \<Rightarrow> HttpHeader \<Rightarrow> msg_acc \<Rightarrow> msg_acc option" where
  "absorb_header is_req h acc =
     (if length (a_headers acc) \<ge> HTTP1_MAX_HEADER_COUNT then None
      else let lname = lower (h_name h); value = h_value h
           in if lname = ''content-length'' then
                (case from_chars_all 10 (2 ^ 64) value of
                   None \<Rightarrow> None
                 | Some n \<Rightarrow>
                     let parsed = word_of_nat n
                     in if a_saw_cl acc \<and> parsed \<noteq> a_cl acc then None
                        else Some (push_header h (acc\<lparr>a_saw_cl := True, a_cl := parsed\<rparr>)))
              else if lname = ''transfer-encoding'' \<and> contains_str ''chunked'' (lower value)
              then Some (push_header h (acc\<lparr>a_chunked := True\<rparr>))
              else if lname = ''connection'' \<and> is_req \<and> contains_str ''close'' (lower value)
              then Some (push_header h (acc\<lparr>a_keep_alive := False\<rparr>))
              else Some (push_header h acc))"

definition header_line :: "bool \<Rightarrow> string \<Rightarrow> msg_acc \<Rightarrow> msg_acc option" where
  "header_line is_req line acc =
     (case lex_header line of None \<Rightarrow> None | Some h \<Rightarrow> absorb_header is_req h acc)"

text \<open>The loop: \<open>False\<close> for an error, with the accumulator as the failing line found it.\<close>

function header_loop :: "bool \<Rightarrow> string \<Rightarrow> msg_acc \<Rightarrow> bool \<times> msg_acc" where
  "header_loop is_req rest acc =
     (if rest = [] then (True, acc)
      else case find_str CRLF rest of
             None \<Rightarrow> (True, acc)
           | Some n \<Rightarrow>
               if n = 0 then (True, acc)
               else case header_line is_req (take n rest) acc of
                      None \<Rightarrow> (False, acc)
                    | Some acc' \<Rightarrow> header_loop is_req (drop (n + 2) rest) acc')"
  by pat_completeness auto
termination
  by (relation "measure (\<lambda>(_, rest, _). length rest)") auto

declare header_loop.simps [simp del]

definition parse_request_bytes :: "string \<Rightarrow> HttpRequest \<Rightarrow> ParseResult \<times> HttpRequest" where
  "parse_request_bytes bs req =
     (case find_head bs of
        Inl r \<Rightarrow> (r, req)
      | Inr (e, block, line_end) \<Rightarrow>
          (case request_line (take line_end block) of
             None \<Rightarrow> (PError, req)
           | Some (method, target, version) \<Rightarrow>
               (case header_loop True (drop (line_end + 2) block)
                       \<lparr>a_headers = [], a_chunked = False, a_keep_alive = (version = ''HTTP/1.1''),
                        a_saw_cl = False, a_cl = 0\<rparr> of
                  (ok, acc) \<Rightarrow>
                    let req' = \<lparr>req_method = method, req_target = target, req_version = version,
                                 req_headers = a_headers acc, req_keep_alive = a_keep_alive acc,
                                 req_content_length = 0, req_chunked = a_chunked acc,
                                 req_header_bytes = e + 4\<rparr>
                    in if \<not> ok then (PError, req')
                       else if a_chunked acc \<and> a_saw_cl acc then (PError, req')
                       else (Complete, req'\<lparr>req_content_length := a_cl acc\<rparr>))))"

definition parse_response_bytes :: "string \<Rightarrow> HttpResponse \<Rightarrow> ParseResult \<times> HttpResponse" where
  "parse_response_bytes bs resp =
     (case find_head bs of
        Inl r \<Rightarrow> (r, resp)
      | Inr (e, block, line_end) \<Rightarrow>
          (case status_line (take line_end block) of
             None \<Rightarrow> (PError, resp)
           | Some (status, reason) \<Rightarrow>
               (case header_loop False (drop (line_end + 2) block)
                       \<lparr>a_headers = [], a_chunked = False, a_keep_alive = True,
                        a_saw_cl = False, a_cl = 0\<rparr> of
                  (ok, acc) \<Rightarrow>
                    let resp' = \<lparr>resp_status = status, resp_reason = reason,
                                  resp_headers = a_headers acc, resp_content_length = 0,
                                  resp_chunked = a_chunked acc, resp_header_bytes = e + 4\<rparr>
                    in if \<not> ok then (PError, resp')
                       else if a_chunked acc \<and> a_saw_cl acc then (PError, resp')
                       else (Complete, resp'\<lparr>resp_content_length := a_cl acc\<rparr>))))"

definition parse_request :: "RingBuffer \<Rightarrow> HttpRequest \<Rightarrow> ParseResult \<times> HttpRequest" where
  "parse_request buf req =
     parse_request_bytes
       (string_of_bytes (peek (min (readable buf) (HTTP1_MAX_HEADER_BYTES + 1)) buf)) req"

definition parse_response :: "RingBuffer \<Rightarrow> HttpResponse \<Rightarrow> ParseResult \<times> HttpResponse" where
  "parse_response buf resp =
     parse_response_bytes
       (string_of_bytes (peek (min (readable buf) (HTTP1_MAX_HEADER_BYTES + 1)) buf)) resp"

definition parse_chunk_header :: "RingBuffer \<Rightarrow> int \<times> RingBuffer" where
  "parse_chunk_header buf =
     (let sv = string_of_bytes (peek (min (readable buf) 128) buf)
      in case find_str CRLF sv of
           None \<Rightarrow> (-1, buf)
         | Some crlf \<Rightarrow>
             let hex0 = take crlf sv;
                 hex = (case find_str '';'' hex0 of None \<Rightarrow> hex0 | Some semi \<Rightarrow> take semi hex0)
             in case from_chars_all 16 (2 ^ 64) hex of
                  None \<Rightarrow> (-1, buf)
                | Some n \<Rightarrow>
                    if n > 2 ^ 63 - 1 then (-1, buf)
                    else (int n, commit_read (crlf + 2) buf))"

section \<open>Serialising\<close>

definition request_hop_headers :: "string list" where
  "request_hop_headers =
     [''host'', ''connection'', ''keep-alive'', ''proxy-authenticate'', ''proxy-authorization'',
      ''te'', ''trailers'', ''transfer-encoding'', ''upgrade'']"

definition response_hop_headers :: "string list" where
  "response_hop_headers =
     [''connection'', ''keep-alive'', ''proxy-authenticate'', ''proxy-authorization'',
      ''te'', ''trailers'', ''transfer-encoding'', ''upgrade'']"

fun request_header_text :: "HttpHeader list \<Rightarrow> bool \<Rightarrow> (string \<times> bool) result" where
  "request_header_text [] saw = Inr ([], saw)"
| "request_header_text (h # hs) saw =
     (let name = lower (h_name h)
      in if name \<in> set request_hop_headers then request_header_text hs saw
         else let saw' = (if name = ''content-length'' then True else saw)
              in if \<not> valid_header_value (h_value h)
                 then Inl (from_code HttpMalformed ''invalid header value'')
                 else map_r (request_header_text hs saw')
                        (\<lambda>(t, s). (h_name h @ '': '' @ h_value h @ CRLF @ t, s)))"

definition request_text :: "HttpRequest \<Rightarrow> string \<Rightarrow> string result" where
  "request_text req host =
     map_r (request_header_text (req_headers req) False)
       (\<lambda>(t, saw).
          req_method req @ '' '' @ req_target req @ '' '' @ req_version req @ CRLF @
          ''Host: '' @ host @ CRLF @ t @
          (if req_content_length req > 0 \<and> \<not> saw
           then ''Content-Length: '' @ show_nat 10 (unat (req_content_length req)) @ CRLF else []) @
          ''Via: 1.1 uproxy'' @ CRLF @ CRLF)"

definition write_request :: "RingBuffer \<Rightarrow> HttpRequest \<Rightarrow> string \<Rightarrow> unit result \<times> RingBuffer" where
  "write_request buf req host =
     (case request_text req host of Inl e \<Rightarrow> (Inl e, buf) | Inr t \<Rightarrow> append_str t buf)"

fun response_header_text :: "HttpHeader list \<Rightarrow> string result" where
  "response_header_text [] = Inr []"
| "response_header_text (h # hs) =
     (let name = lower (h_name h)
      in if name \<in> set response_hop_headers then response_header_text hs
         else if \<not> valid_header_value (h_value h)
              then Inl (from_code HttpMalformed ''invalid header value'')
              else map_r (response_header_text hs)
                     (\<lambda>t. h_name h @ '': '' @ h_value h @ CRLF @ t))"

definition response_text :: "HttpResponse \<Rightarrow> string result" where
  "response_text resp =
     map_r (response_header_text (resp_headers resp))
       (\<lambda>t. ''HTTP/1.1 '' @ show_int (resp_status resp) @ '' '' @ resp_reason resp @ CRLF @
            t @ ''Via: 1.1 uproxy'' @ CRLF @ CRLF)"

definition write_response :: "RingBuffer \<Rightarrow> HttpResponse \<Rightarrow> unit result \<times> RingBuffer" where
  "write_response buf resp =
     (case response_text resp of Inl e \<Rightarrow> (Inl e, buf) | Inr t \<Rightarrow> append_str t buf)"

definition write_chunk_header :: "RingBuffer \<Rightarrow> nat \<Rightarrow> unit result \<times> RingBuffer" where
  "write_chunk_header buf chunk_size =
     (let tmp = show_nat 16 chunk_size @ CRLF
      in if length tmp \<ge> 32 then (Inl (from_code HttpMalformed ''chunk too large''), buf)
         else append_str tmp buf)"

section \<open>Lines\<close>

text \<open>A header block is a sequence of lines; a line is not empty and contains no line feed.\<close>

definition line_ok :: "string \<Rightarrow> bool" where
  "line_ok l \<longleftrightarrow> l \<noteq> [] \<and> LF \<notin> set l"

definition unlines :: "string list \<Rightarrow> string" where
  "unlines ls = concat (map (\<lambda>l. l @ CRLF) ls)"

lemma unlines_simps [simp]:
  "unlines [] = []" "unlines (l # ls) = l @ CRLF @ unlines ls"
  by (simp_all add: unlines_def)

lemma unlines_append: "unlines (xs @ ys) = unlines xs @ unlines ys"
  by (simp add: unlines_def)

lemma find_crlf_line: "LF \<notin> set l \<Longrightarrow> find_str CRLF (l @ CR # LF # s) = Some (length l)"
proof (induction l)
  case Nil
  then show ?case by simp
next
  case (Cons x l)
  then show ?case by (cases l) auto
qed

lemma find_crlf2_line:
  "LF \<notin> set l \<Longrightarrow> find_str CRLF2 (l @ CR # LF # s) =
     (if take 2 s = CRLF then Some (length l) else map_option ((+) (length l + 2)) (find_str CRLF2 s))"
proof (induction l)
  case Nil
  have "take 2 s = CRLF \<longleftrightarrow> take 4 (CR # LF # s) = CRLF2" by simp
  then show ?case by (cases "find_str CRLF2 s") (auto simp: numeral_2_eq_2)
next
  case (Cons x l)
  then have "take (length CRLF2) (x # l @ CR # LF # s) \<noteq> CRLF2" by (cases l) auto
  then have "find_str CRLF2 ((x # l) @ CR # LF # s) = map_option Suc (find_str CRLF2 (l @ CR # LF # s))"
    by (simp only: append_Cons find_str.simps if_False)
  with Cons show ?case by (cases "find_str CRLF2 s") auto
qed

lemma find_crlf2_lines:
  assumes "ls \<noteq> []" "\<forall>l\<in>set ls. line_ok l"
  shows "find_str CRLF2 (unlines ls @ CRLF @ rest) = Some (length (unlines ls) - 2)"
  using assms
proof (induction ls)
  case Nil
  then show ?case by simp
next
  case (Cons l ls)
  have l: "LF \<notin> set l" using Cons.prems by (simp add: line_ok_def)
  show ?case
  proof (cases ls)
    case Nil
    then show ?thesis using find_crlf2_line [OF l, of "CRLF @ rest"] by simp
  next
    case (Cons l2 ls2)
    have IH: "find_str CRLF2 (unlines ls @ CRLF @ rest) = Some (length (unlines ls) - 2)"
      using Cons.IH Cons.prems Cons by simp
    have "line_ok l2" using Cons.prems Cons by simp
    then have "take 2 (unlines ls @ CRLF @ rest) \<noteq> CRLF"
      using Cons by (cases l2; cases "tl l2") (auto simp: line_ok_def)
    moreover have "2 \<le> length (unlines ls)" using Cons by simp
    ultimately show ?thesis using find_crlf2_line [OF l, of "unlines ls @ CRLF @ rest"] IH by simp
  qed
qed

lemma bare_lf_iff: "bare_lf s \<longleftrightarrow> (\<exists>i<length s. s ! i = LF \<and> (i = 0 \<or> s ! (i - 1) \<noteq> CR))"
  by (simp add: bare_lf_def list_ex_iff Bex_def)

lemma not_bare_lf_append: "\<not> bare_lf a \<Longrightarrow> \<not> bare_lf b \<Longrightarrow> \<not> bare_lf (a @ b)"
proof
  assume a: "\<not> bare_lf a" and b: "\<not> bare_lf b" and "bare_lf (a @ b)"
  then obtain i where i: "i < length (a @ b)" "(a @ b) ! i = LF" "i = 0 \<or> (a @ b) ! (i - 1) \<noteq> CR"
    by (auto simp: bare_lf_iff)
  show False
  proof (cases "i < length a")
    case True
    then have "i - 1 < length a" by simp
    with True a i show False by (auto simp: bare_lf_iff nth_append)
  next
    case False
    then have j: "i - length a < length b" "b ! (i - length a) = LF"
      using i by (auto simp: nth_append)
    with b have "i - length a \<noteq> 0" "b ! (i - length a - 1) = CR" by (auto simp: bare_lf_iff)
    moreover have "(a @ b) ! (i - 1) = b ! (i - length a - 1)"
    proof -
      have "\<not> i - 1 < length a" using False calculation(1) by linarith
      then show ?thesis by (simp add: nth_append)
    qed
    ultimately show False using i False by simp
  qed
qed

lemma not_bare_lf_line: "LF \<notin> set l \<Longrightarrow> \<not> bare_lf (l @ CRLF)"
proof
  assume l: "LF \<notin> set l" and "bare_lf (l @ CRLF)"
  then obtain i where i: "i < length l + 2" "(l @ CRLF) ! i = LF" "i = 0 \<or> (l @ CRLF) ! (i - 1) \<noteq> CR"
    by (auto simp: bare_lf_iff)
  have "i = length l + 1"
  proof (rule ccontr)
    assume "i \<noteq> length l + 1"
    with i(1) consider "i < length l" | "i = length l" by linarith
    then show False
      using i(2) l by cases (auto simp: nth_append in_set_conv_nth)
  qed
  with i show False by (simp add: nth_append)
qed

lemma not_bare_lf_unlines: "\<forall>l\<in>set ls. line_ok l \<Longrightarrow> \<not> bare_lf (unlines ls)"
proof (induction ls)
  case Nil
  then show ?case by (simp add: bare_lf_iff)
next
  case (Cons l ls)
  then have "\<not> bare_lf ((l @ CRLF) @ unlines ls)"
    by (intro not_bare_lf_append not_bare_lf_line) (auto simp: line_ok_def)
  then show ?case by simp
qed

lemma find_head_lines:
  assumes ls: "\<forall>k\<in>set (l # ls). line_ok k" and len: "length (unlines (l # ls)) + 2 \<le> HTTP1_MAX_HEADER_BYTES"
  shows "find_head (unlines (l # ls) @ CRLF @ rest) =
    Inr (length (unlines (l # ls)) - 2, unlines (l # ls), length l)"
proof -
  let ?t = "unlines (l # ls)"
  have e: "find_str CRLF2 (?t @ CRLF @ rest) = Some (length ?t - 2)"
    using find_crlf2_lines [of "l # ls"] ls by simp
  have t: "2 \<le> length ?t" by simp
  have blk: "take (length ?t - 2 + 2) (?t @ CRLF @ rest) = ?t" using t by (simp del: unlines_simps)
  have "\<not> bare_lf ?t" using ls by (rule not_bare_lf_unlines)
  moreover have "find_str CRLF ?t = Some (length l)"
    using ls find_crlf_line [of l "unlines ls"] by (simp add: line_ok_def)
  moreover have "\<not> length ?t - 2 + 4 > HTTP1_MAX_HEADER_BYTES" using len t by linarith
  ultimately show ?thesis unfolding find_head_def e option.case Let_def blk by (simp del: unlines_simps)
qed

fun header_lines :: "bool \<Rightarrow> string list \<Rightarrow> msg_acc \<Rightarrow> bool \<times> msg_acc" where
  "header_lines r [] acc = (True, acc)"
| "header_lines r (l # ls) acc =
     (case header_line r l acc of None \<Rightarrow> (False, acc) | Some acc' \<Rightarrow> header_lines r ls acc')"

lemma header_loop_lines:
  "\<forall>l\<in>set ls. line_ok l \<Longrightarrow> header_loop r (unlines ls) acc = header_lines r ls acc"
proof (induction ls arbitrary: acc)
  case Nil
  then show ?case by (simp add: header_loop.simps)
next
  case (Cons l ls)
  then have l: "l \<noteq> []" "LF \<notin> set l" by (auto simp: line_ok_def)
  have "header_loop r (unlines (l # ls)) acc =
      (case header_line r l acc of None \<Rightarrow> (False, acc) | Some acc' \<Rightarrow> header_loop r (unlines ls) acc')"
    using l find_crlf_line [OF l(2), of "unlines ls"]
    by (subst header_loop.simps) (simp split: option.split)
  with Cons show ?case by (simp split: option.split)
qed

lemma header_lines_append:
  "header_lines r (xs @ ys) acc =
     (case header_lines r xs acc of (False, a) \<Rightarrow> (False, a) | (True, a) \<Rightarrow> header_lines r ys a)"
  by (induction xs arbitrary: acc) (auto split: option.split)

end
