(* ===== verification/Http2.thy ===== *)
theory Http2
  imports Hpack Http1
begin

text \<open>
  HTTP/2 framing and the connection object (\<^verbatim>\<open>include/uproxy/http2.h\<close>, \<^verbatim>\<open>src/http2.cpp\<close>).

  \<^verbatim>\<open>H2FrameType\<close> is an enumeration with underlying type \<^verbatim>\<open>uint8_t\<close> that is read from the wire
  by a cast, so its values are bytes with names for ten of them.  A writer is a function on the
  send buffer, as in the other codecs; \<open>on_send\<close> applies one to the connection.
  \<open>read_frame\<close> returns the frame it fills with the buffer it leaves.  The members of
  \<^verbatim>\<open>H2Conn\<close> are the record \<open>H2Conn\<close>; \<^verbatim>\<open>streams_\<close> is a map, and the accessors that use
  \<^verbatim>\<open>at\<close> return \<open>None\<close> where it throws.  \<open>send_window\<close> is the exact integer: the source adds to an
  \<^verbatim>\<open>int32_t\<close>, where leaving the range is undefined.
\<close>

section \<open>Constants\<close>

type_synonym H2FrameType = "8 word"

definition FT_DATA :: H2FrameType where "FT_DATA = 0x0"
definition FT_HEADERS :: H2FrameType where "FT_HEADERS = 0x1"
definition FT_RST_STREAM :: H2FrameType where "FT_RST_STREAM = 0x3"
definition FT_SETTINGS :: H2FrameType where "FT_SETTINGS = 0x4"
definition FT_PING :: H2FrameType where "FT_PING = 0x6"
definition FT_GOAWAY :: H2FrameType where "FT_GOAWAY = 0x7"
definition FT_WINDOW_UPDATE :: H2FrameType where "FT_WINDOW_UPDATE = 0x8"

lemmas frame_types =
  FT_DATA_def FT_HEADERS_def FT_RST_STREAM_def FT_SETTINGS_def FT_PING_def FT_GOAWAY_def
  FT_WINDOW_UPDATE_def

definition END_STREAM :: "8 word" where "END_STREAM = 0x1"
definition END_HEADERS :: "8 word" where "END_HEADERS = 0x4"
definition ACK :: "8 word" where "ACK = 0x1"

lemmas frame_flags = END_STREAM_def END_HEADERS_def ACK_def

datatype H2Error =
  NO_ERROR | PROTOCOL_ERROR | INTERNAL_ERROR | FLOW_CONTROL_ERROR | SETTINGS_TIMEOUT | STREAM_CLOSED
| FRAME_SIZE_ERROR | REFUSED_STREAM | CANCEL | COMPRESSION_ERROR | CONNECT_ERROR | ENHANCE_YOUR_CALM
| INADEQUATE_SECURITY | HTTP_1_1_REQUIRED

fun h2_error_code :: "H2Error \<Rightarrow> u32" where
  "h2_error_code NO_ERROR = 0x0"
| "h2_error_code PROTOCOL_ERROR = 0x1"
| "h2_error_code INTERNAL_ERROR = 0x2"
| "h2_error_code FLOW_CONTROL_ERROR = 0x3"
| "h2_error_code SETTINGS_TIMEOUT = 0x4"
| "h2_error_code STREAM_CLOSED = 0x5"
| "h2_error_code FRAME_SIZE_ERROR = 0x6"
| "h2_error_code REFUSED_STREAM = 0x7"
| "h2_error_code CANCEL = 0x8"
| "h2_error_code COMPRESSION_ERROR = 0x9"
| "h2_error_code CONNECT_ERROR = 0xa"
| "h2_error_code ENHANCE_YOUR_CALM = 0xb"
| "h2_error_code INADEQUATE_SECURITY = 0xc"
| "h2_error_code HTTP_1_1_REQUIRED = 0xd"

datatype H2Setting =
  HEADER_TABLE_SIZE | ENABLE_PUSH | MAX_CONCURRENT_STREAMS | INITIAL_WINDOW_SIZE | MAX_FRAME_SIZE
| MAX_HEADER_LIST_SIZE

fun h2_setting_code :: "H2Setting \<Rightarrow> u32" where
  "h2_setting_code HEADER_TABLE_SIZE = 0x1"
| "h2_setting_code ENABLE_PUSH = 0x2"
| "h2_setting_code MAX_CONCURRENT_STREAMS = 0x3"
| "h2_setting_code INITIAL_WINDOW_SIZE = 0x4"
| "h2_setting_code MAX_FRAME_SIZE = 0x5"
| "h2_setting_code MAX_HEADER_LIST_SIZE = 0x6"

definition H2_PREFACE :: string where
  "H2_PREFACE = ''PRI * HTTP/2.0'' @ CRLF @ CRLF @ ''SM'' @ CRLF @ CRLF"

record H2Frame =
  f_length :: u32
  f_type :: H2FrameType
  f_flags :: "8 word"
  f_stream_id :: u32
  f_payload :: bytes

definition new_H2Frame :: H2Frame where
  "new_H2Frame = \<lparr>f_length = 0, f_type = FT_DATA, f_flags = 0, f_stream_id = 0, f_payload = []\<rparr>"

section \<open>Writing frames\<close>

definition byte_at :: "u32 \<Rightarrow> nat \<Rightarrow> 8 word" where
  "byte_at v shift = ucast (drop_bit shift v AND 0xff)"

definition u32_bytes :: "u32 \<Rightarrow> bytes" where
  "u32_bytes v = [byte_at v 24, byte_at v 16, byte_at v 8, byte_at v 0]"

definition write_frame_header ::
  "u32 \<Rightarrow> H2FrameType \<Rightarrow> 8 word \<Rightarrow> u32 \<Rightarrow> RingBuffer \<Rightarrow> unit result \<times> RingBuffer" where
  "write_frame_header len type flags stream_id buf =
     (if len > 0x00ffffff \<or> stream_id AND 0x80000000 \<noteq> 0
      then (Inl (from_code Http2Protocol ''invalid frame header''), buf)
      else append_rb ([byte_at len 16, byte_at len 8, byte_at len 0, type, flags] @ u32_bytes stream_id) buf)"

definition append_u32 :: "u32 \<Rightarrow> RingBuffer \<Rightarrow> unit result \<times> RingBuffer" where
  "append_u32 v buf = append_rb (u32_bytes v) buf"

fun append_settings :: "(H2Setting \<times> u32) list \<Rightarrow> RingBuffer \<Rightarrow> unit result \<times> RingBuffer" where
  "append_settings [] buf = (Inr (), buf)"
| "append_settings ((setting, value) # settings) buf =
     try_then (append_rb ([byte_at (h2_setting_code setting) 8, byte_at (h2_setting_code setting) 0] @
                          u32_bytes value) buf)
       (\<lambda>_. append_settings settings)"

definition write_settings :: "(H2Setting \<times> u32) list \<Rightarrow> RingBuffer \<Rightarrow> unit result \<times> RingBuffer" where
  "write_settings settings buf =
     try_then (write_frame_header (word_of_nat (length settings * 6)) FT_SETTINGS 0 0 buf)
       (\<lambda>_. append_settings settings)"

definition write_settings_ack :: "RingBuffer \<Rightarrow> unit result \<times> RingBuffer" where
  "write_settings_ack buf = write_frame_header 0 FT_SETTINGS ACK 0 buf"

definition ping_payload :: "u64 \<Rightarrow> bytes" where
  "ping_payload data = map (\<lambda>i. ucast (drop_bit (i * 8) data AND 0xff)) (rev [0..<8])"

definition write_ping :: "u64 \<Rightarrow> bool \<Rightarrow> RingBuffer \<Rightarrow> unit result \<times> RingBuffer" where
  "write_ping data ack buf =
     try_then (write_frame_header 8 FT_PING (if ack then ACK else 0) 0 buf)
       (\<lambda>_. append_rb (ping_payload data))"

definition write_window_update :: "u32 \<Rightarrow> u32 \<Rightarrow> RingBuffer \<Rightarrow> unit result \<times> RingBuffer" where
  "write_window_update stream_id increment buf =
     (if increment = 0 \<or> increment > 0x7fffffff
      then (Inl (from_code Http2Protocol ''invalid window increment''), buf)
      else try_then (write_frame_header 4 FT_WINDOW_UPDATE 0 stream_id buf) (\<lambda>_. append_u32 increment))"

definition write_goaway :: "u32 \<Rightarrow> H2Error \<Rightarrow> string \<Rightarrow> RingBuffer \<Rightarrow> unit result \<times> RingBuffer" where
  "write_goaway last_stream_id err debug_data buf =
     try_then (write_frame_header (word_of_nat (8 + length debug_data)) FT_GOAWAY 0 0 buf)
       (\<lambda>_ b1. try_then (append_u32 (last_stream_id AND 0x7fffffff) b1)
         (\<lambda>_ b2. try_then (append_u32 (h2_error_code err) b2) (\<lambda>_. append_str debug_data)))"

definition write_rst_stream :: "u32 \<Rightarrow> H2Error \<Rightarrow> RingBuffer \<Rightarrow> unit result \<times> RingBuffer" where
  "write_rst_stream stream_id err buf =
     (if stream_id = 0 then (Inl (from_code Http2Protocol ''RST_STREAM on stream 0''), buf)
      else try_then (write_frame_header 4 FT_RST_STREAM 0 stream_id buf)
             (\<lambda>_. append_u32 (h2_error_code err)))"

definition write_headers :: "u32 \<Rightarrow> bytes \<Rightarrow> bool \<Rightarrow> u32 \<Rightarrow> RingBuffer \<Rightarrow> unit result \<times> RingBuffer" where
  "write_headers stream_id header_block end_stream max_frame_size buf =
     (if stream_id = 0 \<or> length header_block > unat max_frame_size
      then (Inl (from_code Http2Protocol ''invalid HEADERS frame''), buf)
      else try_then (write_frame_header (word_of_nat (length header_block)) FT_HEADERS
                       (END_HEADERS OR (if end_stream then END_STREAM else 0)) stream_id buf)
             (\<lambda>_. append_rb header_block))"

text \<open>The loop of \<^verbatim>\<open>write_data\<close> carries the data from \<^verbatim>\<open>offset\<close> on.\<close>

function write_data_loop ::
  "u32 \<Rightarrow> bytes \<Rightarrow> bool \<Rightarrow> nat \<Rightarrow> RingBuffer \<Rightarrow> unit result \<times> RingBuffer" where
  "write_data_loop stream_id data end_stream max_frame_size buf =
     (if data = [] \<or> max_frame_size = 0 then (Inr (), buf)
      else let chunk = min max_frame_size (length data);
               final_chunk = (end_stream \<and> chunk = length data)
           in try_then (write_frame_header (word_of_nat chunk) FT_DATA
                          (if final_chunk then END_STREAM else 0) stream_id buf)
                (\<lambda>_ b1. try_then (append_rb (take chunk data) b1)
                  (\<lambda>_. write_data_loop stream_id (drop chunk data) end_stream max_frame_size)))"
  by pat_completeness auto
termination
  by (relation "measure (\<lambda>(_, data, _). length data)") auto

declare write_data_loop.simps [simp del]

definition write_data :: "u32 \<Rightarrow> bytes \<Rightarrow> bool \<Rightarrow> u32 \<Rightarrow> RingBuffer \<Rightarrow> unit result \<times> RingBuffer" where
  "write_data stream_id data end_stream max_frame_size buf =
     (if stream_id = 0 \<or> max_frame_size = 0
      then (Inl (from_code Http2Protocol ''invalid DATA frame''), buf)
      else write_data_loop stream_id data end_stream (unat max_frame_size) buf)"

section \<open>Reading frames\<close>

definition FRAME_HEADER_SIZE :: nat where "FRAME_HEADER_SIZE = 9"

definition join24 :: "8 word \<Rightarrow> 8 word \<Rightarrow> 8 word \<Rightarrow> u32" where
  "join24 a b c = push_bit 16 (ucast a) OR push_bit 8 (ucast b) OR ucast c"

definition join32 :: "8 word \<Rightarrow> 8 word \<Rightarrow> 8 word \<Rightarrow> 8 word \<Rightarrow> u32" where
  "join32 a b c d =
     (push_bit 24 (ucast a) OR push_bit 16 (ucast b) OR push_bit 8 (ucast c) OR ucast d) AND 0x7fffffff"

definition read_frame :: "u32 \<Rightarrow> RingBuffer \<Rightarrow> H2Frame \<Rightarrow> ParseResult \<times> H2Frame \<times> RingBuffer" where
  "read_frame max_frame_size buf frame =
     (if readable buf < FRAME_HEADER_SIZE then (Incomplete, frame, buf)
      else let h = peek FRAME_HEADER_SIZE buf;
               len = join24 (h ! 0) (h ! 1) (h ! 2)
           in if len > max_frame_size then (PError, frame, buf)
              else if readable buf < FRAME_HEADER_SIZE + unat len then (Incomplete, frame, buf)
              else let buf1 = commit_read FRAME_HEADER_SIZE buf
                   in (Complete,
                       \<lparr>f_length = len, f_type = h ! 3, f_flags = h ! 4,
                        f_stream_id = join32 (h ! 5) (h ! 6) (h ! 7) (h ! 8),
                        f_payload = peek (unat len) buf1\<rparr>,
                       commit_read (unat len) buf1))"

section \<open>The connection\<close>

datatype H2StreamState = Idle | Open | HalfClosedLocal | HalfClosedRemote | Closed

text \<open>The windows are \<^verbatim>\<open>int32_t\<close>; the model keeps the mathematical value, so a value outside the
  32-bit range stands for a signed overflow, which C++ leaves undefined.\<close>

record H2Stream =
  st_id :: u32
  st_state :: H2StreamState
  recv_window :: int
  send_window :: int
  st_recv_buf :: RingBuffer
  st_send_buf :: RingBuffer
  request_headers :: "HpackHeader list"
  response_headers :: "HpackHeader list"
  end_stream_recv :: bool
  end_stream_sent :: bool

definition new_H2Stream :: H2Stream where
  "new_H2Stream =
     \<lparr>st_id = 0, st_state = Idle, recv_window = 65535, send_window = 65535,
      st_recv_buf = new_RingBuffer 65536, st_send_buf = new_RingBuffer 65536,
      request_headers = [], response_headers = [], end_stream_recv = False, end_stream_sent = False\<rparr>"

record H2Conn =
  is_server :: bool
  hpack_enc :: HpackTable
  hpack_dec :: HpackTable
  streams :: "u32 \<Rightarrow> H2Stream option"
  last_peer_stream :: u32
  c_max_frame_size :: u32
  recv_buf :: RingBuffer
  send_buf :: RingBuffer
  c_done :: bool
  saw_preface :: bool

definition new_H2Conn :: "bool \<Rightarrow> H2Conn" where
  "new_H2Conn server =
     \<lparr>is_server = server, hpack_enc = new_HpackTable, hpack_dec = new_HpackTable,
      streams = (\<lambda>_. None), last_peer_stream = 0, c_max_frame_size = 16384,
      recv_buf = new_RingBuffer 65536,
      send_buf = (if server then new_RingBuffer 65536
                  else snd (append_str H2_PREFACE (new_RingBuffer 65536))),
      c_done = False, saw_preface = False\<rparr>"

definition on_send :: "(RingBuffer \<Rightarrow> unit result \<times> RingBuffer) \<Rightarrow> H2Conn \<Rightarrow> unit result \<times> H2Conn" where
  "on_send w c = (case w (send_buf c) of (r, b) \<Rightarrow> (r, c\<lparr>send_buf := b\<rparr>))"

definition feed :: "bytes \<Rightarrow> H2Conn \<Rightarrow> unit result \<times> H2Conn" where
  "feed data c = (case append_rb data (recv_buf c) of (r, b) \<Rightarrow> (r, c\<lparr>recv_buf := b\<rparr>))"

definition get_or_create_stream :: "u32 \<Rightarrow> H2Conn \<Rightarrow> H2Stream \<times> H2Conn" where
  "get_or_create_stream sid c =
     (let s = (case streams c sid of None \<Rightarrow> new_H2Stream | Some s \<Rightarrow> s)\<lparr>st_id := sid\<rparr>
      in (s, c\<lparr>streams := (streams c)(sid \<mapsto> s)\<rparr>))"

definition put_stream :: "u32 \<Rightarrow> H2Stream \<Rightarrow> H2Conn \<Rightarrow> H2Conn" where
  "put_stream sid s c = c\<lparr>streams := (streams c)(sid \<mapsto> s)\<rparr>"

definition ping_data :: "bytes \<Rightarrow> u64" where
  "ping_data payload = foldl (\<lambda>data b. push_bit 8 data OR ucast b) 0 payload"

text \<open>What \<^verbatim>\<open>handle_frame\<close> does, one definition per kind of frame; the second component of the state
  is \<^verbatim>\<open>ready\<close>.\<close>

definition handle_settings :: "H2Frame \<Rightarrow> H2Conn \<Rightarrow> unit result \<times> H2Conn" where
  "handle_settings f c =
     (if f_stream_id f \<noteq> 0 \<or> f_length f mod 6 \<noteq> 0 then (Inl (from_code Http2Protocol ''bad SETTINGS''), c)
      else if f_flags f AND ACK = 0 then on_send write_settings_ack c
      else (Inr (), c))"

definition handle_ping :: "H2Frame \<Rightarrow> H2Conn \<Rightarrow> unit result \<times> H2Conn" where
  "handle_ping f c =
     (if f_stream_id f \<noteq> 0 \<or> f_length f \<noteq> 8 then (Inl (from_code Http2Protocol ''bad PING''), c)
      else if f_flags f AND ACK = 0 then on_send (write_ping (ping_data (f_payload f)) True) c
      else (Inr (), c))"

definition after_headers :: "H2Frame \<Rightarrow> H2StreamState \<Rightarrow> H2StreamState" where
  "after_headers f st =
     (let es = (f_flags f AND END_STREAM \<noteq> 0)
      in if st = Idle then if es then HalfClosedRemote else Open
         else if st = Open \<and> es then HalfClosedRemote
         else if st = HalfClosedLocal \<and> es then Closed
         else st)"

definition handle_headers ::
  "H2Frame \<Rightarrow> H2Stream \<Rightarrow> H2Conn \<Rightarrow> u32 list \<Rightarrow> unit result \<times> H2Conn \<times> u32 list" where
  "handle_headers f s c ready =
     (if st_state s \<noteq> Idle \<and> st_state s \<noteq> Open \<and> st_state s \<noteq> HalfClosedLocal
      then (case on_send (write_rst_stream (f_stream_id f) STREAM_CLOSED) c of (r, c') \<Rightarrow> (r, c', ready))
      else if f_flags f AND END_HEADERS = 0
      then (Inl (from_code Http2Protocol ''CONTINUATION unsupported in simple block''), c, ready)
      else case hpack_decode (hpack_dec c) (f_payload f) (request_headers s) of
             (r, dec, hs) \<Rightarrow>
               let c1 = put_stream (f_stream_id f) (s\<lparr>request_headers := hs\<rparr>) (c\<lparr>hpack_dec := dec\<rparr>)
               in case r of
                    Inl e \<Rightarrow> (Inl e, c1, ready)
                  | Inr _ \<Rightarrow>
                      (Inr (),
                       put_stream (f_stream_id f)
                         (s\<lparr>request_headers := hs, st_state := after_headers f (st_state s)\<rparr>) c1,
                       if f_flags f AND END_STREAM \<noteq> 0 then ready @ [f_stream_id f] else ready))"

definition after_data :: "H2StreamState \<Rightarrow> H2StreamState" where
  "after_data st =
     (if st = Open then HalfClosedRemote else if st = HalfClosedLocal then Closed else st)"

definition handle_data ::
  "H2Frame \<Rightarrow> H2Stream \<Rightarrow> H2Conn \<Rightarrow> u32 list \<Rightarrow> unit result \<times> H2Conn \<times> u32 list" where
  "handle_data f s c ready =
     (if st_state s = Idle then (Inl (from_code Http2Protocol ''DATA on idle stream''), c, ready)
      else if st_state s = HalfClosedRemote \<or> st_state s = Closed
      then (case on_send (write_rst_stream (f_stream_id f) STREAM_CLOSED) c of (r, c') \<Rightarrow> (r, c', ready))
      else if st_state s \<noteq> Open \<and> st_state s \<noteq> HalfClosedLocal
      then (Inl (from_code Http2Protocol ''DATA on closed stream''), c, ready)
      else case append_rb (f_payload f) (st_recv_buf s) of
             (Inl e, b) \<Rightarrow> (Inl e, put_stream (f_stream_id f) (s\<lparr>st_recv_buf := b\<rparr>) c, ready)
           | (Inr _, b) \<Rightarrow>
               if f_flags f AND END_STREAM \<noteq> 0
               then (Inr (),
                     put_stream (f_stream_id f) (s\<lparr>st_recv_buf := b, st_state := after_data (st_state s)\<rparr>) c,
                     ready @ [f_stream_id f])
               else (Inr (), put_stream (f_stream_id f) (s\<lparr>st_recv_buf := b\<rparr>) c, ready))"

definition handle_window_update :: "H2Frame \<Rightarrow> H2Stream \<Rightarrow> H2Conn \<Rightarrow> unit result \<times> H2Conn" where
  "handle_window_update f s c =
     (if f_length f \<noteq> 4 \<or> length (f_payload f) \<noteq> 4
      then (Inl (from_code Http2Protocol ''bad WINDOW_UPDATE''), c)
      else let p = f_payload f; inc = join32 (p ! 0) (p ! 1) (p ! 2) (p ! 3)
           in if inc = 0 then (Inl (from_code Http2Protocol ''zero WINDOW_UPDATE''), c)
              else (Inr (), put_stream (f_stream_id f) (s\<lparr>send_window := send_window s + uint inc\<rparr>) c))"

definition handle_frame :: "H2Frame \<Rightarrow> H2Conn \<Rightarrow> u32 list \<Rightarrow> unit result \<times> H2Conn \<times> u32 list" where
  "handle_frame f c ready =
     (if f_type f = FT_SETTINGS then (case handle_settings f c of (r, c') \<Rightarrow> (r, c', ready))
      else if f_type f = FT_PING then (case handle_ping f c of (r, c') \<Rightarrow> (r, c', ready))
      else if f_type f = FT_GOAWAY then (Inr (), c\<lparr>c_done := True\<rparr>, ready)
      else if f_stream_id f = 0
      then (Inl (from_code Http2Protocol ''stream frame on stream 0''), c, ready)
      else let c1 = c\<lparr>last_peer_stream := max (last_peer_stream c) (f_stream_id f)\<rparr>;
               (s, c2) = get_or_create_stream (f_stream_id f) c1
           in if f_type f = FT_HEADERS then handle_headers f s c2 ready
              else if f_type f = FT_DATA then handle_data f s c2 ready
              else if f_type f = FT_WINDOW_UPDATE
              then (case handle_window_update f s c2 of (r, c') \<Rightarrow> (r, c', ready))
              else (Inr (), c2, ready))"

lemma recv_buf_on_send [simp]: "recv_buf (snd (on_send w c)) = recv_buf c"
  by (simp add: on_send_def split: prod.split)

lemma recv_buf_put_stream [simp]: "recv_buf (put_stream sid s c) = recv_buf c"
  by (simp add: put_stream_def)

lemma handle_frame_recv_buf: "handle_frame f c ready = (r, c', ready') \<Longrightarrow> recv_buf c' = recv_buf c"
  using recv_buf_on_send
  by (auto simp: handle_frame_def handle_settings_def handle_ping_def handle_headers_def handle_data_def
      handle_window_update_def get_or_create_stream_def on_send_def Let_def
      split: if_splits prod.splits sum.splits)

lemma read_frame_shorter:
  "read_frame m buf f0 = (Complete, f, buf') \<Longrightarrow> readable buf' < readable buf"
  by (auto simp: read_frame_def FRAME_HEADER_SIZE_def commit_read_def readable_def Let_def split: if_splits)

text \<open>The \<^verbatim>\<open>for (;;)\<close> of \<^verbatim>\<open>process\<close>: every frame read shortens the buffer by its header at least.\<close>

function process_loop :: "H2Conn \<Rightarrow> u32 list \<Rightarrow> u32 list result \<times> H2Conn" where
  "process_loop c ready =
     (case read_frame (c_max_frame_size c) (recv_buf c) new_H2Frame of
        (Incomplete, _, b) \<Rightarrow> (Inr ready, c\<lparr>recv_buf := b\<rparr>)
      | (PError, _, b) \<Rightarrow>
          (Inl (from_code Http2Protocol ''invalid HTTP/2 frame''), c\<lparr>recv_buf := b, c_done := True\<rparr>)
      | (Complete, f, b) \<Rightarrow>
          (case handle_frame f (c\<lparr>recv_buf := b\<rparr>) ready of
             (Inl e, c', _) \<Rightarrow> (Inl e, c')
           | (Inr _, c', ready') \<Rightarrow> process_loop c' ready'))"
  by pat_completeness auto
termination
  by (relation "measure (\<lambda>(c, _). readable (recv_buf c))")
    (auto dest!: read_frame_shorter [OF sym] handle_frame_recv_buf [OF sym])

declare process_loop.simps [simp del]

definition process :: "H2Conn \<Rightarrow> u32 list result \<times> H2Conn" where
  "process c =
     (if is_server c \<and> \<not> saw_preface c then
        if readable (recv_buf c) < length H2_PREFACE then (Inr [], c)
        else if string_of_bytes (peek (length H2_PREFACE) (recv_buf c)) \<noteq> H2_PREFACE
        then (Inl (from_code Http2Protocol ''invalid HTTP/2 preface''), c\<lparr>c_done := True\<rparr>)
        else let c1 = c\<lparr>recv_buf := commit_read (length H2_PREFACE) (recv_buf c), saw_preface := True\<rparr>
             in case on_send (write_settings []) c1 of
                  (Inl e, c2) \<Rightarrow> (Inl e, c2)
                | (Inr _, c2) \<Rightarrow> process_loop c2 []
      else process_loop c [])"

definition stream_headers :: "u32 \<Rightarrow> H2Conn \<Rightarrow> HpackHeader list option" where
  "stream_headers sid c = map_option request_headers (streams c sid)"

definition stream_body :: "u32 \<Rightarrow> H2Conn \<Rightarrow> bytes option" where
  "stream_body sid c = map_option (\<lambda>s. peek (readable (st_recv_buf s)) (st_recv_buf s)) (streams c sid)"

definition consume_body :: "u32 \<Rightarrow> nat \<Rightarrow> H2Conn \<Rightarrow> H2Conn option" where
  "consume_body sid n c =
     map_option (\<lambda>s. put_stream sid (s\<lparr>st_recv_buf := commit_read n (st_recv_buf s)\<rparr>) c) (streams c sid)"

definition send_response ::
  "u32 \<Rightarrow> HpackHeader list \<Rightarrow> bytes \<Rightarrow> bool \<Rightarrow> H2Conn \<Rightarrow> unit result \<times> H2Conn" where
  "send_response sid headers body end_stream c =
     (case hpack_encode (hpack_enc c) headers (new_RingBuffer 4096) of
        (Inl e, enc, _) \<Rightarrow> (Inl e, c\<lparr>hpack_enc := enc\<rparr>)
      | (Inr _, enc, encoded) \<Rightarrow>
          let c1 = c\<lparr>hpack_enc := enc\<rparr>;
              block = peek (readable encoded) encoded
          in try_then (on_send (write_headers sid block (body = [] \<and> end_stream) (c_max_frame_size c1)) c1)
               (\<lambda>_ c2. if body \<noteq> []
                       then on_send (write_data sid body end_stream (c_max_frame_size c2)) c2
                       else (Inr (), c2)))"

definition send_window_update :: "u32 \<Rightarrow> u32 \<Rightarrow> H2Conn \<Rightarrow> unit result \<times> H2Conn" where
  "send_window_update sid increment c = on_send (write_window_update sid increment) c"

definition pending_output :: "H2Conn \<Rightarrow> bytes" where
  "pending_output c = peek (readable (send_buf c)) (send_buf c)"

definition consume_output :: "nat \<Rightarrow> H2Conn \<Rightarrow> H2Conn" where
  "consume_output n c = c\<lparr>send_buf := commit_read n (send_buf c)\<rparr>"

definition goaway :: "H2Error \<Rightarrow> string \<Rightarrow> H2Conn \<Rightarrow> unit result \<times> H2Conn" where
  "goaway err debug_data c =
     on_send (write_goaway (last_peer_stream c) err debug_data) (c\<lparr>c_done := True\<rparr>)"

definition is_done :: "H2Conn \<Rightarrow> bool" where
  "is_done c = c_done c"

end
