(* ===== verification/Http2_Frames.thy ===== *)
theory Http2_Frames
  imports Http2
begin

text \<open>
  Frames as byte strings: what the writers emit, that the reader is its inverse, and that the
  reader's outcome does not change when more bytes arrive.
\<close>

section \<open>Big-endian numbers\<close>

lemma bit_byte_at: "bit (byte_at v s) i \<longleftrightarrow> i < 8 \<and> bit v (s + i)"
proof -
  have m: "(0xff :: u32) = mask 8" by (simp add: mask_eq_exp_minus_1)
  show ?thesis unfolding byte_at_def m by (auto simp: bit_simps dest: bit_imp_le_length)
qed

lemma bit_byte_high: "bit (b :: 8 word) i \<Longrightarrow> i < 8"
  using bit_imp_le_length by force

lemma bit_31: "(0x7fffffff :: u32) = mask 31"
  by (simp add: mask_eq_exp_minus_1)

lemma bit_join32:
  "i < 32 \<Longrightarrow> bit (join32 a b c d) i \<longleftrightarrow> i < 31 \<and>
     (if i < 8 then bit d i else if i < 16 then bit c (i - 8) else if i < 24 then bit b (i - 16) else bit a (i - 24))"
  unfolding join32_def bit_31 by (auto simp: bit_simps dest: bit_byte_high)

lemma bit_join24:
  "i < 32 \<Longrightarrow> bit (join24 a b c) i \<longleftrightarrow> i < 24 \<and>
     (if i < 8 then bit c i else if i < 16 then bit b (i - 8) else bit a (i - 16))"
  unfolding join24_def by (auto simp: bit_simps dest: bit_byte_high)

lemma join32_bytes: "v AND 0x80000000 = 0 \<Longrightarrow> join32 (byte_at v 24) (byte_at v 16) (byte_at v 8) (byte_at v 0) = v"
proof -
  assume "v AND 0x80000000 = 0"
  then have "\<not> bit v 31" using and_exp_eq_0_iff_not_bit [of v 31] by simp
  then show ?thesis
    by (intro bit_word_eqI) (auto simp: bit_join32 bit_byte_at less_Suc_eq numeral_eq_Suc)
qed

lemma join24_bytes:
  assumes "unat v < 2 ^ 24"
  shows "join24 (byte_at v 16) (byte_at v 8) (byte_at v 0) = v"
proof (rule bit_word_eqI)
  fix i assume "i < LENGTH(32)"
  then have i: "i < 32" by simp
  have "bit v i \<Longrightarrow> i < 24"
  proof (rule ccontr)
    assume b: "bit v i" "\<not> i < 24"
    have "take_bit 24 (unat v) = unat v" using assms by (rule take_bit_nat_eq_self)
    moreover have "bit (unat v) i" using b(1) by (simp add: bit_unsigned_iff)
    ultimately show False using b(2) by (metis bit_take_bit_iff)
  qed
  with i show "bit (join24 (byte_at v 16) (byte_at v 8) (byte_at v 0)) i = bit v i"
    by (auto simp: bit_join24 bit_byte_at)
qed

section \<open>Reading a frame from a byte string\<close>

definition parse_frame :: "u32 \<Rightarrow> bytes \<Rightarrow> H2Frame \<Rightarrow> ParseResult \<times> H2Frame \<times> bytes" where
  "parse_frame m bs f0 =
     (if length bs < 9 then (Incomplete, f0, bs)
      else let len = join24 (bs ! 0) (bs ! 1) (bs ! 2)
           in if len > m then (PError, f0, bs)
              else if length bs < 9 + unat len then (Incomplete, f0, bs)
              else (Complete,
                    \<lparr>f_length = len, f_type = bs ! 3, f_flags = bs ! 4,
                     f_stream_id = join32 (bs ! 5) (bs ! 6) (bs ! 7) (bs ! 8),
                     f_payload = take (unat len) (drop 9 bs)\<rparr>,
                    drop (unat len) (drop 9 bs)))"

lemma read_frame_contents:
  assumes "rb_inv buf" "read_frame m buf f0 = (r, f, buf')"
  shows "rb_inv buf' \<and> parse_frame m (contents buf) f0 = (r, f, contents buf')"
proof -
  have nth: "peek 9 buf ! i = contents buf ! i" if "i < 9" for i
    using that assms(1) by (simp add: rbq.peek_law)
  show ?thesis
    using assms nth
    by (auto simp: read_frame_def parse_frame_def FRAME_HEADER_SIZE_def Let_def readable_contents
        rbq.peek_law rbq.drop_law rbq.inv_drop split: if_splits)
qed

lemma nth_append9: "9 \<le> length bs \<Longrightarrow> i < 9 \<Longrightarrow> (bs @ x) ! i = bs ! i"
  by (simp add: nth_append)

text \<open>A frame that has been read, and a refusal, do not depend on what follows.\<close>

lemma parse_frame_append:
  "parse_frame m bs f0 = (Complete, f, rest) \<Longrightarrow> parse_frame m (bs @ x) f0 = (Complete, f, rest @ x)"
  "parse_frame m bs f0 = (PError, f, rest) \<Longrightarrow> parse_frame m (bs @ x) f0 = (PError, f, rest @ x)"
  by (auto simp: parse_frame_def Let_def nth_append9 not_less split: if_splits)

lemma parse_frame_Incomplete: "parse_frame m bs f0 = (Incomplete, f, rest) \<Longrightarrow> f = f0 \<and> rest = bs"
  by (auto simp: parse_frame_def Let_def split: if_splits)

lemma parse_frame_shorter: "parse_frame m bs f0 = (Complete, f, rest) \<Longrightarrow> length rest < length bs"
  by (auto simp: parse_frame_def Let_def split: if_splits)

section \<open>Writing a frame\<close>

definition header_bytes :: "H2Frame \<Rightarrow> bytes" where
  "header_bytes f =
     [byte_at (f_length f) 16, byte_at (f_length f) 8, byte_at (f_length f) 0, f_type f, f_flags f] @
     u32_bytes (f_stream_id f)"

definition frame_bytes :: "H2Frame \<Rightarrow> bytes" where
  "frame_bytes f = header_bytes f @ f_payload f"

definition frame_ok :: "u32 \<Rightarrow> H2Frame \<Rightarrow> bool" where
  "frame_ok m f \<longleftrightarrow> unat (f_length f) = length (f_payload f) \<and> f_length f \<le> m \<and>
     unat (f_length f) < 2 ^ 24 \<and> f_stream_id f AND 0x80000000 = 0"

lemma parse_frame_bytes:
  assumes "frame_ok m f"
  shows "parse_frame m (frame_bytes f @ rest) f0 = (Complete, f, rest)"
  using assms
  by (cases f) (auto simp: parse_frame_def frame_bytes_def header_bytes_def frame_ok_def u32_bytes_def Let_def not_less
      join24_bytes join32_bytes simp del: drop_drop)

text \<open>\<open>mk_frame\<close>: the frame a writer means.\<close>

definition mk_frame :: "H2FrameType \<Rightarrow> 8 word \<Rightarrow> u32 \<Rightarrow> bytes \<Rightarrow> H2Frame" where
  "mk_frame t fl sid p =
     \<lparr>f_length = word_of_nat (length p), f_type = t, f_flags = fl, f_stream_id = sid, f_payload = p\<rparr>"

lemma mk_frame_simps [simp]:
  "f_length (mk_frame t fl sid p) = word_of_nat (length p)" "f_type (mk_frame t fl sid p) = t"
  "f_flags (mk_frame t fl sid p) = fl" "f_stream_id (mk_frame t fl sid p) = sid"
  "f_payload (mk_frame t fl sid p) = p"
  by (simp_all add: mk_frame_def)

lemma unat_len24: "n < 2 ^ 24 \<Longrightarrow> unat (word_of_nat n :: u32) = n"
  by (simp add: unat_of_nat)

lemma frame_ok_mk:
  "length p < 2 ^ 24 \<Longrightarrow> length p \<le> unat m \<Longrightarrow> sid AND 0x80000000 = 0 \<Longrightarrow> frame_ok m (mk_frame t fl sid p)"
  by (simp add: frame_ok_def unat_len24 word_le_nat_alt)

text \<open>A header followed by its payload emits the frame.\<close>

lemma emits_frame_header:
  assumes "length p < 2 ^ 24" "sid AND 0x80000000 = 0"
  shows "rbq.emits (write_frame_header (word_of_nat (length p)) t fl sid) (header_bytes (mk_frame t fl sid p))"
proof -
  have "write_frame_header (word_of_nat (length p)) t fl sid = append_rb (header_bytes (mk_frame t fl sid p))"
    using assms(2) unat_len24 [OF assms(1)] assms(1)
    by (auto simp: write_frame_header_def fun_eq_iff word_less_nat_alt header_bytes_def)
  then show ?thesis using rbq.emits_push by simp
qed

lemma emits_header:
  assumes "length p < 2 ^ 24" "sid AND 0x80000000 = 0" "rbq.emits g p"
  shows "rbq.emits (\<lambda>buf. try_then (write_frame_header (word_of_nat (length p)) t fl sid buf) (\<lambda>_. g))
    (frame_bytes (mk_frame t fl sid p))"
  using rbq.emits_seq [OF emits_frame_header [OF assms(1,2)] assms(3), of t fl] by (simp add: frame_bytes_def)

text \<open>The frames of \<^verbatim>\<open>write_data\<close>.\<close>

function data_frames :: "u32 \<Rightarrow> bytes \<Rightarrow> bool \<Rightarrow> nat \<Rightarrow> H2Frame list" where
  "data_frames sid data es m =
     (if data = [] \<or> m = 0 then []
      else let n = min m (length data)
           in mk_frame FT_DATA (if es \<and> n = length data then END_STREAM else 0) sid (take n data) #
              data_frames sid (drop n data) es m)"
  by pat_completeness auto
termination
  by (relation "measure (\<lambda>(_, data, _). length data)") auto

declare data_frames.simps [simp del]

definition frames_bytes :: "H2Frame list \<Rightarrow> bytes" where
  "frames_bytes fs = concat (map frame_bytes fs)"

lemma frames_bytes_simps [simp]:
  "frames_bytes [] = []" "frames_bytes (f # fs) = frame_bytes f @ frames_bytes fs"
  by (simp_all add: frames_bytes_def)

lemma emits_write_data_loop:
  assumes "m < 2 ^ 24" "sid AND 0x80000000 = 0"
  shows "rbq.emits (write_data_loop sid data es m) (frames_bytes (data_frames sid data es m))"
proof (induction data rule: length_induct)
  case (1 data)
  show ?case
  proof (cases "data = [] \<or> m = 0")
    case True
    then have "write_data_loop sid data es m = (\<lambda>buf. (Inr (), buf))" "data_frames sid data es m = []"
      by (auto simp: fun_eq_iff write_data_loop.simps data_frames.simps)
    then show ?thesis using rbq.emits_nothing by simp
  next
    case False
    let ?n = "min m (length data)"
    let ?fl = "if es \<and> ?n = length data then END_STREAM else 0"
    have len: "length (take ?n data) = ?n" "length (take ?n data) < 2 ^ 24" using assms(1) by auto
    have IH: "rbq.emits (write_data_loop sid (drop ?n data) es m) (frames_bytes (data_frames sid (drop ?n data) es m))"
      using 1 False by (auto simp: min_def)
    note e = emits_header [OF len(2) assms(2) rbq.emits_push, of FT_DATA ?fl, unfolded len(1)]
    have "write_data_loop sid data es m = (\<lambda>buf.
        try_then (try_then (write_frame_header (word_of_nat ?n) FT_DATA ?fl sid buf) (\<lambda>_. append_rb (take ?n data)))
          (\<lambda>_. write_data_loop sid (drop ?n data) es m))"
      using False by (simp add: fun_eq_iff write_data_loop.simps [of sid data] Let_def try_then_assoc)
    moreover have "frames_bytes (data_frames sid data es m) =
        frame_bytes (mk_frame FT_DATA ?fl sid (take ?n data)) @ frames_bytes (data_frames sid (drop ?n data) es m)"
      using False by (simp add: data_frames.simps [of sid data] Let_def)
    ultimately show ?thesis using rbq.emits_seq [OF e IH] by simp
  qed
qed

lemma data_frames_spec:
  assumes "0 < m" "m < 2 ^ 24" "sid AND 0x80000000 = 0"
  shows "concat (map f_payload (data_frames sid data es m)) = data \<and>
    list_all (\<lambda>f. frame_ok (word_of_nat m) f \<and> f_type f = FT_DATA \<and> f_stream_id f = sid \<and> f_payload f \<noteq> [])
      (data_frames sid data es m) \<and>
    (data \<noteq> [] \<longrightarrow> map f_flags (data_frames sid data es m) =
       replicate (length (data_frames sid data es m) - 1) 0 @ [if es then END_STREAM else 0]) \<and>
    (data_frames sid data es m = [] \<longleftrightarrow> data = [])"
proof (induction data rule: length_induct)
  case (1 data)
  show ?case
  proof (cases "data = []")
    case True
    then show ?thesis by (simp add: data_frames.simps)
  next
    case False
    let ?n = "min m (length data)"
    let ?rest = "data_frames sid (drop ?n data) es m"
    let ?f = "mk_frame FT_DATA (if es \<and> ?n = length data then END_STREAM else 0) sid (take ?n data)"
    have d: "data_frames sid data es m = ?f # ?rest"
      using False assms(1) by (simp add: data_frames.simps [of sid data] Let_def)
    have "length (drop ?n data) < length data" using False assms(1) by simp
    note IH = 1 [rule_format, OF this]
    have ok: "frame_ok (word_of_nat m) ?f"
      using assms by (intro frame_ok_mk) (simp_all add: unat_len24)
    have fl: "map f_flags (?f # ?rest) = replicate (length (?f # ?rest) - 1) 0 @ [if es then END_STREAM else 0]"
    proof (cases "drop ?n data = []")
      case True
      then have "?rest = []" "?n = length data" using IH by auto
      then show ?thesis by simp
    next
      case nonempty: False
      then have "?n \<noteq> length data" by auto
      moreover have "?rest \<noteq> []" using IH nonempty by blast
      ultimately show ?thesis using IH nonempty by (cases ?rest) (auto simp: replicate_append_same)
    qed
    have "concat (map f_payload (?f # ?rest)) = data" using IH by simp
    moreover have "list_all (\<lambda>f. frame_ok (word_of_nat m) f \<and> f_type f = FT_DATA \<and> f_stream_id f = sid \<and>
        f_payload f \<noteq> []) (?f # ?rest)"
      using IH ok False assms(1) by simp
    ultimately show ?thesis unfolding d using fl False by blast
  qed
qed

section \<open>Properties\<close>

text \<open>C32. Frames round trip: for every type, flags, stream id below 2^31 and payload of at most the
  maximum frame size, a frame header and the payload written to an empty buffer, followed by any
  bytes, are read by read_frame as exactly that frame, and exactly its bytes are consumed.\<close>

theorem frame_round_trip:
  assumes "length p < 2 ^ 24" "length p \<le> unat m" "sid AND 0x80000000 = 0" "rb_inv buf" "contents buf = []"
  shows "\<exists>b1 b2 b3. write_frame_header (word_of_nat (length p)) t fl sid buf = (Inr (), b1) \<and>
    append_rb (p @ rest) b1 = (Inr (), b2) \<and>
    read_frame m b2 f0 = (Complete, \<lparr>f_length = word_of_nat (length p), f_type = t, f_flags = fl,
      f_stream_id = sid, f_payload = p\<rparr>, b3) \<and> contents b3 = rest"
proof -
  let ?f = "mk_frame t fl sid p"
  obtain b1 where b1: "write_frame_header (word_of_nat (length p)) t fl sid buf = (Inr (), b1)" "rb_inv b1"
    "contents b1 = header_bytes ?f"
    using rbq.emitsD [OF emits_frame_header [OF assms(1,3)] assms(4)] assms(5) by (metis append_Nil)
  obtain b2 where b2: "append_rb (p @ rest) b1 = (Inr (), b2)" "rb_inv b2" "contents b2 = frame_bytes ?f @ rest"
    using rbq.emitsD [OF rbq.emits_push b1(2)] b1(3) by (metis append_assoc frame_bytes_def mk_frame_simps(5))
  obtain r f b3 where b3: "read_frame m b2 f0 = (r, f, b3)" by (cases "read_frame m b2 f0") auto
  have "parse_frame m (contents b2) f0 = (Complete, ?f, rest)"
    unfolding b2(3) by (intro parse_frame_bytes frame_ok_mk assms(1-3))
  with read_frame_contents [OF b2(2) b3] have "r = Complete" "f = ?f" "contents b3 = rest" by auto
  with b1 b2 b3 show ?thesis by (simp add: mk_frame_def)
qed

theorem frame_round_trip_witness:
  "\<exists>b1 b2 b3. write_frame_header (word_of_nat (length [1, 2, 3 :: 8 word])) FT_DATA END_STREAM 5 (new_RingBuffer 8) = (Inr (), b1) \<and>
    append_rb ([1, 2, 3] @ [9]) b1 = (Inr (), b2) \<and>
    read_frame 16384 b2 new_H2Frame = (Complete, \<lparr>f_length = word_of_nat (length [1, 2, 3 :: 8 word]),
      f_type = FT_DATA, f_flags = END_STREAM, f_stream_id = 5, f_payload = [1, 2, 3]\<rparr>, b3) \<and> contents b3 = [9]"
  by (rule frame_round_trip) simp_all

text \<open>C33. DATA framing: for every stream id from 1 to 2^31 - 1 and every maximum frame size from 1
  to 2^24 - 1, write_data emits a sequence of well-formed DATA frames on that stream whose
  payloads, none empty, concatenate to the data; END_STREAM is set on the last frame only, and
  only when requested.  For empty data there is no frame at all, so an END_STREAM request is
  lost.\<close>

theorem write_data_frames:
  assumes "sid \<noteq> 0" "sid AND 0x80000000 = 0" "m \<noteq> 0" "unat m < 2 ^ 24" "rb_inv buf"
  shows "\<exists>out fs. write_data sid data es m buf = (Inr (), out) \<and>
    contents out = contents buf @ frames_bytes fs \<and> concat (map f_payload fs) = data \<and>
    list_all (\<lambda>f. frame_ok m f \<and> f_type f = FT_DATA \<and> f_stream_id f = sid \<and> f_payload f \<noteq> []) fs \<and>
    (data \<noteq> [] \<longrightarrow> map f_flags fs = replicate (length fs - 1) 0 @ [if es then END_STREAM else 0]) \<and>
    (fs = [] \<longleftrightarrow> data = [])"
proof -
  have pos: "0 < unat m" using assms(3) by (simp add: word_neq_0_conv word_less_nat_alt)
  have w: "write_data sid data es m buf = write_data_loop sid data es (unat m) buf"
    using assms(1,3) by (simp add: write_data_def)
  obtain out where "write_data_loop sid data es (unat m) buf = (Inr (), out)"
    "contents out = contents buf @ frames_bytes (data_frames sid data es (unat m))"
    using rbq.emitsD [OF emits_write_data_loop [OF assms(4,2)] assms(5)] .
  with w data_frames_spec [OF pos assms(4,2), of data es] show ?thesis
    by (intro exI [of _ out] exI [of _ "data_frames sid data es (unat m)"]) simp
qed

theorem write_data_frames_witness:
  "\<exists>out fs. write_data 1 [1, 2, 3] True 2 (new_RingBuffer 8) = (Inr (), out) \<and>
    contents out = contents (new_RingBuffer 8) @ frames_bytes fs \<and> concat (map f_payload fs) = [1, 2, 3] \<and>
    list_all (\<lambda>f. frame_ok 2 f \<and> f_type f = FT_DATA \<and> f_stream_id f = 1 \<and> f_payload f \<noteq> []) fs \<and>
    map f_flags fs = replicate (length fs - 1) 0 @ [END_STREAM]"
  using write_data_frames [of 1 2 "new_RingBuffer 8" "[1, 2, 3]" True] by auto

end
