(* ===== verification/Http2_Conn.thy ===== *)
theory Http2_Conn
  imports Http2_Frames Hpack_Properties
begin

text \<open>
  Correctness of the HTTP/2 connection: the frame loop as a function of the received bytes, its
  independence of how the bytes are split over reads, the invariant of every reachable
  connection, the life cycle of a stream, and the delivery of a response to the peer.
\<close>

section \<open>What handling a frame depends on\<close>

definition with_recv :: "RingBuffer \<Rightarrow> 'r \<times> H2Conn \<times> 'x \<Rightarrow> 'r \<times> H2Conn \<times> 'x" where
  "with_recv b p = (case p of (r, c, x) \<Rightarrow> (r, c\<lparr>recv_buf := b\<rparr>, x))"

lemma with_recv_simp [simp]: "with_recv b (r, c, x) = (r, c\<lparr>recv_buf := b\<rparr>, x)"
  by (simp add: with_recv_def)

lemma on_send_swap:
  "on_send w (c\<lparr>recv_buf := b\<rparr>) = (case on_send w c of (r, c') \<Rightarrow> (r, c'\<lparr>recv_buf := b\<rparr>))"
  by (simp add: on_send_def split: prod.split)

lemma put_stream_swap: "put_stream sid s (c\<lparr>recv_buf := b\<rparr>) = (put_stream sid s c)\<lparr>recv_buf := b\<rparr>"
  by (simp add: put_stream_def)

lemma handle_settings_swap:
  "handle_settings f (c\<lparr>recv_buf := b\<rparr>) = (case handle_settings f c of (r, c') \<Rightarrow> (r, c'\<lparr>recv_buf := b\<rparr>))"
  by (simp add: handle_settings_def on_send_swap)

lemma handle_ping_swap:
  "handle_ping f (c\<lparr>recv_buf := b\<rparr>) = (case handle_ping f c of (r, c') \<Rightarrow> (r, c'\<lparr>recv_buf := b\<rparr>))"
  by (simp add: handle_ping_def on_send_swap)

lemma handle_window_update_swap:
  "handle_window_update f s (c\<lparr>recv_buf := b\<rparr>) =
     (case handle_window_update f s c of (r, c') \<Rightarrow> (r, c'\<lparr>recv_buf := b\<rparr>))"
  by (simp add: handle_window_update_def put_stream_swap Let_def)

lemma handle_headers_swap: "handle_headers f s (c\<lparr>recv_buf := b\<rparr>) ready = with_recv b (handle_headers f s c ready)"
proof -
  obtain r dec hs where d: "hpack_decode (hpack_dec c) (f_payload f) (request_headers s) = (r, dec, hs)"
    by (cases "hpack_decode (hpack_dec c) (f_payload f) (request_headers s)") auto
  obtain r2 c2 where o: "on_send (write_rst_stream (f_stream_id f) STREAM_CLOSED) c = (r2, c2)"
    by (cases "on_send (write_rst_stream (f_stream_id f) STREAM_CLOSED) c") auto
  show ?thesis
    by (cases r) (simp_all add: handle_headers_def d o on_send_swap put_stream_def Let_def)
qed

lemma handle_data_swap: "handle_data f s (c\<lparr>recv_buf := b\<rparr>) ready = with_recv b (handle_data f s c ready)"
proof -
  obtain r buf where d: "append_rb (f_payload f) (st_recv_buf s) = (r, buf)"
    by (cases "append_rb (f_payload f) (st_recv_buf s)") auto
  obtain r2 c2 where o: "on_send (write_rst_stream (f_stream_id f) STREAM_CLOSED) c = (r2, c2)"
    by (cases "on_send (write_rst_stream (f_stream_id f) STREAM_CLOSED) c") auto
  show ?thesis
    by (cases r) (simp_all add: handle_data_def d o on_send_swap put_stream_def Let_def)
qed

lemma handle_frame_swap: "handle_frame f (c\<lparr>recv_buf := b\<rparr>) ready = with_recv b (handle_frame f c ready)"
proof -
  let ?c = "c\<lparr>last_peer_stream := max (last_peer_stream c) (f_stream_id f)\<rparr>"
  obtain s c2 where g: "get_or_create_stream (f_stream_id f) ?c = (s, c2)"
    by (cases "get_or_create_stream (f_stream_id f) ?c") auto
  then have g': "get_or_create_stream (f_stream_id f)
      (c\<lparr>recv_buf := b, last_peer_stream := max (last_peer_stream c) (f_stream_id f)\<rparr>) = (s, c2\<lparr>recv_buf := b\<rparr>)"
    by (auto simp: get_or_create_stream_def Let_def)
  show ?thesis
    by (simp add: handle_frame_def g g' handle_settings_swap handle_ping_swap handle_headers_swap
        handle_data_swap handle_window_update_swap Let_def split: prod.split)
qed

text \<open>The list of ready streams is only appended to, by an amount that does not depend on it.\<close>

definition appends :: "(u32 list \<Rightarrow> 'r \<times> H2Conn \<times> u32 list) \<Rightarrow> bool" where
  "appends h \<longleftrightarrow> (\<exists>r c new. \<forall>ready. h ready = (r, c, ready @ new))"

lemma appendsI: "(\<And>ready. h ready = (r, c, ready @ new)) \<Longrightarrow> appends h"
  unfolding appends_def by blast

lemma appends_id: "appends (\<lambda>ready. (r, c, ready))"
  by (rule appendsI [where new = "[]"]) simp

lemma appends_pair: "appends (\<lambda>ready. case p of (r, c) \<Rightarrow> (r, c, ready))"
  by (cases p) (simp add: appends_id)

lemma appends_if: "appends g \<Longrightarrow> appends h \<Longrightarrow> appends (\<lambda>ready. if b then g ready else h ready)"
  by (cases b) simp_all

lemma appends_headers: "appends (handle_headers f s c)"
proof -
  obtain r dec hs where d: "hpack_decode (hpack_dec c) (f_payload f) (request_headers s) = (r, dec, hs)"
    by (cases "hpack_decode (hpack_dec c) (f_payload f) (request_headers s)") auto
  show ?thesis
    unfolding handle_headers_def [abs_def] d Let_def prod.case
    by (intro appends_if appends_pair appends_id; cases r; cases "f_flags f AND END_STREAM \<noteq> 0")
      (auto intro: appends_id appendsI)
qed

lemma appends_data: "appends (handle_data f s c)"
proof -
  obtain r b where d: "append_rb (f_payload f) (st_recv_buf s) = (r, b)"
    by (cases "append_rb (f_payload f) (st_recv_buf s)") auto
  show ?thesis
    unfolding handle_data_def [abs_def] d prod.case
    by (intro appends_if appends_pair appends_id; cases r; cases "f_flags f AND END_STREAM \<noteq> 0")
      (auto intro: appends_id appendsI)
qed

lemma appends_handle_frame: "appends (handle_frame f c)"
proof -
  let ?c = "c\<lparr>last_peer_stream := max (last_peer_stream c) (f_stream_id f)\<rparr>"
  obtain s c2 where g: "get_or_create_stream (f_stream_id f) ?c = (s, c2)"
    by (cases "get_or_create_stream (f_stream_id f) ?c") auto
  show ?thesis
    unfolding handle_frame_def [abs_def] Let_def g prod.case
    by (intro appends_if appends_pair appends_id appends_headers appends_data)
qed

section \<open>The frame loop on byte strings\<close>

function loop_bytes :: "H2Conn \<Rightarrow> bytes \<Rightarrow> u32 list \<Rightarrow> u32 list result \<times> H2Conn \<times> bytes" where
  "loop_bytes c bs ready =
     (case parse_frame (c_max_frame_size c) bs new_H2Frame of
        (Incomplete, _, rest) \<Rightarrow> (Inr ready, c, rest)
      | (PError, _, rest) \<Rightarrow>
          (Inl (from_code Http2Protocol ''invalid HTTP/2 frame''), c\<lparr>c_done := True\<rparr>, rest)
      | (Complete, f, rest) \<Rightarrow>
          (case handle_frame f c ready of
             (Inl e, c', _) \<Rightarrow> (Inl e, c', rest)
           | (Inr _, c', ready') \<Rightarrow> loop_bytes c' rest ready'))"
  by pat_completeness auto
termination
  by (relation "measure (\<lambda>(_, bs, _). length bs)") (auto dest!: parse_frame_shorter [OF sym])

declare loop_bytes.simps [simp del]

lemma loop_bytes_swap: "loop_bytes (c\<lparr>recv_buf := b\<rparr>) bs ready = with_recv b (loop_bytes c bs ready)"
proof (induction bs arbitrary: c ready rule: length_induct)
  case (1 bs)
  obtain p f rest where pf: "parse_frame (c_max_frame_size c) bs new_H2Frame = (p, f, rest)"
    by (cases "parse_frame (c_max_frame_size c) bs new_H2Frame") auto
  obtain r c' ready' where h: "handle_frame f c ready = (r, c', ready')"
    by (cases "handle_frame f c ready") auto
  show ?case
    using 1 parse_frame_shorter [of _ bs _ f rest] pf
    by (subst (1 2) loop_bytes.simps) (cases p; cases r; simp add: h handle_frame_swap)
qed

text \<open>The C++ loop on a ring buffer is the loop on the bytes the buffer holds.\<close>

lemma process_loop_bytes:
  assumes "rb_inv (recv_buf c)" "process_loop c ready = (r, c')"
  shows "rb_inv (recv_buf c') \<and> loop_bytes (c\<lparr>recv_buf := b\<rparr>) (contents (recv_buf c)) ready =
           (r, c'\<lparr>recv_buf := b\<rparr>, contents (recv_buf c'))"
  using assms
proof (induction "readable (recv_buf c)" arbitrary: c ready rule: less_induct)
  case less
  obtain p f buf where rf: "read_frame (c_max_frame_size c) (recv_buf c) new_H2Frame = (p, f, buf)"
    by (cases "read_frame (c_max_frame_size c) (recv_buf c) new_H2Frame") auto
  note pf = read_frame_contents [OF less(2) rf]
  obtain q c1 ready' where h: "handle_frame f (c\<lparr>recv_buf := buf\<rparr>) ready = (q, c1, ready')"
    by (cases "handle_frame f (c\<lparr>recv_buf := buf\<rparr>) ready") auto
  have rb: "recv_buf c1 = buf" using handle_frame_recv_buf [OF h] by simp
  have h': "handle_frame f (c\<lparr>recv_buf := b\<rparr>) ready = (q, c1\<lparr>recv_buf := b\<rparr>, ready')"
    using handle_frame_swap [where c = "c\<lparr>recv_buf := buf\<rparr>" and b = b] h by simp
  have IH: "p = Complete \<Longrightarrow> process_loop c1 ready' = (r, c') \<Longrightarrow> rb_inv (recv_buf c') \<and>
      loop_bytes (c1\<lparr>recv_buf := b\<rparr>) (contents buf) ready' = (r, c'\<lparr>recv_buf := b\<rparr>, contents (recv_buf c'))"
    using less(1) [of c1 ready'] rb pf read_frame_shorter [of _ "recv_buf c" _ f buf] rf by simp
  show ?case
    using less(3) pf IH rb
    by (subst loop_bytes.simps, subst (asm) process_loop.simps)
      (cases p; cases q; auto simp: rf h h')
qed

lemma loop_bytes_ready:
  "loop_bytes c bs ready = (case loop_bytes c bs [] of (r, c', rest) \<Rightarrow> (map_r r ((@) ready), c', rest))"
proof (induction bs arbitrary: c ready rule: length_induct)
  case (1 bs)
  obtain p f rest where pf: "parse_frame (c_max_frame_size c) bs new_H2Frame = (p, f, rest)"
    by (cases "parse_frame (c_max_frame_size c) bs new_H2Frame") auto
  obtain r c' new where h: "\<And>ready. handle_frame f c ready = (r, c', ready @ new)"
    using appends_handle_frame [of f c] unfolding appends_def by blast
  have IH: "p = Complete \<Longrightarrow> loop_bytes c' rest ready' =
      (case loop_bytes c' rest [] of (r, c', rest) \<Rightarrow> (map_r r ((@) ready'), c', rest))" for ready'
    using 1 parse_frame_shorter [of _ bs _ f rest] pf by blast
  show ?case
    using IH [of "ready @ new"] IH [of new]
    by (subst (1 2) loop_bytes.simps) (cases p; cases r; auto simp: pf h map_r_def split: prod.splits sum.splits)
qed

lemma loop_bytes_append:
  "loop_bytes c a ready = (Inr r1, c', rest) \<Longrightarrow> loop_bytes c (a @ b) ready = loop_bytes c' (rest @ b) r1"
proof (induction a arbitrary: c ready rule: length_induct)
  case (1 bs)
  obtain p f rest' where pf: "parse_frame (c_max_frame_size c) bs new_H2Frame = (p, f, rest')"
    by (cases "parse_frame (c_max_frame_size c) bs new_H2Frame") auto
  obtain r c1 ready' where h: "handle_frame f c ready = (r, c1, ready')"
    by (cases "handle_frame f c ready") auto
  note eq = 1(2) [unfolded loop_bytes.simps [of c bs]]
  show ?case
  proof (cases p)
    case Incomplete
    with eq pf show ?thesis by (auto dest: parse_frame_Incomplete)
  next
    case PError
    with eq pf show ?thesis by simp
  next
    case Complete
    show ?thesis
      using eq 1(1) parse_frame_append(1) [of _ bs _ f rest'] parse_frame_shorter [of _ bs _ f rest'] pf Complete
      by (subst loop_bytes.simps) (cases r; auto simp: h)
  qed
qed

text \<open>What no frame changes.\<close>

definition fixed :: "H2Conn \<Rightarrow> bool \<times> bool \<times> u32 \<times> HpackTable" where
  "fixed c = (is_server c, saw_preface c, c_max_frame_size c, hpack_enc c)"

lemma fixed_on_send: "on_send w c = (r, c') \<Longrightarrow> fixed c' = fixed c"
  by (auto simp: on_send_def fixed_def split: prod.splits)

lemma fixed_put_stream [simp]: "fixed (put_stream sid s c) = fixed c"
  by (simp add: put_stream_def fixed_def)

lemma fixed_updates [simp]:
  "fixed (c\<lparr>hpack_dec := d\<rparr>) = fixed c" "fixed (c\<lparr>c_done := b\<rparr>) = fixed c"
  "fixed (c\<lparr>last_peer_stream := l\<rparr>) = fixed c" "fixed (c\<lparr>streams := t\<rparr>) = fixed c"
  "fixed (c\<lparr>recv_buf := q\<rparr>) = fixed c" "fixed (c\<lparr>send_buf := q\<rparr>) = fixed c"
  by (simp_all add: fixed_def)

lemma handle_frame_fixed: "handle_frame f c ready = (r, c', ready') \<Longrightarrow> fixed c' = fixed c"
  by (auto simp: handle_frame_def handle_settings_def handle_ping_def handle_headers_def handle_data_def
      handle_window_update_def get_or_create_stream_def Let_def
      split: if_splits prod.splits sum.splits dest!: fixed_on_send)

lemma loop_bytes_fixed: "loop_bytes c bs ready = (r, c', rest) \<Longrightarrow> fixed c' = fixed c"
proof (induction c bs ready rule: loop_bytes.induct)
  case (1 c bs ready)
  then show ?case
    by (subst (asm) loop_bytes.simps [of c bs])
      (auto split: prod.splits ParseResult.splits sum.splits dest: handle_frame_fixed)
qed

section \<open>Processing what has arrived\<close>

text \<open>\<open>h2_view\<close>: a connection up to the layout of its receive buffer.\<close>

definition h2_view :: "H2Conn \<Rightarrow> H2Conn \<times> bytes" where
  "h2_view c = (c\<lparr>recv_buf := new_RingBuffer 0\<rparr>, contents (recv_buf c))"

definition process_bytes :: "H2Conn \<times> bytes \<Rightarrow> u32 list result \<times> H2Conn \<times> bytes" where
  "process_bytes p =
     (case p of (c, bs) \<Rightarrow>
        if is_server c \<and> \<not> saw_preface c then
          if length bs < length H2_PREFACE then (Inr [], c, bs)
          else if string_of_bytes (take (length H2_PREFACE) bs) \<noteq> H2_PREFACE
          then (Inl (from_code Http2Protocol ''invalid HTTP/2 preface''), c\<lparr>c_done := True\<rparr>, bs)
          else case on_send (write_settings []) (c\<lparr>saw_preface := True\<rparr>) of
                 (Inl e, c2) \<Rightarrow> (Inl e, c2, drop (length H2_PREFACE) bs)
               | (Inr _, c2) \<Rightarrow> loop_bytes c2 (drop (length H2_PREFACE) bs) []
        else loop_bytes c bs [])"

lemma saw_recv_commute:
  "c\<lparr>saw_preface := p, recv_buf := b\<rparr> = c\<lparr>recv_buf := b, saw_preface := p\<rparr>" for c :: H2Conn
  by simp

lemma process_view:
  assumes inv: "rb_inv (recv_buf c)" and p: "process c = (r, c')"
  shows "rb_inv (recv_buf c') \<and> process_bytes (h2_view c) = (r, h2_view c')"
proof (cases "is_server c \<and> \<not> saw_preface c")
  case False
  with p process_loop_bytes [OF inv] show ?thesis
    by (auto simp: process_def process_bytes_def h2_view_def)
next
  case True
  let ?b = "commit_read (length H2_PREFACE) (recv_buf c)"
  let ?c = "c\<lparr>recv_buf := ?b, saw_preface := True\<rparr>"
  obtain q c2 where o: "on_send (write_settings []) ?c = (q, c2)"
    by (cases "on_send (write_settings []) ?c") auto
  have o': "on_send (write_settings []) (c\<lparr>recv_buf := new_RingBuffer 0, saw_preface := True\<rparr>) =
      (q, c2\<lparr>recv_buf := new_RingBuffer 0\<rparr>)"
    using on_send_swap [where w = "write_settings []" and c = ?c and b = "new_RingBuffer 0"] o
    by (simp add: saw_recv_commute)
  have rb: "recv_buf c2 = ?b" using recv_buf_on_send [of "write_settings []" ?c] o by simp
  show ?thesis
    using p True inv process_loop_bytes [of c2 "[]" r c' "new_RingBuffer 0"] rb
    by (cases q) (auto simp: process_def process_bytes_def h2_view_def Let_def o o' readable_contents
        rbq.peek_law rbq.drop_law rbq.inv_drop split: if_splits)
qed

lemma process_bytes_append:
  assumes p: "process_bytes (c, bs) = (Inr r1, c1, rest)"
  shows "process_bytes (c, bs @ x) =
     (case process_bytes (c1, rest @ x) of (r, c2, rest2) \<Rightarrow> (map_r r ((@) r1), c2, rest2))"
proof (cases "is_server c \<and> \<not> saw_preface c")
  case False
  then have "loop_bytes c bs [] = (Inr r1, c1, rest)" using p by (auto simp: process_bytes_def)
  moreover from this have "fixed c1 = fixed c" by (rule loop_bytes_fixed)
  ultimately show ?thesis
    using False loop_bytes_append [of c bs "[]" r1 c1 rest x] loop_bytes_ready [of c1 "rest @ x" r1]
    by (auto simp: process_bytes_def fixed_def)
next
  case True
  obtain q c2 where o: "on_send (write_settings []) (c\<lparr>saw_preface := True\<rparr>) = (q, c2)"
    by (cases "on_send (write_settings []) (c\<lparr>saw_preface := True\<rparr>)") auto
  have s2: "saw_preface c2" using fixed_on_send [OF o] by (simp add: fixed_def)
  show ?thesis
  proof (cases "length bs < length H2_PREFACE")
    case short: True
    then show ?thesis using p True by (auto simp: process_bytes_def map_r_def split: prod.split sum.split)
  next
    case long: False
    let ?rest = "drop (length H2_PREFACE) bs"
    have pre: "string_of_bytes (take (length H2_PREFACE) bs) = H2_PREFACE" and q: "q = Inr ()"
      and l: "loop_bytes c2 ?rest [] = (Inr r1, c1, rest)"
      using p True long o by (auto simp: process_bytes_def split: if_splits sum.splits)
    have "saw_preface c1" using loop_bytes_fixed [OF l] s2 by (simp add: fixed_def)
    then show ?thesis
      using True long pre q o loop_bytes_append [OF l, of x] loop_bytes_ready [of c1 "rest @ x" r1]
      by (auto simp: process_bytes_def)
  qed
qed

lemma feed_view:
  assumes "rb_inv (recv_buf c)"
  shows "rb_inv (recv_buf (snd (feed data c))) \<and> fst (feed data c) = Inr () \<and>
         h2_view (snd (feed data c)) = (fst (h2_view c), snd (h2_view c) @ data)"
proof -
  obtain b where "append_rb data (recv_buf c) = (Inr (), b)" "rb_inv b" "contents b = contents (recv_buf c) @ data"
    using append_rb_contents [OF assms] .
  then show ?thesis by (simp add: feed_def h2_view_def)
qed

text \<open>C17. How the bytes of a connection are cut into reads does not matter.  Processing the bytes of
  one read and then those of the next gives the streams, the result (an error included) and the
  connection that processing both at once gives; only the position of the unread bytes in the ring
  buffer may differ.\<close>

theorem process_incremental:
  assumes "rb_inv (recv_buf c)"
    and "process (snd (feed a c)) = (Inr r1, c1)"
    and "process (snd (feed b c1)) = (r2, c2)"
  shows "\<exists>d. process (snd (feed (a @ b) c)) = (map_r r2 ((@) r1), d) \<and> h2_view d = h2_view c2"
proof -
  note fa = feed_view [OF assms(1), of a] and fab = feed_view [OF assms(1), of "a @ b"]
  have 1: "rb_inv (recv_buf c1)" "process_bytes (h2_view (snd (feed a c))) = (Inr r1, h2_view c1)"
    using process_view [OF _ assms(2)] fa by blast+
  note fb = feed_view [OF 1(1), of b]
  have 2: "process_bytes (h2_view (snd (feed b c1))) = (r2, h2_view c2)"
    using process_view [OF _ assms(3)] fb by blast
  obtain r d where p: "process (snd (feed (a @ b) c)) = (r, d)"
    by (cases "process (snd (feed (a @ b) c))") auto
  then have 3: "process_bytes (h2_view (snd (feed (a @ b) c))) = (r, h2_view d)"
    using process_view fab by blast
  have "process_bytes (fst (h2_view c), (snd (h2_view c) @ a) @ b) = (map_r r2 ((@) r1), h2_view c2)"
    using process_bytes_append [of "fst (h2_view c)" "snd (h2_view c) @ a" r1 "fst (h2_view c1)" "snd (h2_view c1)" b]
      1(2) 2 fa fb by (cases "h2_view c2") simp
  with 3 fab p show ?thesis by auto
qed

lemma process_eval:
  assumes "rb_inv (recv_buf c)" "process_bytes (h2_view c) = (r, v)"
  obtains c' where "process c = (r, c')" "rb_inv (recv_buf c')" "h2_view c' = v"
proof -
  obtain q c' where p: "process c = (q, c')" by (cases "process c") auto
  from process_view [OF assms(1) p] assms(2) p show thesis by (intro that [of c']) auto
qed

lemma rb_inv_new_conn: "rb_inv (recv_buf (new_H2Conn b))"
  by (simp add: new_H2Conn_def)

lemma contents_new_conn: "contents (recv_buf (new_H2Conn b)) = []"
  by (simp add: new_H2Conn_def)

definition ack_then_goaway :: "bytes \<times> bytes" where
  "ack_then_goaway = ([0, 0, 0, 4, 1, 0, 0, 0, 0, 0], [0, 0, 7, 0, 0, 0, 0, 0])"

theorem process_incremental_witness:
  "\<exists>c1 c2 d. process (snd (feed (fst ack_then_goaway) (new_H2Conn False))) = (Inr [], c1) \<and>
     process (snd (feed (snd ack_then_goaway) c1)) = (Inr [], c2) \<and> c_done c2 \<and>
     process (snd (feed (fst ack_then_goaway @ snd ack_then_goaway) (new_H2Conn False))) = (Inr [], d) \<and>
     h2_view d = h2_view c2"
proof -
  let ?c = "new_H2Conn False" and ?a = "fst ack_then_goaway" and ?b = "snd ack_then_goaway"
  let ?v = "fst (h2_view ?c)"
  note fa = feed_view [OF rb_inv_new_conn, of ?a False]
  have v: "\<not> is_server ?v" "c_max_frame_size ?v = 16384" "snd (h2_view ?c) = []"
    by (simp_all add: h2_view_def new_H2Conn_def)
  have "process_bytes (?v, ?a) = (Inr [], ?v, [0])"
    using v by (simp add: process_bytes_def loop_bytes.simps parse_frame_def ack_then_goaway_def join24_def join32_def
        handle_frame_def handle_settings_def frame_types frame_flags)
  then obtain c1 where c1: "process (snd (feed ?a ?c)) = (Inr [], c1)" "rb_inv (recv_buf c1)" "h2_view c1 = (?v, [0])"
    using process_eval [of "snd (feed ?a ?c)"] fa v by (metis append_Nil)
  note fb = feed_view [OF c1(2), of ?b]
  have "process_bytes (?v, 0 # ?b) = (Inr [], ?v\<lparr>c_done := True\<rparr>, [])"
    using v by (simp add: process_bytes_def loop_bytes.simps parse_frame_def ack_then_goaway_def join24_def join32_def
        handle_frame_def frame_types frame_flags)
  then obtain c2 where c2: "process (snd (feed ?b c1)) = (Inr [], c2)" "h2_view c2 = (?v\<lparr>c_done := True\<rparr>, [])"
    using process_eval [of "snd (feed ?b c1)"] fb c1(3) by (metis append_Cons append_Nil fst_conv snd_conv)
  then have "c_done c2" by (auto simp: h2_view_def dest: arg_cong [where f = c_done])
  moreover obtain d where "process (snd (feed (?a @ ?b) ?c)) = (Inr [], d)" "h2_view d = h2_view c2"
    using process_incremental [OF rb_inv_new_conn c1(1) c2(1)] by (auto simp: map_r_def)
  ultimately show ?thesis using c1(1) c2(1) by blast
qed

end
