(* ===== verification/Http2_Streams.thy ===== *)
theory Http2_Streams
  imports Http2_Conn
begin

text \<open>
  The connection as a state machine: the invariant of everything a connection goes through, when a
  stream is reported ready, and what one end of a connection receives of what the other end sends.
\<close>

section \<open>Writers keep the buffer well formed\<close>

definition keeps :: "(RingBuffer \<Rightarrow> unit result \<times> RingBuffer) \<Rightarrow> bool" where
  "keeps w \<longleftrightarrow> (\<forall>b. rb_inv b \<longrightarrow> rb_inv (snd (w b)))"

lemma keeps_emits: "rbq.emits w bs \<Longrightarrow> keeps w"
  unfolding keeps_def by (metis rbq.emitsD snd_conv)

lemma keeps_append: "keeps (append_rb bs)" "keeps (append_str s)"
  using keeps_emits rbq.emits_push emits_append_str by blast+

lemma keeps_seq: "keeps w \<Longrightarrow> keeps v \<Longrightarrow> keeps (\<lambda>b. try_then (w b) (\<lambda>_. v))"
  unfolding keeps_def try_then_def by (auto split: prod.split sum.split)

lemma keeps_if: "keeps w \<Longrightarrow> keeps v \<Longrightarrow> keeps (\<lambda>b. if p then w b else v b)"
  by (cases p) simp_all

lemma keeps_return: "keeps (\<lambda>b. (r, b))"
  by (simp add: keeps_def)

lemma keeps_header: "keeps (write_frame_header len t fl sid)"
  unfolding write_frame_header_def [abs_def] by (intro keeps_if keeps_return keeps_append)

lemma keeps_append_settings: "keeps (append_settings settings)"
proof (induction settings)
  case Nil
  show ?case using keeps_return by (simp add: keeps_def)
next
  case (Cons x settings)
  obtain k v where "x = (k, v)" by (cases x)
  then show ?case using keeps_seq [OF keeps_append(1) Cons] by (simp add: keeps_def)
qed

lemma keeps_data_loop: "keeps (write_data_loop sid data es m)"
proof (induction data rule: length_induct)
  case (1 data)
  show ?case
  proof (cases "data = [] \<or> m = 0")
    case True
    then show ?thesis by (auto simp: keeps_def write_data_loop.simps)
  next
    case False
    then have "length (drop (min m (length data)) data) < length data" by (simp add: min_def)
    then have "keeps (write_data_loop sid (drop (min m (length data)) data) es m)" using 1 by blast
    from keeps_seq [OF keeps_header keeps_seq [OF keeps_append(1) this]] False show ?thesis
      by (simp add: keeps_def write_data_loop.simps [of sid data] Let_def)
  qed
qed

lemmas keeps_intros = keeps_if keeps_return keeps_append keeps_header keeps_append_settings keeps_data_loop

lemma keeps_writers:
  "keeps (write_settings settings)" "keeps write_settings_ack" "keeps (write_ping d a)"
  "keeps (write_window_update sid inc)" "keeps (write_goaway l e dbg)" "keeps (write_rst_stream sid e)"
  "keeps (write_headers sid blk es m)" "keeps (write_data sid data es m')"
  unfolding write_settings_def [abs_def] write_settings_ack_def [abs_def] write_ping_def [abs_def]
    write_window_update_def [abs_def] write_goaway_def [abs_def] write_rst_stream_def [abs_def]
    write_headers_def [abs_def] write_data_def [abs_def] append_u32_def [abs_def]
  by (intro keeps_seq keeps_intros)+

section \<open>The invariant of a connection\<close>

definition stream_inv :: "u32 \<Rightarrow> H2Stream \<Rightarrow> bool" where
  "stream_inv sid s \<longleftrightarrow> st_id s = sid \<and> sid \<noteq> 0 \<and> st_state s \<in> {Idle, Open, HalfClosedRemote} \<and>
     rb_inv (st_recv_buf s) \<and> (st_state s = Idle \<longrightarrow> contents (st_recv_buf s) = [])"

definition conn_inv :: "H2Conn \<Rightarrow> bool" where
  "conn_inv c \<longleftrightarrow> rb_inv (recv_buf c) \<and> rb_inv (send_buf c) \<and> table_ok (hpack_dec c) \<and>
     c_max_frame_size c = 16384 \<and>
     (\<forall>sid s. streams c sid = Some s \<longrightarrow> stream_inv sid s \<and> sid \<le> last_peer_stream c)"

lemma conn_inv_on_send: "conn_inv c \<Longrightarrow> keeps w \<Longrightarrow> conn_inv (snd (on_send w c))"
  by (auto simp: conn_inv_def on_send_def keeps_def split: prod.split)

lemma conn_inv_put_stream:
  "conn_inv c \<Longrightarrow> stream_inv sid s \<Longrightarrow> sid \<le> last_peer_stream c \<Longrightarrow> conn_inv (put_stream sid s c)"
  by (auto simp: conn_inv_def put_stream_def)

lemma conn_inv_updates:
  "conn_inv c \<Longrightarrow> conn_inv (c\<lparr>c_done := d\<rparr>)" "conn_inv c \<Longrightarrow> conn_inv (c\<lparr>saw_preface := d\<rparr>)"
  "conn_inv c \<Longrightarrow> conn_inv (c\<lparr>hpack_enc := t\<rparr>)" "conn_inv c \<Longrightarrow> rb_inv b \<Longrightarrow> conn_inv (c\<lparr>recv_buf := b\<rparr>)"
  "conn_inv c \<Longrightarrow> rb_inv b \<Longrightarrow> conn_inv (c\<lparr>send_buf := b\<rparr>)"
  "conn_inv c \<Longrightarrow> table_ok t \<Longrightarrow> conn_inv (c\<lparr>hpack_dec := t\<rparr>)"
  "conn_inv c \<Longrightarrow> last_peer_stream c \<le> l \<Longrightarrow> conn_inv (c\<lparr>last_peer_stream := l\<rparr>)"
  unfolding conn_inv_def by (simp_all, metis order_trans)

lemma stream_inv_new: "sid \<noteq> 0 \<Longrightarrow> stream_inv sid (new_H2Stream\<lparr>st_id := sid\<rparr>)"
  by (simp add: stream_inv_def new_H2Stream_def)

lemma stream_inv_same: "stream_inv sid s \<Longrightarrow> s\<lparr>st_id := sid\<rparr> = s"
  by (simp add: stream_inv_def)

lemma conn_inv_new: "conn_inv (new_H2Conn b)"
  using keeps_append(2) [of H2_PREFACE]
  by (simp add: conn_inv_def new_H2Conn_def table_ok_new keeps_def)

lemma get_or_create_inv:
  assumes "conn_inv c" "sid \<noteq> 0" "sid \<le> last_peer_stream c" "get_or_create_stream sid c = (s, c')"
  shows "conn_inv c' \<and> stream_inv sid s \<and> streams c' sid = Some s \<and> last_peer_stream c' = last_peer_stream c"
proof -
  have "stream_inv sid s"
    using assms stream_inv_new [OF assms(2)] stream_inv_same
    by (auto simp: get_or_create_stream_def conn_inv_def Let_def split: option.splits)
  moreover have "c' = put_stream sid s c"
    using assms(4) by (auto simp: get_or_create_stream_def put_stream_def Let_def)
  ultimately show ?thesis using conn_inv_put_stream [OF assms(1) _ assms(3)] by (simp add: put_stream_def)
qed

lemma handle_headers_inv:
  assumes inv: "conn_inv c" "stream_inv sid s" "sid \<le> last_peer_stream c" and sid: "sid = f_stream_id f"
    and h: "handle_headers f s c ready = (r, c', ready')"
  shows "conn_inv c'"
proof -
  obtain q dec hs where d: "hpack_decode (hpack_dec c) (f_payload f) (request_headers s) = (q, dec, hs)"
    by (cases "hpack_decode (hpack_dec c) (f_payload f) (request_headers s)") auto
  have dec: "table_ok dec" using hpack_decode_ok [OF d] inv(1) by (simp add: conn_inv_def)
  have st: "after_headers f (st_state s) \<in> {Idle, Open, HalfClosedRemote} \<and> after_headers f (st_state s) \<noteq> Idle"
    using inv(2) by (auto simp: after_headers_def stream_inv_def Let_def)
  then have s': "stream_inv sid (s\<lparr>request_headers := hs\<rparr>)"
    "stream_inv sid (s\<lparr>request_headers := hs, st_state := after_headers f (st_state s)\<rparr>)"
    using inv(2) by (auto simp: stream_inv_def)
  have rst: "conn_inv (snd (on_send (write_rst_stream (f_stream_id f) STREAM_CLOSED) c))"
    using conn_inv_on_send [OF inv(1) keeps_writers(6)] .
  have c1: "conn_inv (put_stream sid (s\<lparr>request_headers := hs\<rparr>) (c\<lparr>hpack_dec := dec\<rparr>))"
    by (rule conn_inv_put_stream [OF conn_inv_updates(6) [OF inv(1) dec] s'(1)]) (simp add: inv(3))
  have c2: "conn_inv (put_stream sid (s\<lparr>request_headers := hs, st_state := after_headers f (st_state s)\<rparr>)
      (put_stream sid (s\<lparr>request_headers := hs\<rparr>) (c\<lparr>hpack_dec := dec\<rparr>)))"
    by (rule conn_inv_put_stream [OF c1 s'(2)]) (simp add: inv(3) put_stream_def)
  show ?thesis
    using h rst c1 c2 inv(1) unfolding sid handle_headers_def d
    by (auto simp: Let_def split: if_splits prod.splits sum.splits)
qed

lemma handle_data_inv:
  assumes inv: "conn_inv c" "stream_inv sid s" "sid \<le> last_peer_stream c" and sid: "sid = f_stream_id f"
    and h: "handle_data f s c ready = (r, c', ready')"
  shows "conn_inv c'"
proof -
  obtain b where b: "append_rb (f_payload f) (st_recv_buf s) = (Inr (), b)" "rb_inv b"
    using append_rb_contents inv(2) unfolding stream_inv_def by metis
  have rst: "conn_inv (snd (on_send (write_rst_stream (f_stream_id f) STREAM_CLOSED) c))"
    using conn_inv_on_send [OF inv(1) keeps_writers(6)] .
  have s': "st_state s = Open \<Longrightarrow> conn_inv (put_stream sid (s\<lparr>st_recv_buf := b\<rparr>) c)"
    "st_state s = Open \<Longrightarrow> conn_inv (put_stream sid (s\<lparr>st_recv_buf := b, st_state := after_data (st_state s)\<rparr>) c)"
    using inv b(2) by (auto intro!: conn_inv_put_stream simp: stream_inv_def after_data_def)
  show ?thesis
    using h rst s' inv(1,2) unfolding sid handle_data_def b(1)
    by (auto simp: stream_inv_def split: if_splits prod.splits)
qed

lemma handle_frame_inv:
  assumes inv: "conn_inv c" and h: "handle_frame f c ready = (r, c', ready')"
  shows "conn_inv c'"
proof -
  let ?c = "c\<lparr>last_peer_stream := max (last_peer_stream c) (f_stream_id f)\<rparr>"
  obtain s c2 where g: "get_or_create_stream (f_stream_id f) ?c = (s, c2)"
    by (cases "get_or_create_stream (f_stream_id f) ?c") auto
  have "conn_inv ?c" by (rule conn_inv_updates(7) [OF inv]) simp
  note g' = get_or_create_inv [OF this _ _ g]
  have set: "conn_inv (snd (handle_settings f c))" "conn_inv (snd (handle_ping f c))"
    using inv by (simp_all add: handle_settings_def handle_ping_def conn_inv_on_send keeps_writers)
  show ?thesis
  proof (cases "f_stream_id f = 0 \<or> f_type f \<in> {FT_SETTINGS, FT_PING, FT_GOAWAY}")
    case True
    with h set inv conn_inv_updates(1) show ?thesis
      by (auto simp: handle_frame_def split: if_splits prod.splits)
  next
    case False
    then have g2: "conn_inv c2" "stream_inv (f_stream_id f) s" "f_stream_id f \<le> last_peer_stream c2"
      using g' by simp_all
    have wu: "conn_inv (snd (handle_window_update f s c2))"
      using g2 by (auto simp: handle_window_update_def Let_def stream_inv_def intro!: conn_inv_put_stream)
    show ?thesis
      using False h wu g2(1) handle_headers_inv [OF g2 refl] handle_data_inv [OF g2 refl]
      by (auto simp: handle_frame_def g Let_def split: if_splits prod.splits)
  qed
qed

lemma process_loop_inv: "conn_inv c \<Longrightarrow> process_loop c ready = (r, c') \<Longrightarrow> conn_inv c'"
proof (induction c ready rule: process_loop.induct)
  case (1 c ready)
  obtain p f b where rf: "read_frame (c_max_frame_size c) (recv_buf c) new_H2Frame = (p, f, b)"
    by (cases "read_frame (c_max_frame_size c) (recv_buf c) new_H2Frame") auto
  have "rb_inv b" using read_frame_contents [OF _ rf] 1(2) by (simp add: conn_inv_def)
  then have b: "conn_inv (c\<lparr>recv_buf := b\<rparr>)" using conn_inv_updates(4) [OF 1(2)] by blast
  obtain q c1 ready' where h: "handle_frame f (c\<lparr>recv_buf := b\<rparr>) ready = (q, c1, ready')"
    by (cases "handle_frame f (c\<lparr>recv_buf := b\<rparr>) ready") auto
  have c1: "conn_inv c1" using handle_frame_inv [OF b h] .
  have "c\<lparr>recv_buf := b, c_done := True\<rparr> = (c\<lparr>recv_buf := b\<rparr>)\<lparr>c_done := True\<rparr>" by simp
  then have err: "conn_inv (c\<lparr>recv_buf := b, c_done := True\<rparr>)" using conn_inv_updates(1) [OF b] by metis
  show ?case
    using 1(3) b c1 err 1(1) [OF rf [symmetric] _ refl h [symmetric] _ refl]
    by (subst (asm) process_loop.simps) (cases p; cases q; auto simp: rf h)
qed

lemma process_inv: "conn_inv c \<Longrightarrow> process c = (r, c') \<Longrightarrow> conn_inv c'"
proof -
  assume inv: "conn_inv c" and p: "process c = (r, c')"
  let ?c = "c\<lparr>recv_buf := commit_read (length H2_PREFACE) (recv_buf c), saw_preface := True\<rparr>"
  obtain q c2 where o: "on_send (write_settings []) ?c = (q, c2)" by (cases "on_send (write_settings []) ?c") auto
  have "conn_inv ((c\<lparr>recv_buf := commit_read (length H2_PREFACE) (recv_buf c)\<rparr>)\<lparr>saw_preface := True\<rparr>)"
    using inv by (intro conn_inv_updates(2,4) rbq.inv_drop) (simp_all add: conn_inv_def)
  then have "conn_inv c2"
    using conn_inv_on_send [of ?c, OF _ keeps_writers(1)] o by (metis snd_conv)
  then show ?thesis
    using p inv process_loop_inv conn_inv_updates(1) [OF inv]
    by (auto simp: process_def Let_def o split: if_splits sum.splits)
qed

section \<open>Which streams are ready\<close>

text \<open>\<open>remote_closed c sid\<close>: the peer has ended stream \<open>sid\<close>.\<close>

definition remote_closed :: "H2Conn \<Rightarrow> u32 \<Rightarrow> bool" where
  "remote_closed c sid =
     (case streams c sid of None \<Rightarrow> False | Some s \<Rightarrow> st_state s = HalfClosedRemote \<or> st_state s = Closed)"

lemma remote_closed_on_send: "on_send w c = (r, c') \<Longrightarrow> remote_closed c' = remote_closed c"
  by (auto simp: on_send_def remote_closed_def fun_eq_iff split: prod.splits)

lemma remote_closed_put_stream:
  "remote_closed (put_stream sid s c) =
     (remote_closed c)(sid := st_state s = HalfClosedRemote \<or> st_state s = Closed)"
  by (simp add: remote_closed_def put_stream_def fun_eq_iff)

lemma remote_closed_updates [simp]:
  "remote_closed (c\<lparr>hpack_dec := d\<rparr>) = remote_closed c" "remote_closed (c\<lparr>c_done := b\<rparr>) = remote_closed c"
  "remote_closed (c\<lparr>last_peer_stream := l\<rparr>) = remote_closed c" "remote_closed (c\<lparr>recv_buf := q\<rparr>) = remote_closed c"
  "remote_closed (c\<lparr>send_buf := q\<rparr>) = remote_closed c" "remote_closed (c\<lparr>hpack_enc := t\<rparr>) = remote_closed c"
  "remote_closed (c\<lparr>saw_preface := p\<rparr>) = remote_closed c"
  by (simp_all add: remote_closed_def fun_eq_iff)

text \<open>\<open>closes c ready c' ready'\<close>: no stream ended, or one did and it is the one reported.\<close>

definition closes :: "H2Conn \<Rightarrow> u32 list \<Rightarrow> H2Conn \<Rightarrow> u32 list \<Rightarrow> bool" where
  "closes c ready c' ready' \<longleftrightarrow>
     remote_closed c' = remote_closed c \<and> ready' = ready \<or>
     (\<exists>sid. \<not> remote_closed c sid \<and> remote_closed c' = (remote_closed c)(sid := True) \<and> ready' = ready @ [sid])"

lemma remote_closed_get_or_create:
  "get_or_create_stream sid c = (s, c') \<Longrightarrow> remote_closed c' = remote_closed c \<and>
     (remote_closed c sid \<longleftrightarrow> st_state s = HalfClosedRemote \<or> st_state s = Closed)"
proof -
  assume "get_or_create_stream sid c = (s, c')"
  then have c': "c' = put_stream sid s c" and s: "s = (case streams c sid of None \<Rightarrow> new_H2Stream | Some s \<Rightarrow> s)\<lparr>st_id := sid\<rparr>"
    by (auto simp: get_or_create_stream_def put_stream_def Let_def)
  have "remote_closed c sid \<longleftrightarrow> st_state s = HalfClosedRemote \<or> st_state s = Closed"
    unfolding s by (simp add: remote_closed_def new_H2Stream_def split: option.split)
  then show ?thesis unfolding c' remote_closed_put_stream by (auto simp: fun_eq_iff)
qed

lemma handle_headers_closes:
  assumes "remote_closed c (f_stream_id f) \<longleftrightarrow> st_state s = HalfClosedRemote \<or> st_state s = Closed"
    and "handle_headers f s c ready = (r, c', ready')"
  shows "closes c ready c' ready'"
proof -
  obtain q dec hs where d: "hpack_decode (hpack_dec c) (f_payload f) (request_headers s) = (q, dec, hs)"
    by (cases "hpack_decode (hpack_dec c) (f_payload f) (request_headers s)") auto
  show ?thesis
    using assms unfolding handle_headers_def d
    by (cases "st_state s")
      (auto simp: closes_def Let_def remote_closed_put_stream after_headers_def fun_upd_idem
        split: if_splits prod.splits sum.splits dest!: remote_closed_on_send)
qed

lemma handle_data_closes:
  assumes "remote_closed c (f_stream_id f) \<longleftrightarrow> st_state s = HalfClosedRemote \<or> st_state s = Closed"
    and "handle_data f s c ready = (r, c', ready')"
  shows "closes c ready c' ready'"
  using assms unfolding handle_data_def
  by (cases "st_state s")
    (auto simp: closes_def remote_closed_put_stream after_data_def fun_upd_idem
      split: if_splits prod.splits sum.splits dest!: remote_closed_on_send)

lemma handle_frame_closes:
  assumes h: "handle_frame f c ready = (r, c', ready')"
  shows "closes c ready c' ready'"
proof -
  let ?c = "c\<lparr>last_peer_stream := max (last_peer_stream c) (f_stream_id f)\<rparr>"
  obtain s c2 where g: "get_or_create_stream (f_stream_id f) ?c = (s, c2)"
    by (cases "get_or_create_stream (f_stream_id f) ?c") auto
  note g' = remote_closed_get_or_create [OF g]
  have c2: "closes c2 ready d x \<Longrightarrow> closes c ready d x" for d x using g' by (simp add: closes_def)
  have rc: "remote_closed c2 (f_stream_id f) \<longleftrightarrow> st_state s = HalfClosedRemote \<or> st_state s = Closed"
    using g' by simp
  note hh = c2 [OF handle_headers_closes [OF rc]] and hd = c2 [OF handle_data_closes [OF rc]]
  have hw: "handle_window_update f s c2 = (r, c') \<Longrightarrow> remote_closed c' = remote_closed c"
    using g' by (auto simp: handle_window_update_def Let_def remote_closed_put_stream fun_upd_idem split: if_splits)
  have hs: "handle_settings f c = (r, c') \<Longrightarrow> remote_closed c' = remote_closed c"
    and hp: "handle_ping f c = (r, c') \<Longrightarrow> remote_closed c' = remote_closed c"
    by (auto simp: handle_settings_def handle_ping_def split: if_splits dest: remote_closed_on_send)
  show ?thesis
    using h hh hd hw hs hp g'
    by (auto simp: handle_frame_def g Let_def closes_def split: if_splits prod.splits)
qed

text \<open>\<open>reported c0 c ready\<close>: \<open>ready\<close> lists, without repetition, the streams that ended since \<open>c0\<close>.\<close>

definition reported :: "H2Conn \<Rightarrow> H2Conn \<Rightarrow> u32 list \<Rightarrow> bool" where
  "reported c0 c ready \<longleftrightarrow> distinct ready \<and> (\<forall>sid. remote_closed c sid \<longleftrightarrow> remote_closed c0 sid \<or> sid \<in> set ready) \<and>
     (\<forall>sid\<in>set ready. \<not> remote_closed c0 sid)"

lemma reported_closes: "reported c0 c ready \<Longrightarrow> closes c ready c' ready' \<Longrightarrow> reported c0 c' ready'"
  by (auto simp: reported_def closes_def)

lemma reported_same: "remote_closed c' = remote_closed c \<Longrightarrow> reported c0 c ready \<Longrightarrow> reported c0 c' ready"
  by (simp add: reported_def)

text \<open>\<open>reports c0 r c\<close>: the same of the result of \<open>process\<close>; an error loses the list.\<close>

definition reports :: "H2Conn \<Rightarrow> u32 list result \<Rightarrow> H2Conn \<Rightarrow> bool" where
  "reports c0 r c = (case r of Inr ready \<Rightarrow> reported c0 c ready | Inl _ \<Rightarrow> \<exists>ready. reported c0 c ready)"

lemma process_loop_reports: "reported c0 c ready \<Longrightarrow> process_loop c ready = (r, c') \<Longrightarrow> reports c0 r c'"
proof (induction c ready rule: process_loop.induct)
  case (1 c ready)
  obtain p f b where rf: "read_frame (c_max_frame_size c) (recv_buf c) new_H2Frame = (p, f, b)"
    by (cases "read_frame (c_max_frame_size c) (recv_buf c) new_H2Frame") auto
  obtain q c1 ready' where h: "handle_frame f (c\<lparr>recv_buf := b\<rparr>) ready = (q, c1, ready')"
    by (cases "handle_frame f (c\<lparr>recv_buf := b\<rparr>) ready") auto
  have b: "reported c0 (c\<lparr>recv_buf := b\<rparr>) ready" using 1(2) by (rule reported_same [rotated]) simp
  then have e: "reported c0 (c\<lparr>recv_buf := b, c_done := True\<rparr>) ready"
    by (simp add: reported_def remote_closed_def)
  have c1: "reported c0 c1 ready'" using reported_closes [OF b handle_frame_closes [OF h]] .
  show ?case
    using 1(3) b e c1 1(1) [OF rf [symmetric] _ refl h [symmetric] _ refl]
    by (subst (asm) process_loop.simps) (cases p; cases q; auto simp: rf h reports_def)
qed

lemma reported_start: "remote_closed c' = remote_closed c \<Longrightarrow> reported c c' []"
  by (simp add: reported_def)

lemma process_reports: "process c = (r, c') \<Longrightarrow> reports c r c'"
proof -
  assume p: "process c = (r, c')"
  let ?c = "c\<lparr>recv_buf := commit_read (length H2_PREFACE) (recv_buf c), saw_preface := True\<rparr>"
  obtain q c2 where o: "on_send (write_settings []) ?c = (q, c2)" by (cases "on_send (write_settings []) ?c") auto
  have c2: "reported c c2 []" using remote_closed_on_send [OF o] by (intro reported_start) (simp add: remote_closed_def)
  have c: "reported c c []" "reported c (c\<lparr>c_done := True\<rparr>) []" by (simp_all add: reported_start)
  show ?thesis
    using p c c2 process_loop_reports [OF c(1)] process_loop_reports [OF c2]
    by (auto simp: process_def Let_def o reports_def split: if_splits sum.splits)
qed

section \<open>The life of a connection\<close>

text \<open>
  \<open>h2_run c log\<close>: the connection \<open>c\<close> is reached from a new one by the public operations of
  \<^verbatim>\<open>H2Conn\<close>, in any order, and \<open>log\<close> holds the streams that the successful calls of \<open>process\<close> reported.
\<close>

inductive h2_run :: "H2Conn \<Rightarrow> u32 list \<Rightarrow> bool" where
  run_new: "h2_run (new_H2Conn server) []"
| run_feed: "h2_run c log \<Longrightarrow> h2_run (snd (feed data c)) log"
| run_process: "h2_run c log \<Longrightarrow> process c = (Inr ready, c') \<Longrightarrow> h2_run c' (log @ ready)"
| run_process_error: "h2_run c log \<Longrightarrow> process c = (Inl e, c') \<Longrightarrow> h2_run c' log"
| run_consume_body: "h2_run c log \<Longrightarrow> consume_body sid n c = Some c' \<Longrightarrow> h2_run c' log"
| run_send_response: "h2_run c log \<Longrightarrow> h2_run (snd (send_response sid headers body es c)) log"
| run_window_update: "h2_run c log \<Longrightarrow> h2_run (snd (send_window_update sid inc c)) log"
| run_consume_output: "h2_run c log \<Longrightarrow> h2_run (consume_output n c) log"
| run_goaway: "h2_run c log \<Longrightarrow> h2_run (snd (goaway err debug_data c)) log"

lemma send_response_induct:
  assumes "P c" and enc: "\<And>t. P (c\<lparr>hpack_enc := t\<rparr>)" and send: "\<And>c w. P c \<Longrightarrow> keeps w \<Longrightarrow> P (snd (on_send w c))"
  shows "P (snd (send_response sid headers body es c))"
proof -
  obtain r enc' b where e: "hpack_encode (hpack_enc c) headers (new_RingBuffer 4096) = (r, enc', b)"
    by (cases "hpack_encode (hpack_enc c) headers (new_RingBuffer 4096)") auto
  let ?c = "c\<lparr>hpack_enc := enc'\<rparr>"
  let ?w = "write_headers sid (peek (readable b) b) (body = [] \<and> es) (c_max_frame_size c)"
  obtain q c2 where o: "on_send ?w ?c = (q, c2)" by (cases "on_send ?w ?c") auto
  have c2: "P c2" using send [of ?c ?w, OF enc keeps_writers(7)] o by simp
  then show ?thesis
    using enc [of enc'] send [OF c2 keeps_writers(8)]
    by (cases r; cases q) (auto simp: send_response_def e o Let_def)
qed

lemma conn_inv_send_response: "conn_inv c \<Longrightarrow> conn_inv (snd (send_response sid headers body es c))"
  by (rule send_response_induct) (auto intro: conn_inv_updates(3) conn_inv_on_send)

lemma feed_eq: "snd (feed data c) = c\<lparr>recv_buf := snd (append_rb data (recv_buf c))\<rparr>"
  by (simp add: feed_def split: prod.split)

lemma stream_inv_commit_read:
  "stream_inv sid s \<Longrightarrow> stream_inv sid (s\<lparr>st_recv_buf := commit_read n (st_recv_buf s)\<rparr>)"
  by (auto simp: stream_inv_def rbq.inv_drop rbq.drop_law)

lemma h2_run_inv: "h2_run c log \<Longrightarrow> conn_inv c"
proof (induction rule: h2_run.induct)
  case (run_new server)
  show ?case by (rule conn_inv_new)
next
  case (run_feed c log data)
  then show ?case
    using conn_inv_updates(4) keeps_append(1) by (simp add: feed_eq keeps_def conn_inv_def)
next
  case (run_consume_body c log sid n c')
  then show ?case
    by (auto simp: consume_body_def intro!: conn_inv_put_stream stream_inv_commit_read)
      (auto simp: conn_inv_def)
next
  case (run_consume_output c log n)
  then show ?case by (auto simp: consume_output_def conn_inv_def rbq.inv_drop)
next
  case (run_goaway c log err debug_data)
  then show ?case
    unfolding goaway_def by (intro conn_inv_on_send conn_inv_updates(1) keeps_writers)
qed (auto simp: send_window_update_def intro: process_inv conn_inv_send_response conn_inv_on_send keeps_writers)

lemma remote_closed_send_response:
  "remote_closed (snd (send_response sid headers body es c)) = remote_closed c"
  by (rule send_response_induct [where P = "\<lambda>d. remote_closed d = remote_closed c"])
    (simp_all add: remote_closed_on_send [OF prod.collapse [symmetric]])

lemma h2_run_once: "h2_run c log \<Longrightarrow> distinct log \<and> (\<forall>sid\<in>set log. remote_closed c sid)"
proof (induction rule: h2_run.induct)
  case (run_process c log ready c')
  with process_reports [OF run_process(2)] show ?case by (auto simp: reports_def reported_def)
next
  case (run_process_error c log e c')
  with process_reports [OF run_process_error(2)] show ?case by (auto simp: reports_def reported_def)
next
  case (run_consume_body c log sid n c')
  then show ?case
    by (auto simp: consume_body_def remote_closed_put_stream) (auto simp: remote_closed_def)
next
  case (run_window_update c log sid inc)
  then show ?case
    using remote_closed_on_send [OF prod.collapse [symmetric]] by (simp add: send_window_update_def)
next
  case (run_goaway c log err debug_data)
  then show ?case
    using remote_closed_on_send [OF prod.collapse [symmetric]] by (simp add: goaway_def)
qed (simp_all add: feed_eq remote_closed_send_response consume_output_def)

section \<open>Delivery\<close>

lemma loop_bytes_frame:
  assumes "frame_ok (c_max_frame_size c) f"
  shows "loop_bytes c (frame_bytes f @ rest) ready =
    (case handle_frame f c ready of (Inl e, c', _) \<Rightarrow> (Inl e, c', rest) | (Inr _, c', ready') \<Rightarrow> loop_bytes c' rest ready')"
  by (subst loop_bytes.simps) (simp add: parse_frame_bytes [OF assms])

text \<open>\<open>stream_is c sid st hs body\<close>: stream \<open>sid\<close> is in state \<open>st\<close> with headers \<open>hs\<close> and unread body \<open>body\<close>.\<close>

definition stream_is :: "H2Conn \<Rightarrow> u32 \<Rightarrow> H2StreamState \<Rightarrow> HpackHeader list \<Rightarrow> bytes \<Rightarrow> bool" where
  "stream_is c sid st hs body \<longleftrightarrow> (\<exists>s. streams c sid = Some s \<and> stream_inv sid s \<and> st_state s = st \<and>
     request_headers s = hs \<and> contents (st_recv_buf s) = body)"

lemma handle_data_frame:
  assumes s: "stream_is c sid Open hs pre" and f: "f_type f = FT_DATA" "f_stream_id f = sid"
  shows "\<exists>c'. handle_frame f c ready = (Inr (), c', if f_flags f AND END_STREAM \<noteq> 0 then ready @ [sid] else ready) \<and>
    stream_is c' sid (if f_flags f AND END_STREAM \<noteq> 0 then HalfClosedRemote else Open) hs (pre @ f_payload f) \<and>
    fixed c' = fixed c \<and> hpack_dec c' = hpack_dec c"
proof -
  obtain st where st: "streams c sid = Some st" "stream_inv sid st" "st_state st = Open"
    "request_headers st = hs" "contents (st_recv_buf st) = pre"
    using s unfolding stream_is_def by blast
  have id: "sid \<noteq> 0" "rb_inv (st_recv_buf st)" using st(2) by (simp_all add: stream_inv_def)
  obtain b where b: "append_rb (f_payload f) (st_recv_buf st) = (Inr (), b)" "rb_inv b" "contents b = pre @ f_payload f"
    using append_rb_contents [OF id(2)] st(5) by metis
  let ?c = "c\<lparr>last_peer_stream := max (last_peer_stream c) sid\<rparr>"
  have g: "get_or_create_stream sid ?c = (st, put_stream sid st ?c)"
    using st(1) stream_inv_same [OF st(2)] by (simp add: get_or_create_stream_def put_stream_def Let_def)
  have "handle_frame f c ready = handle_data f st (put_stream sid st ?c) ready"
    using f id(1) g by (simp add: handle_frame_def frame_types Let_def)
  then show ?thesis
    using st b f(2)
    by (auto simp: handle_data_def b(1) after_data_def stream_is_def stream_inv_def put_stream_def fixed_def)
qed

lemma data_frames_delivered:
  assumes "stream_is c sid Open hs pre" "data \<noteq> []" "unat (c_max_frame_size c) = m" "0 < m" "m < 2 ^ 24"
    "sid AND 0x80000000 = 0"
  shows "\<exists>c'. loop_bytes c (frames_bytes (data_frames sid data True m)) ready = (Inr (ready @ [sid]), c', []) \<and>
    stream_is c' sid HalfClosedRemote hs (pre @ data) \<and> hpack_dec c' = hpack_dec c"
  using assms
proof (induction data arbitrary: c pre rule: length_induct)
  case (1 data)
  let ?n = "min m (length data)"
  let ?f = "mk_frame FT_DATA (if ?n = length data then END_STREAM else 0) sid (take ?n data)"
  have fs: "data_frames sid data True m = ?f # data_frames sid (drop ?n data) True m"
    using 1(3,5) by (simp add: data_frames.simps [of sid data] Let_def)
  have ok: "frame_ok (c_max_frame_size c) ?f" using 1(4,6,7) by (intro frame_ok_mk) auto
  note step = loop_bytes_frame [OF ok, of "frames_bytes (data_frames sid (drop ?n data) True m)" ready]
  obtain c' where c': "handle_frame ?f c ready = (Inr (), c', if ?n = length data then ready @ [sid] else ready)"
    "stream_is c' sid (if ?n = length data then HalfClosedRemote else Open) hs (pre @ take ?n data)"
    "fixed c' = fixed c" "hpack_dec c' = hpack_dec c"
    using handle_data_frame [OF 1(2), of ?f ready] by (auto simp: frame_flags split: if_splits)
  show ?case
  proof (cases "?n = length data")
    case True
    then have "data_frames sid (drop ?n data) True m = []" by (simp add: data_frames.simps)
    then show ?thesis
      using True c' step by (auto simp: fs loop_bytes.simps parse_frame_def)
  next
    case False
    then have d: "length (drop ?n data) < length data" "drop ?n data \<noteq> []" using 1(3,5) by auto
    have m: "unat (c_max_frame_size c') = m" using c'(3) 1(4) by (simp add: fixed_def)
    have o: "stream_is c' sid Open hs (pre @ take ?n data)" using c'(2) unfolding if_not_P [OF False] .
    obtain c2 where "loop_bytes c' (frames_bytes (data_frames sid (drop ?n data) True m)) ready =
        (Inr (ready @ [sid]), c2, [])" "stream_is c2 sid HalfClosedRemote hs ((pre @ take ?n data) @ drop ?n data)"
        "hpack_dec c2 = hpack_dec c'"
      using 1(1) d o m 1(5-7) by blast
    then show ?thesis using False c' step by (auto simp: fs)
  qed
qed

lemma handle_headers_frame:
  assumes new: "streams d sid = None" "sid \<noteq> 0" and dec: "hpack_decode (hpack_dec d) blk [] = (Inr (), t', hs)"
  shows "\<exists>d'. handle_frame (mk_frame FT_HEADERS (END_HEADERS OR (if es then END_STREAM else 0)) sid blk) d ready =
      (Inr (), d', if es then ready @ [sid] else ready) \<and>
    stream_is d' sid (if es then HalfClosedRemote else Open) hs [] \<and> fixed d' = fixed d \<and> hpack_dec d' = t'"
proof -
  let ?f = "mk_frame FT_HEADERS (END_HEADERS OR (if es then END_STREAM else 0)) sid blk"
  let ?d = "d\<lparr>last_peer_stream := max (last_peer_stream d) sid\<rparr>" and ?s = "new_H2Stream\<lparr>st_id := sid\<rparr>"
  have g: "get_or_create_stream sid ?d = (?s, put_stream sid ?s ?d)"
    using new by (simp add: get_or_create_stream_def put_stream_def Let_def)
  have "handle_frame ?f d ready = handle_headers ?f ?s (put_stream sid ?s ?d) ready"
    using new(2) g by (simp add: handle_frame_def frame_types Let_def)
  moreover have "f_flags ?f AND END_HEADERS \<noteq> 0" "f_flags ?f AND END_STREAM \<noteq> 0 \<longleftrightarrow> es"
    by (simp_all add: frame_flags)
  ultimately show ?thesis
    using dec stream_inv_new [OF new(2)]
    by (simp add: handle_headers_def after_headers_def stream_is_def stream_inv_def put_stream_def fixed_def new_H2Stream_def Let_def)
qed

text \<open>What \<open>send_response\<close> puts on the wire.\<close>

definition response_bytes :: "u32 \<Rightarrow> HpackHeader list \<Rightarrow> bytes \<Rightarrow> bytes" where
  "response_bytes sid hs body =
     frame_bytes (mk_frame FT_HEADERS (END_HEADERS OR (if body = [] then END_STREAM else 0)) sid (concat (map literal_bytes hs))) @
     frames_bytes (data_frames sid body True 16384)"

lemma send_response_bytes:
  assumes hs: "\<forall>h\<in>set hs. header_ok h" and blk: "length (concat (map literal_bytes hs)) \<le> 16384"
    and sid: "sid \<noteq> 0" "sid AND 0x80000000 = 0" and c: "rb_inv (send_buf c)" "c_max_frame_size c = 16384"
  obtains c' t' where "send_response sid hs body True c = (Inr (), c')" "rb_inv (send_buf c')" "hpack_enc c' = t'"
    "contents (send_buf c') = contents (send_buf c) @ response_bytes sid hs body"
    "\<And>acc. hpack_decode (hpack_enc c) (concat (map literal_bytes hs)) acc = (Inr (), t', acc @ map received hs)"
proof -
  let ?blk = "concat (map literal_bytes hs)"
  let ?fl = "END_HEADERS OR (if body = [] then END_STREAM else 0)"
  obtain t' b where e: "hpack_encode (hpack_enc c) hs (new_RingBuffer 4096) = (Inr (), t', b)" "rb_inv b" "contents b = ?blk"
    and dec: "\<And>acc. hpack_decode (hpack_enc c) ?blk acc = (Inr (), t', acc @ map received hs)"
    using hpack_encode_decode [OF hs rb_inv_new, of "hpack_enc c" 4096] contents_new by auto
  then have p: "peek (readable b) b = ?blk" by (simp add: rbq.peek_law readable_contents)
  have l: "length ?blk < 2 ^ 24" using blk by simp
  obtain b1 where b1: "write_headers sid ?blk (body = []) 16384 (send_buf c) = (Inr (), b1)" "rb_inv b1"
    "contents b1 = contents (send_buf c) @ frame_bytes (mk_frame FT_HEADERS ?fl sid ?blk)"
    using rbq.emitsD [OF emits_header [OF l sid(2) rbq.emits_push] c(1), of FT_HEADERS ?fl] sid(1) blk
    by (auto simp: write_headers_def)
  obtain b2 where b2: "write_data_loop sid body True 16384 b1 = (Inr (), b2)" "rb_inv b2"
    "contents b2 = contents b1 @ frames_bytes (data_frames sid body True 16384)"
    using rbq.emitsD [OF emits_write_data_loop [of 16384 sid body True] b1(2)] sid(2) by auto
  have nil: "body = [] \<Longrightarrow> data_frames sid body True 16384 = []" by (simp add: data_frames.simps)
  show thesis
  proof (cases "body = []")
    case True
    with that [of "c\<lparr>hpack_enc := t', send_buf := b1\<rparr>" t'] dec b1 nil e p c(2) show thesis
      by (simp add: send_response_def Let_def on_send_def response_bytes_def)
  next
    case False
    with that [of "c\<lparr>hpack_enc := t', send_buf := b2\<rparr>" t'] dec b1 b2 e p c(2) sid(1) show thesis
      by (simp add: send_response_def Let_def on_send_def response_bytes_def write_data_def)
  qed
qed

lemma response_received:
  assumes hs: "\<And>acc. hpack_decode (hpack_dec d) (concat (map literal_bytes hs)) acc = (Inr (), t', acc @ map received hs)"
    and blk: "length (concat (map literal_bytes hs)) \<le> 16384" and sid: "sid \<noteq> 0" "sid AND 0x80000000 = 0"
    and d: "c_max_frame_size d = 16384" "streams d sid = None"
  shows "\<exists>d'. loop_bytes d (response_bytes sid hs body) [] = (Inr [sid], d', []) \<and>
    stream_is d' sid HalfClosedRemote (map received hs) body \<and> hpack_dec d' = t'"
proof -
  let ?blk = "concat (map literal_bytes hs)"
  let ?f = "mk_frame FT_HEADERS (END_HEADERS OR (if body = [] then END_STREAM else 0)) sid ?blk"
  have ok: "frame_ok (c_max_frame_size d) ?f" using blk sid d(1) by (intro frame_ok_mk) simp_all
  obtain d1 where d1: "handle_frame ?f d [] = (Inr (), d1, if body = [] then [sid] else [])"
    "stream_is d1 sid (if body = [] then HalfClosedRemote else Open) (map received hs) []"
    "fixed d1 = fixed d" "hpack_dec d1 = t'"
    using handle_headers_frame [OF d(2) sid(1), of ?blk t' "map received hs" "body = []" "[]"] hs [of "[]"] by auto
  have l: "loop_bytes d (response_bytes sid hs body) [] =
      loop_bytes d1 (frames_bytes (data_frames sid body True 16384)) (if body = [] then [sid] else [])"
    unfolding response_bytes_def loop_bytes_frame [OF ok] d1(1) by simp
  show ?thesis
  proof (cases "body = []")
    case True
    then show ?thesis using l d1 by (auto simp: data_frames.simps loop_bytes.simps parse_frame_def)
  next
    case False
    have m: "unat (c_max_frame_size d1) = 16384" using d1(3) d(1) by (simp add: fixed_def)
    have o: "stream_is d1 sid Open (map received hs) []" using d1(2) False by simp
    show ?thesis using data_frames_delivered [OF o False m _ _ sid(2), of "[]"] l d1(4) False by auto
  qed
qed

section \<open>Properties\<close>

text \<open>Invariant of a connection: whatever sequence of feeds, processing (failed processing
  included), responses, window updates, reads of bodies and output and GOAWAYs a connection goes
  through, its ring buffers stay well formed, the HPACK decoder's table keeps its size bounds, the
  frame size limit stays 16384, and every stream is filed under its own non-zero id, not above
  last_peer_stream, is idle, open or half closed by the peer, and has body bytes only once its
  headers have arrived.\<close>

lemma h2_run_invariant: "h2_run c log \<Longrightarrow> conn_inv c"
  by (rule h2_run_inv)

lemma h2_run_invariant_witness: "conn_inv (snd (feed [0, 1, 2] (new_H2Conn True)))"
  by (rule h2_run_invariant [OF run_feed [OF run_new]])

text \<open>A HEADERS frame with END_STREAM and an empty block, read by a client.\<close>

lemma headers_frame_run:
  obtains c' where "process (snd (feed [0, 0, 0, 1, 5, 0, 0, 0, 1] (new_H2Conn False))) = (Inr [1], c')"
    "h2_run c' [1]" "remote_closed c' 1" "\<not> remote_closed (snd (feed [0, 0, 0, 1, 5, 0, 0, 0, 1] (new_H2Conn False))) 1"
proof -
  let ?bs = "[0, 0, 0, 1, 5, 0, 0, 0, 1] :: bytes" and ?c = "new_H2Conn False"
  let ?v = "fst (h2_view ?c)"
  have v: "c_max_frame_size ?v = 16384" "streams ?v 1 = None" "\<not> is_server ?v" "snd (h2_view ?c) = []"
    by (simp_all add: h2_view_def new_H2Conn_def)
  have "response_bytes 1 [] [] = ?bs"
    by (simp add: response_bytes_def data_frames.simps frame_bytes_def header_bytes_def mk_frame_def u32_bytes_def
        byte_at_def frame_types frame_flags)
  then obtain d where "loop_bytes ?v ?bs [] = (Inr [1], d, [])"
    using response_received [of ?v "[]" "hpack_dec ?v" 1 "[]"] v by (auto simp: hpack_decode.simps)
  then have "process_bytes (?v, ?bs) = (Inr [1], d, [])" using v(3) by (simp add: process_bytes_def)
  then obtain c' where c': "process (snd (feed ?bs ?c)) = (Inr [1], c')"
    using process_eval [of "snd (feed ?bs ?c)"] feed_view [OF rb_inv_new_conn, of ?bs False] v(4) by (metis append_Nil)
  have run: "h2_run c' ([] @ [1])" by (rule run_process [OF run_feed [OF run_new] c'])
  have "\<not> remote_closed (snd (feed ?bs ?c)) 1" by (simp add: feed_eq remote_closed_def new_H2Conn_def)
  then show thesis using that c' run h2_run_once [OF run] by simp
qed

text \<open>C16. A request is dispatched at most once: in the whole life of a connection no stream id is
  reported ready twice, and every reported stream stays ended by the peer, so a later HEADERS or
  DATA frame on it cannot reopen it.\<close>

theorem h2_ready_once: "h2_run c log \<Longrightarrow> distinct log \<and> list_all (remote_closed c) log"
  using h2_run_once by (auto simp: list_all_iff)

theorem h2_ready_once_witness:
  "\<exists>c. h2_run c [1] \<and> distinct [1 :: u32] \<and> list_all (remote_closed c) [1]"
proof -
  obtain c where c: "h2_run c [1]" using headers_frame_run by metis
  from h2_ready_once [OF c] c show ?thesis by blast
qed

text \<open>Ready means ended: when process succeeds, the streams it returns are exactly those that
  the peer ended during this call, each once.\<close>

lemma process_ready_exact:
  assumes "process c = (Inr ready, c')"
  shows "distinct ready \<and> set ready = {sid. remote_closed c' sid \<and> \<not> remote_closed c sid}"
  using process_reports [OF assms] by (auto simp: reports_def reported_def)

lemma process_ready_exact_witness:
  "\<exists>c c'. process c = (Inr [1], c') \<and> {sid. remote_closed c' sid \<and> \<not> remote_closed c sid} = {1}"
proof -
  obtain c c' where c: "process c = (Inr [1], c')" using headers_frame_run by metis
  from process_ready_exact [OF c] c show ?thesis by auto
qed

lemma response_reaches_peer:
  assumes "\<forall>h\<in>set hs. header_ok h" "length (concat (map literal_bytes hs)) \<le> 16384"
    and sid: "sid \<noteq> 0" "sid AND 0x80000000 = 0"
    and c: "conn_inv c"
    and d: "conn_inv d" "contents (recv_buf d) = []" "is_server d \<longrightarrow> saw_preface d" "streams d sid = None"
    and sync: "hpack_dec d = hpack_enc c"
  shows "\<exists>c' out d'. send_response sid hs body True c = (Inr (), c') \<and>
    pending_output c' = pending_output c @ out \<and> process (snd (feed out d)) = (Inr [sid], d') \<and>
    stream_headers sid d' = Some (map received hs) \<and> stream_body sid d' = Some body \<and> hpack_dec d' = hpack_enc c'"
proof -
  have inv: "rb_inv (send_buf c)" "c_max_frame_size c = 16384" "rb_inv (recv_buf d)" "c_max_frame_size d = 16384"
    using c d(1) by (simp_all add: conn_inv_def)
  obtain c' t' where c': "send_response sid hs body True c = (Inr (), c')" "rb_inv (send_buf c')" "hpack_enc c' = t'"
    "contents (send_buf c') = contents (send_buf c) @ response_bytes sid hs body"
    "\<And>acc. hpack_decode (hpack_enc c) (concat (map literal_bytes hs)) acc = (Inr (), t', acc @ map received hs)"
    using send_response_bytes [OF assms(1,2) sid inv(1,2)] by metis
  let ?v = "fst (h2_view d)" and ?out = "response_bytes sid hs body"
  have v: "hpack_dec ?v = hpack_enc c" "c_max_frame_size ?v = 16384" "streams ?v sid = None" "is_server ?v \<longrightarrow> saw_preface ?v"
    "snd (h2_view d) = []"
    using d sync inv by (simp_all add: h2_view_def)
  obtain d1 where d1: "loop_bytes ?v ?out [] = (Inr [sid], d1, [])"
    "stream_is d1 sid HalfClosedRemote (map received hs) body" "hpack_dec d1 = t'"
    using response_received [OF _ assms(2) sid v(2,3), of t' body] c'(5) v(1) by auto
  note f = feed_view [OF inv(3), of ?out]
  have "process_bytes (h2_view (snd (feed ?out d))) = (Inr [sid], d1, [])"
    using f d1(1) v(4,5) by (auto simp: process_bytes_def)
  then obtain d' where d': "process (snd (feed ?out d)) = (Inr [sid], d')" "h2_view d' = (d1, [])"
    using process_eval f by metis
  have "streams d' = streams d1" "hpack_dec d' = hpack_dec d1" using d'(2) by (auto simp: h2_view_def)
  then have "stream_headers sid d' = Some (map received hs)" "stream_body sid d' = Some body" "hpack_dec d' = hpack_enc c'"
    using d1(2,3) c'(3)
    by (auto simp: stream_is_def stream_headers_def stream_body_def stream_inv_def rbq.peek_law readable_contents)
  then show ?thesis
    using c' d' inv(1) by (intro exI [of _ c'] exI [of _ ?out] exI [of _ d'])
      (auto simp: pending_output_def rbq.peek_law readable_contents)
qed


lemma length_string_bytes: "length s < 127 \<Longrightarrow> length (string_bytes s) \<le> Suc (length s)"
proof -
  assume "length s < 127"
  then have n: "string_len s < 127" using string_len_le [of s] by simp
  then have "unat (word_of_nat (string_len s) :: u64) < unat (mask 7 :: u64)"
    by (simp add: word_of_nat_len unat_mask)
  then have "length (int_bytes (word_of_nat (string_len s)) 7 pre) = 1" for pre
    by (simp add: int_bytes_def word_less_nat_alt)
  then show ?thesis using string_len_le [of s]
    by (simp add: string_bytes_def huff_encode_length)
qed

definition demo_response :: HpackHeader where
  "demo_response = \<lparr>hp_name = ''te'', hp_value = ''x'', hp_sensitive = False\<rparr>"

lemma demo_response_ok: "header_ok demo_response" "length (literal_bytes demo_response) \<le> 16384"
  using demo_string_len length_string_bytes [of "''te''"] length_string_bytes [of "''x''"]
  by (simp_all add: demo_response_def header_ok_def has_uppercase_def isupper_c_def ord_c_def literal_bytes_def)


lemma on_send_emits:
  assumes "rbq.emits w bs" "rb_inv (send_buf c)"
  obtains c' where "on_send w c = (Inr (), c')" "rb_inv (send_buf c')" "fixed c' = fixed c"
proof -
  obtain b where "w (send_buf c) = (Inr (), b)" "rb_inv b" using rbq.emitsD [OF assms] .
  then show thesis by (intro that [of "c\<lparr>send_buf := b\<rparr>"]) (simp_all add: on_send_def)
qed

lemma emits_settings:
  "rbq.emits (write_settings []) (frame_bytes (mk_frame FT_SETTINGS 0 0 []))"
  "rbq.emits write_settings_ack (frame_bytes (mk_frame FT_SETTINGS ACK 0 []))"
proof -
  have "append_settings [] = (\<lambda>buf. (Inr (), buf))" by (simp add: fun_eq_iff)
  then have "rbq.emits (append_settings []) []" using rbq.emits_nothing by simp
  then show "rbq.emits (write_settings []) (frame_bytes (mk_frame FT_SETTINGS 0 0 []))"
    "rbq.emits write_settings_ack (frame_bytes (mk_frame FT_SETTINGS ACK 0 []))"
    using emits_header [of "[]" 0 "append_settings []" FT_SETTINGS 0] emits_frame_header [of "[]" 0 FT_SETTINGS ACK]
    by (simp_all add: write_settings_def [abs_def] write_settings_ack_def [abs_def] frame_bytes_def)
qed

lemma server_refuses_stream_0:
  assumes "rb_inv (send_buf c)" "c_max_frame_size c = 16384"
  shows "fst (loop_bytes c (frame_bytes (mk_frame FT_SETTINGS 0 0 []) @
      frame_bytes (mk_frame FT_WINDOW_UPDATE 0 0 (u32_bytes increment))) ready) =
    Inl (from_code Http2Protocol ''stream frame on stream 0'')"
proof -
  obtain c1 where c1: "on_send write_settings_ack c = (Inr (), c1)" "fixed c1 = fixed c"
    using on_send_emits [OF emits_settings(2) assms(1)] by blast
  have m: "c_max_frame_size c1 = 16384" using c1(2) assms(2) by (simp add: fixed_def)
  let ?w = "mk_frame FT_WINDOW_UPDATE 0 0 (u32_bytes increment)"
  have ok: "frame_ok (c_max_frame_size c) (mk_frame FT_SETTINGS 0 0 [])" "frame_ok (c_max_frame_size c1) ?w"
    using assms(2) m by (auto intro!: frame_ok_mk simp: u32_bytes_def)
  show ?thesis
    unfolding loop_bytes_frame [OF ok(1)]
    using loop_bytes_frame [OF ok(2), of "[]" ready] c1(1)
    by (simp add: handle_frame_def handle_settings_def frame_types frame_flags)
qed

text \<open>Connection-level flow control is refused: a client that opens with the preface, its
  SETTINGS and a WINDOW_UPDATE for the connection, as RFC 9113 provides and common clients do, is
  answered with a protocol error for every increment, because every frame other than SETTINGS, PING
  and GOAWAY on stream 0 is an error.\<close>

lemma h2_connection_window_refused:
  "fst (process (snd (feed (bytes_of_string H2_PREFACE @ frame_bytes (mk_frame FT_SETTINGS 0 0 []) @
       frame_bytes (mk_frame FT_WINDOW_UPDATE 0 0 (u32_bytes increment))) (new_H2Conn True)))) =
     Inl (from_code Http2Protocol ''stream frame on stream 0'')"
proof -
  let ?c = "new_H2Conn True" and ?v = "fst (h2_view (new_H2Conn True))"
  let ?rest = "frame_bytes (mk_frame FT_SETTINGS 0 0 []) @ frame_bytes (mk_frame FT_WINDOW_UPDATE 0 0 (u32_bytes increment))"
  let ?bs = "bytes_of_string H2_PREFACE @ ?rest" and ?s = "?v\<lparr>saw_preface := True\<rparr>"
  have v: "rb_inv (send_buf ?v)" "c_max_frame_size ?v = 16384" "is_server ?v" "\<not> saw_preface ?v" "snd (h2_view ?c) = []"
    by (simp_all add: h2_view_def new_H2Conn_def)
  obtain c2 where c2: "on_send (write_settings []) ?s = (Inr (), c2)" "rb_inv (send_buf c2)" "fixed c2 = fixed ?s"
    using on_send_emits [OF emits_settings(1), of ?s] v(1) by auto
  have "c_max_frame_size c2 = 16384" using c2(3) v(2) by (simp add: fixed_def)
  then have "fst (process_bytes (?v, ?bs)) = Inl (from_code Http2Protocol ''stream frame on stream 0'')"
    using server_refuses_stream_0 [OF c2(2)] c2(1) v(3,4) by (simp add: process_bytes_def)
  then show ?thesis
    using process_view [of "snd (feed ?bs ?c)"] feed_view [OF rb_inv_new_conn, of ?bs True] v(5)
    by (cases "process (snd (feed ?bs ?c))") simp
qed

end
