(* ===== verification/Log.thy ===== *)
theory Log
  imports Prelude
begin

text \<open>
  The logger (\<^verbatim>\<open>include/uproxy/log.h\<close>, \<^verbatim>\<open>src/log.cpp\<close>).  The variadic key-value arguments are a
  list of pairs, already rendered by \<^verbatim>\<open>value_to_string\<close>; what a call writes to the log file is
  the string that \<open>log_text\<close> returns.  \<^verbatim>\<open>fprintf\<close> with \<^verbatim>\<open>%s\<close> stops at the first zero character
  (\<open>c_str\<close>).  The mutex and the flush have no counterpart.
\<close>

section \<open>Model\<close>

datatype LogLevel = Trace | Debug | Info | Warn | LError

definition parse_log_level :: "string \<Rightarrow> LogLevel" where
  "parse_log_level level =
     (if level = ''trace'' then Trace
      else if level = ''debug'' then Debug
      else if level = ''warn'' then Warn
      else if level = ''error'' then LError
      else Info)"

fun log_level_name :: "LogLevel \<Rightarrow> string" where
  "log_level_name Trace = ''trace''"
| "log_level_name Debug = ''debug''"
| "log_level_name Info = ''info''"
| "log_level_name Warn = ''warn''"
| "log_level_name LError = ''error''"

text \<open>The conversion to \<^verbatim>\<open>int\<close> of an enumerator.\<close>

fun level_int :: "LogLevel \<Rightarrow> int" where
  "level_int Trace = 0"
| "level_int Debug = 1"
| "level_int Info = 2"
| "level_int Warn = 3"
| "level_int LError = 4"

record Logger =
  min_level :: LogLevel
  json_format :: bool

definition new_Logger :: "LogLevel \<Rightarrow> bool \<Rightarrow> Logger" where
  "new_Logger level json = \<lparr>min_level = level, json_format = json\<rparr>"

abbreviation QUOTE :: char where "QUOTE \<equiv> CHR 0x22"
abbreviation BACKSLASH :: char where "BACKSLASH \<equiv> CHR 0x5C"

definition escape_char :: "char \<Rightarrow> string" where
  "escape_char c =
     (if c = BACKSLASH then [BACKSLASH, BACKSLASH]
      else if c = QUOTE then [BACKSLASH, QUOTE]
      else if c = LF then [BACKSLASH, CHR ''n'']
      else if c = CR then [BACKSLASH, CHR ''r'']
      else if c = TAB then [BACKSLASH, CHR ''t'']
      else [c])"

fun escape_json :: "string \<Rightarrow> string" where
  "escape_json [] = []"
| "escape_json (c # input) = escape_char c @ escape_json input"

definition c_str :: "string \<Rightarrow> string" where
  "c_str s = takeWhile (\<lambda>c. c \<noteq> CHR 0x00) s"

definition quoted :: "string \<Rightarrow> string" where
  "quoted s = [QUOTE] @ c_str (escape_json s) @ [QUOTE]"

fun write_json_pairs :: "(string \<times> string) list \<Rightarrow> string" where
  "write_json_pairs [] = []"
| "write_json_pairs ((key, value) # rest) =
     '','' @ quoted key @ '':'' @ quoted value @ write_json_pairs rest"

fun write_text_pairs :: "(string \<times> string) list \<Rightarrow> string" where
  "write_text_pairs [] = []"
| "write_text_pairs ((key, value) # rest) =
     [SP] @ c_str key @ ''='' @ c_str value @ write_text_pairs rest"

definition log_text :: "Logger \<Rightarrow> LogLevel \<Rightarrow> string \<Rightarrow> (string \<times> string) list \<Rightarrow> string" where
  "log_text lg level msg kv =
     (if level_int level < level_int (min_level lg) then []
      else if json_format lg
      then ''{'' @ [QUOTE] @ ''level'' @ [QUOTE] @ '':'' @ [QUOTE] @ log_level_name level @ [QUOTE] @ '','' @
           [QUOTE] @ ''msg'' @ [QUOTE] @ '':'' @ quoted msg @ write_json_pairs kv @ ''}'' @ [LF]
      else log_level_name level @ [SP] @ c_str msg @ write_text_pairs kv @ [LF])"

definition log_info :: "Logger option \<Rightarrow> string \<Rightarrow> (string \<times> string) list \<Rightarrow> string" where
  "log_info g_log msg kv = (case g_log of None \<Rightarrow> [] | Some lg \<Rightarrow> log_text lg Info msg kv)"

definition log_warn :: "Logger option \<Rightarrow> string \<Rightarrow> (string \<times> string) list \<Rightarrow> string" where
  "log_warn g_log msg kv = (case g_log of None \<Rightarrow> [] | Some lg \<Rightarrow> log_text lg Warn msg kv)"

definition log_error :: "Logger option \<Rightarrow> string \<Rightarrow> (string \<times> string) list \<Rightarrow> string" where
  "log_error g_log msg kv = (case g_log of None \<Rightarrow> [] | Some lg \<Rightarrow> log_text lg LError msg kv)"

definition log_debug :: "Logger option \<Rightarrow> string \<Rightarrow> (string \<times> string) list \<Rightarrow> string" where
  "log_debug g_log msg kv = (case g_log of None \<Rightarrow> [] | Some lg \<Rightarrow> log_text lg Debug msg kv)"

section \<open>A reader for the JSON lines\<close>

text \<open>\<open>json_string\<close> reads the rest of a string literal after its opening quote, \<open>json_pairs\<close> the
  members of an object up to and including its closing brace and the line feed.\<close>

definition unescape :: "char \<Rightarrow> char option" where
  "unescape c =
     (if c = BACKSLASH \<or> c = QUOTE then Some c
      else if c = CHR ''n'' then Some LF
      else if c = CHR ''r'' then Some CR
      else if c = CHR ''t'' then Some TAB
      else None)"

fun json_string :: "string \<Rightarrow> (string \<times> string) option" where
  "json_string [] = None"
| "json_string [c] = (if c = QUOTE then Some ([], []) else None)"
| "json_string (c # d # s) =
     (if c = QUOTE then Some ([], d # s)
      else if c = BACKSLASH
      then (case unescape d of None \<Rightarrow> None
            | Some x \<Rightarrow> map_option (\<lambda>(t, rest). (x # t, rest)) (json_string s))
      else map_option (\<lambda>(t, rest). (c # t, rest)) (json_string (d # s)))"

fun expect :: "string \<Rightarrow> string \<Rightarrow> string option" where
  "expect [] s = Some s"
| "expect (c # p) (d # s) = (if c = d then expect p s else None)"
| "expect (c # p) [] = None"

definition json_pair :: "string \<Rightarrow> ((string \<times> string) \<times> string) option" where
  "json_pair s =
     Option.bind (expect [QUOTE] s) (\<lambda>s1. Option.bind (json_string s1) (\<lambda>(k, s2).
       Option.bind (expect ('':'' @ [QUOTE]) s2) (\<lambda>s3. map_option (\<lambda>(v, s4). ((k, v), s4)) (json_string s3))))"

lemma json_string_shorter: "json_string s = Some (t, rest) \<Longrightarrow> length rest < length s"
  by (induction s arbitrary: t rest rule: json_string.induct) (fastforce split: if_splits option.splits)+

lemma expect_length: "expect p s = Some rest \<Longrightarrow> length s = length p + length rest"
  by (induction p s rule: expect.induct) (auto split: if_splits)

lemma json_pair_shorter: "json_pair s = Some (kv, rest) \<Longrightarrow> length rest < length s"
  unfolding json_pair_def
  by (auto simp: bind_eq_Some_conv simp del: expect.simps dest!: json_string_shorter expect_length)

function json_pairs :: "string \<Rightarrow> (string \<times> string) list option" where
  "json_pairs s =
     (case json_pair s of None \<Rightarrow> None
      | Some (kv, s1) \<Rightarrow>
          if s1 = ''}'' @ [LF] then Some [kv]
          else (case expect '','' s1 of None \<Rightarrow> None
                | Some s2 \<Rightarrow> map_option ((#) kv) (json_pairs s2)))"
  by pat_completeness auto
termination
  by (relation "measure length") (auto dest!: json_pair_shorter expect_length simp del: expect.simps)

declare json_pairs.simps [simp del]

definition json_line :: "string \<Rightarrow> (string \<times> string) list option" where
  "json_line s = Option.bind (expect ''{'' s) json_pairs"

lemma c_str_id: "CHR 0x00 \<notin> set s \<Longrightarrow> c_str s = s"
  unfolding c_str_def by (rule takeWhile_eq_all_conv [THEN iffD2]) auto

lemma escape_json_no_zero: "CHR 0x00 \<notin> set s \<Longrightarrow> CHR 0x00 \<notin> set (escape_json s)"
  by (induction s) (auto simp: escape_char_def)

lemma json_string_escape:
  "json_string (escape_json s @ QUOTE # rest) = Some (s, rest)"
proof (induction s)
  case Nil
  show ?case by (cases rest) simp_all
next
  case (Cons c s)
  have ne: "\<exists>d t. escape_json s @ QUOTE # rest = d # t"
    by (cases "escape_json s") auto
  with Cons show ?case by (auto simp: escape_char_def unescape_def)
qed

lemma json_string_quoted:
  "CHR 0x00 \<notin> set s \<Longrightarrow> expect [QUOTE] (quoted s @ rest) = Some (escape_json s @ QUOTE # rest)"
  by (simp add: quoted_def c_str_id escape_json_no_zero)

lemma json_pair_quoted:
  assumes "CHR 0x00 \<notin> set k" "CHR 0x00 \<notin> set v"
  shows "json_pair (quoted k @ '':'' @ quoted v @ rest) = Some ((k, v), rest)"
  using assms by (simp add: json_pair_def quoted_def c_str_id escape_json_no_zero json_string_escape)

lemma json_pairs_written:
  assumes "\<forall>(k, v)\<in>set ((k0, v0) # kv). CHR 0x00 \<notin> set k \<and> CHR 0x00 \<notin> set v"
  shows "json_pairs (quoted k0 @ '':'' @ quoted v0 @ write_json_pairs kv @ ''}'' @ [LF]) = Some ((k0, v0) # kv)"
  using assms
proof (induction kv arbitrary: k0 v0)
  case Nil
  then show ?case by (subst json_pairs.simps) (simp add: json_pair_quoted [simplified])
next
  case (Cons p kv)
  obtain k v where p: "p = (k, v)" by (cases p)
  have "json_pairs (quoted k @ '':'' @ quoted v @ write_json_pairs kv @ ''}'' @ [LF]) = Some ((k, v) # kv)"
    using Cons.prems p by (intro Cons.IH) auto
  then show ?case
    using Cons.prems p by (subst json_pairs.simps) (simp add: json_pair_quoted [simplified])
qed

section \<open>Property\<close>


definition demo_logger :: Logger where
  "demo_logger = new_Logger Info True"


end
