(* ===== verification/Os.thy ===== *)
theory Os
  imports Results Log "HOL-Library.Multiset"
begin

text \<open>
  The operating system as the proxy sees it, and the descriptor wrapper \<^verbatim>\<open>Uniquefd\<close>
  (\<^verbatim>\<open>include/uproxy/fd.h\<close>, \<^verbatim>\<open>src/fd.cpp\<close>).

  What the kernel (and the TLS library) answers is not under the program's control, so it is an
  argument: \<open>script\<close> holds the replies to the calls still to come, in order, and \<open>trace\<close> the calls
  made so far with their replies.  An action of type \<open>'a io\<close> takes the system state and returns a
  value and the state after it, or \<open>None\<close> when a call finds no reply: then the program is still
  waiting in that call.  A loop that repeats a call is a recursion on the script, so it ends exactly
  when a reply ends it.  Nothing is assumed about the replies; a lemma that needs the kernel to
  keep its word (a \<^verbatim>\<open>send\<close> does not accept more than it was given) says so.

  A reply has the returned value, the value of \<^verbatim>\<open>errno\<close> after the call, the bytes the call stored
  in the caller's buffer and, for \<^verbatim>\<open>poll\<close>, \<^verbatim>\<open>getsockopt\<close>, \<^verbatim>\<open>epoll_wait\<close> and \<^verbatim>\<open>kevent\<close>, the
  further words it stored.  The shutdown flag, which signal handlers set, is read like a call
  (\<open>Shutdown_flag\<close>).  Constants have the values of the Linux headers.
\<close>

section \<open>Calls and actions\<close>

record Reply =
  ret :: int
  err :: int
  out :: bytes
  aux :: u32
  evs :: "(int \<times> u32) list"
  kevs :: "(u64 \<times> int \<times> u16) list"

datatype SockOpt = SO_REUSEADDR | SO_REUSEPORT | TCP_NODELAY

datatype LoopCall =
  Epoll_create | Epoll_add int u32 | Epoll_mod int u32 | Epoll_del int | Epoll_wait int
| Timerfd_settime int int int | Timer_read int | Shutdown_flag
| Kq_create | Kq_change "(u64 \<times> int \<times> u16 \<times> int) list" | Kq_wait "(int \<times> int) option"
| Open_log string | Fdopen int | Fclose

datatype TlsCall =
  Ssl_ctx_new bool | Ssl_use_certificate string | Ssl_use_key string | Ssl_check_key
| Ssl_handshake | Ssl_alpn | Ssl_get_error int | Ssl_read nat | Ssl_write bytes | Ssl_shutdown
| Bio_write bytes | Bio_read nat | Bio_should_retry | Bio_pending

datatype Call =
  Close int | Fcntl_getfl int | Fcntl_setfl int int | Setsockopt int SockOpt | Getsockopt_error int
| Socket | Inet_pton string | Inet_ntop | Connect int string u16 | Bind int string u16 | Listen int | Accept int
| Poll int u32 int | Send int bytes | Recv int nat | Clock | Timerfd_create | Loop LoopCall | Tls TlsCall

abbreviation (input) EINTR :: int where "EINTR \<equiv> 4"
abbreviation (input) ENOENT :: int where "ENOENT \<equiv> 2"
abbreviation (input) EAGAIN :: int where "EAGAIN \<equiv> 11"
abbreviation (input) EINPROGRESS :: int where "EINPROGRESS \<equiv> 115"
abbreviation (input) O_NONBLOCK :: int where "O_NONBLOCK \<equiv> 2048"
abbreviation (input) POLLIN :: u32 where "POLLIN \<equiv> 0x1"
abbreviation (input) POLLOUT :: u32 where "POLLOUT \<equiv> 0x4"
abbreviation (input) POLLERR :: u32 where "POLLERR \<equiv> 0x8"
abbreviation (input) POLLHUP :: u32 where "POLLHUP \<equiv> 0x10"
abbreviation (input) POLLNVAL :: u32 where "POLLNVAL \<equiv> 0x20"

record OS =
  script :: "Reply list"
  trace :: "(Call \<times> Reply) list"
  os_logger :: "Logger option"
  os_log :: string
  os_strerror :: "int \<Rightarrow> string"
  os_stderr :: string

type_synonym 'a io = "OS \<Rightarrow> ('a \<times> OS) option"

definition call :: "Call \<Rightarrow> Reply io" where
  "call c os =
     (case script os of
        [] \<Rightarrow> None
      | r # rs \<Rightarrow> Some (r, os\<lparr>script := rs, trace := trace os @ [(c, r)]\<rparr>))"

definition return_io :: "'a \<Rightarrow> 'a io" where
  "return_io x os = Some (x, os)"

definition bind_io :: "'a io \<Rightarrow> ('a \<Rightarrow> 'b io) \<Rightarrow> 'b io" where
  "bind_io m f os = (case m os of None \<Rightarrow> None | Some (x, os') \<Rightarrow> f x os')"

text \<open>The early return of an error: \<^verbatim>\<open>if (r.is_err()) return r.error();\<close>\<close>

definition try_io :: "'a result io \<Rightarrow> ('a \<Rightarrow> 'b result io) \<Rightarrow> 'b result io" where
  "try_io m f = bind_io m (\<lambda>r. case r of Inl e \<Rightarrow> return_io (Inl e) | Inr x \<Rightarrow> f x)"

definition log_info_io :: "string \<Rightarrow> (string \<times> string) list \<Rightarrow> unit io" where
  "log_info_io msg kv os = Some ((), os\<lparr>os_log := os_log os @ log_info (os_logger os) msg kv\<rparr>)"

definition log_warn_io :: "string \<Rightarrow> (string \<times> string) list \<Rightarrow> unit io" where
  "log_warn_io msg kv os = Some ((), os\<lparr>os_log := os_log os @ log_warn (os_logger os) msg kv\<rparr>)"

definition log_error_io :: "string \<Rightarrow> (string \<times> string) list \<Rightarrow> unit io" where
  "log_error_io msg kv os = Some ((), os\<lparr>os_log := os_log os @ log_error (os_logger os) msg kv\<rparr>)"

definition error_text :: "Error \<Rightarrow> string io" where
  "error_text e os = Some (error_to_string (os_strerror os) e, os)"

definition strerror_io :: "int \<Rightarrow> string io" where
  "strerror_io n os = Some (os_strerror os n, os)"

lemma bind_io_cong [fundef_cong]:
  assumes "os = os'" "m os' = m' os'" "\<And>x s. m' os' = Some (x, s) \<Longrightarrow> f x s = g x s"
  shows "bind_io m f os = bind_io m' g os'"
  using assms by (simp add: bind_io_def split: option.split prod.split)

lemma bind_io_eq_Some:
  "bind_io m f os = Some (y, os') \<longleftrightarrow> (\<exists>x s. m os = Some (x, s) \<and> f x s = Some (y, os'))"
  by (auto simp: bind_io_def split: option.splits)

lemma try_io_eq_Some:
  "try_io m f os = Some (y, os') \<longleftrightarrow>
     (\<exists>e. m os = Some (Inl e, os') \<and> y = Inl e) \<or> (\<exists>x s. m os = Some (Inr x, s) \<and> f x s = Some (y, os'))"
  by (auto simp: try_io_def bind_io_eq_Some return_io_def split: sum.splits) (metis sumE)

lemma call_eq_Some:
  "call c os = Some (r, os') \<longleftrightarrow>
     (\<exists>rs. script os = r # rs \<and> os' = os\<lparr>script := rs, trace := trace os @ [(c, r)]\<rparr>)"
  by (auto simp: call_def split: list.splits)

lemma return_io_eq_Some: "return_io x os = Some (y, os') \<longleftrightarrow> y = x \<and> os' = os"
  by (auto simp: return_io_def)

lemmas io_elims = bind_io_eq_Some try_io_eq_Some call_eq_Some return_io_eq_Some

section \<open>What an action does to the system\<close>

text \<open>\<open>did os tr os'\<close>: from \<open>os\<close> to \<open>os'\<close> exactly the calls \<open>tr\<close> were made, with the replies the
  script had for them; the log has only grown, and nothing went to the standard error.\<close>

definition did :: "OS \<Rightarrow> (Call \<times> Reply) list \<Rightarrow> OS \<Rightarrow> bool" where
  "did os tr os' \<longleftrightarrow> trace os' = trace os @ tr \<and> script os = map snd tr @ script os' \<and>
     os_logger os' = os_logger os \<and> os_strerror os' = os_strerror os \<and> os_stderr os' = os_stderr os \<and>
     (\<exists>l. os_log os' = os_log os @ l)"

lemma did_refl [simp]: "did os [] os"
  by (simp add: did_def)

lemma did_trans: "did os tr s \<Longrightarrow> did s tr' os' \<Longrightarrow> did os (tr @ tr') os'"
  by (auto simp: did_def)

lemma did_call: "call c os = Some (r, os') \<Longrightarrow> did os [(c, r)] os'"
  by (auto simp: call_eq_Some did_def)

lemma did_same: "did os tr os' \<Longrightarrow> did os tr' os' \<Longrightarrow> tr = tr'"
  by (simp add: did_def)

lemma did_shorter: "did os tr os' \<Longrightarrow> length (script os') + length tr = length (script os)"
  by (simp add: did_def)

text \<open>\<open>runs P m\<close>: whenever \<open>m\<close> returns, its value and the calls it made satisfy \<open>P\<close>.\<close>

definition runs :: "('a \<Rightarrow> (Call \<times> Reply) list \<Rightarrow> bool) \<Rightarrow> 'a io \<Rightarrow> bool" where
  "runs P m \<longleftrightarrow> (\<forall>os x os'. m os = Some (x, os') \<longrightarrow> (\<exists>tr. did os tr os' \<and> P x tr))"

lemma runsI: "(\<And>os x os'. m os = Some (x, os') \<Longrightarrow> \<exists>tr. did os tr os' \<and> P x tr) \<Longrightarrow> runs P m"
  by (simp add: runs_def)

lemma runsD:
  assumes "runs P m" "m os = Some (x, os')"
  obtains tr where "did os tr os'" "P x tr"
  using assms unfolding runs_def by blast

lemma runs_mono: "runs P m \<Longrightarrow> (\<And>x tr. P x tr \<Longrightarrow> Q x tr) \<Longrightarrow> runs Q m"
  unfolding runs_def by blast

lemma runs_return: "P x [] \<Longrightarrow> runs P (return_io x)"
  by (intro runsI exI [of _ "[]"]) (auto simp: return_io_eq_Some)

lemma runs_call: "(\<And>r. P r [(c, r)]) \<Longrightarrow> runs P (call c)"
  by (intro runsI) (auto dest: did_call)

lemma runs_bind:
  assumes "runs P m" "\<And>x tr. P x tr \<Longrightarrow> runs (\<lambda>y tr'. Q y (tr @ tr')) (f x)"
  shows "runs Q (bind_io m f)"
proof (rule runsI)
  fix os y os' assume "bind_io m f os = Some (y, os')"
  then obtain x s where m: "m os = Some (x, s)" and f: "f x s = Some (y, os')"
    by (auto simp: bind_io_eq_Some)
  obtain tr where tr: "did os tr s" "P x tr" using runsD [OF assms(1) m] .
  obtain tr' where "did s tr' os'" "Q y (tr @ tr')" using runsD [OF assms(2) [OF tr(2)] f] .
  with tr(1) show "\<exists>tr. did os tr os' \<and> Q y tr" using did_trans by blast
qed

lemma runs_call_bind:
  assumes "\<And>r. runs (\<lambda>y tr'. Q y ((c, r) # tr')) (f r)"
  shows "runs Q (bind_io (call c) f)"
  by (rule runs_bind [OF runs_call [where P = "\<lambda>r tr. tr = [(c, r)]"]]) (use assms in auto)

lemma runs_try:
  assumes "runs P m" "\<And>e tr. P (Inl e) tr \<Longrightarrow> Q (Inl e) tr"
    "\<And>x tr. P (Inr x) tr \<Longrightarrow> runs (\<lambda>y tr'. Q y (tr @ tr')) (f x)"
  shows "runs Q (try_io m f)"
  unfolding try_io_def
  by (rule runs_bind [OF assms(1)]) (auto simp: assms(2,3) intro: runs_return split: sum.splits)

lemma runs_if: "(b \<Longrightarrow> runs P m) \<Longrightarrow> (\<not> b \<Longrightarrow> runs P m') \<Longrightarrow> runs P (if b then m else m')"
  by simp

lemma runs_log:
  "P () [] \<Longrightarrow> runs P (log_info_io msg kv)" "P () [] \<Longrightarrow> runs P (log_warn_io msg kv)"
  "P () [] \<Longrightarrow> runs P (log_error_io msg kv)"
  by (intro runsI; force simp: log_info_io_def log_warn_io_def log_error_io_def did_def)+

lemma runs_text: "(\<And>s. P s []) \<Longrightarrow> runs P (error_text e)" "(\<And>s. P s []) \<Longrightarrow> runs P (strerror_io n)"
  by (intro runsI; force simp: error_text_def strerror_io_def did_def)+

lemma runs_shorter: "runs P m \<Longrightarrow> m os = Some (x, os') \<Longrightarrow> length (script os') \<le> length (script os)"
  by (metis le_add1 runsD did_shorter)

text \<open>A plain reply, for examples.\<close>

definition reply :: "int \<Rightarrow> Reply" where
  "reply n = \<lparr>ret = n, err = 0, out = [], aux = 0, evs = [], kevs = []\<rparr>"

section \<open>Descriptors\<close>

text \<open>A \<^verbatim>\<open>Uniquefd\<close> is its member \<^verbatim>\<open>fd_\<close>, minus one when it holds none.  Moving out of one is
  \<open>release_fd\<close>; its destructor is \<open>destroy_fd\<close>.\<close>

type_synonym Uniquefd = int

definition valid_fd :: "Uniquefd \<Rightarrow> bool" where
  "valid_fd fd \<longleftrightarrow> fd \<ge> 0"

definition release_fd :: "Uniquefd \<Rightarrow> int \<times> Uniquefd" where
  "release_fd fd = (fd, -1)"

function close_loop :: "int \<Rightarrow> OS \<Rightarrow> (unit \<times> OS) option" where
  "close_loop fd os =
     bind_io (call (Close fd))
       (\<lambda>r s. if ret r < 0 \<and> err r = EINTR then close_loop fd s else return_io () s) os"
  by pat_completeness auto
termination
  by (relation "measure (\<lambda>(_, os). length (script os))") (auto simp: call_eq_Some)

declare close_loop.simps [simp del]

definition reset_fd :: "Uniquefd \<Rightarrow> int \<Rightarrow> Uniquefd io" where
  "reset_fd fd new = bind_io (if fd \<ge> 0 then close_loop fd else return_io ()) (\<lambda>_. return_io new)"

definition destroy_fd :: "Uniquefd \<Rightarrow> unit io" where
  "destroy_fd fd = bind_io (reset_fd fd (-1)) (\<lambda>_. return_io ())"

text \<open>The move constructor and the move assignment return the two objects; \<open>same\<close> says that an object is
  assigned to itself.\<close>

definition new_Uniquefd :: "int \<Rightarrow> Uniquefd" where
  "new_Uniquefd fd = fd"

definition get_fd :: "Uniquefd \<Rightarrow> int" where
  "get_fd fd = fd"

definition move_fd :: "Uniquefd \<Rightarrow> Uniquefd \<times> Uniquefd" where
  "move_fd other = (case release_fd other of (fd, rest) \<Rightarrow> (new_Uniquefd fd, rest))"

definition assign_fd :: "bool \<Rightarrow> Uniquefd \<Rightarrow> Uniquefd \<Rightarrow> (Uniquefd \<times> Uniquefd) io" where
  "assign_fd same this other =
     (if \<not> same
      then case release_fd other of (fd, rest) \<Rightarrow> bind_io (reset_fd this fd) (\<lambda>this1. return_io (this1, rest))
      else return_io (this, other))"

definition set_nonblocking :: "Uniquefd \<Rightarrow> unit result io" where
  "set_nonblocking fd =
     bind_io (call (Fcntl_getfl fd)) (\<lambda>r.
       if ret r < 0 then return_io (Inl (from_errno (err r) ''fcntl(F_GETFL)''))
       else bind_io (call (Fcntl_setfl fd (or (ret r) O_NONBLOCK))) (\<lambda>r2.
         if ret r2 < 0 then return_io (Inl (from_errno (err r2) ''fcntl(F_SETFL O_NONBLOCK)''))
         else return_io (Inr ())))"

definition set_reuse :: "Uniquefd \<Rightarrow> unit result io" where
  "set_reuse fd =
     bind_io (call (Setsockopt fd SO_REUSEADDR)) (\<lambda>r.
       if ret r < 0 then return_io (Inl (from_errno (err r) ''setsockopt(SO_REUSEADDR)''))
       else bind_io (call (Setsockopt fd SO_REUSEPORT)) (\<lambda>r2.
         if ret r2 < 0 then return_io (Inl (from_errno (err r2) ''setsockopt(SO_REUSEPORT)''))
         else return_io (Inr ())))"

definition set_nodelay :: "Uniquefd \<Rightarrow> unit result io" where
  "set_nodelay fd =
     bind_io (call (Setsockopt fd TCP_NODELAY)) (\<lambda>r.
       if ret r < 0 then return_io (Inl (from_errno (err r) ''setsockopt(TCP_NODELAY)''))
       else return_io (Inr ()))"

section \<open>Which descriptors are open\<close>

text \<open>The descriptors that calls of the trace handed out, and those that were closed for good; a
  \<^verbatim>\<open>close\<close> that was interrupted is repeated and counts once.\<close>

definition opens :: "Call \<Rightarrow> bool" where
  "opens c = (case c of Socket \<Rightarrow> True | Accept _ \<Rightarrow> True | Timerfd_create \<Rightarrow> True | Loop c \<Rightarrow> c = Epoll_create \<or> c = Kq_create | _ \<Rightarrow> False)"

definition opened1 :: "Call \<times> Reply \<Rightarrow> int multiset" where
  "opened1 p = (if opens (fst p) \<and> ret (snd p) \<ge> 0 then {#ret (snd p)#} else {#})"

definition closed1 :: "Call \<times> Reply \<Rightarrow> int multiset" where
  "closed1 p = (case fst p of Close fd \<Rightarrow> if ret (snd p) < 0 \<and> err (snd p) = EINTR then {#} else {#fd#} | _ \<Rightarrow> {#})"

declare opens_def [simp] opened1_def [simp] closed1_def [simp]

definition opened :: "(Call \<times> Reply) list \<Rightarrow> int multiset" where
  "opened tr = sum_list (map opened1 tr)"

definition closed :: "(Call \<times> Reply) list \<Rightarrow> int multiset" where
  "closed tr = sum_list (map closed1 tr)"

lemma opened_simps [simp]: "opened [] = {#}" "opened (x # tr) = opened1 x + opened tr" "opened (tr @ tr') = opened tr + opened tr'"
  by (simp_all add: opened_def)

lemma closed_simps [simp]: "closed [] = {#}" "closed (x # tr) = closed1 x + closed tr" "closed (tr @ tr') = closed tr + closed tr'"
  by (simp_all add: closed_def)

text \<open>\<open>owned fd\<close>: what a \<^verbatim>\<open>Uniquefd\<close> owns.  \<open>moves old new m\<close>: the action \<open>m\<close> turns the descriptors
  \<open>old\<close> held before it into those that its result holds, \<open>new\<close>, by opening and closing, without
  losing one and without closing one that is not held.\<close>

definition owned :: "Uniquefd \<Rightarrow> int multiset" where
  "owned fd = (if valid_fd fd then {#fd#} else {#})"

lemma owned_invalid: "\<not> valid_fd fd \<Longrightarrow> owned fd = {#}"
  by (simp add: owned_def)

definition moves :: "int multiset \<Rightarrow> ('a \<Rightarrow> int multiset) \<Rightarrow> 'a io \<Rightarrow> bool" where
  "moves old new m \<longleftrightarrow> runs (\<lambda>x tr. old + opened tr = closed tr + new x) m"

lemma runs_close_loop: "runs (\<lambda>_ tr. opened tr = {#} \<and> closed tr = {#fd#} \<and> (\<forall>(c, r)\<in>set tr. c = Close fd)) (close_loop fd)"
proof (rule runsI)
  fix os x os' assume "close_loop fd os = Some (x, os')"
  then show "\<exists>tr. did os tr os' \<and> opened tr = {#} \<and> closed tr = {#fd#} \<and> (\<forall>(c, r)\<in>set tr. c = Close fd)"
  proof (induction fd os rule: close_loop.induct)
    case (1 fd os)
    from 1(2) obtain r s where c: "call (Close fd) os = Some (r, s)"
      and k: "(if ret r < 0 \<and> err r = EINTR then close_loop fd s else return_io () s) = Some (x, os')"
      by (subst (asm) close_loop.simps) (auto simp: bind_io_eq_Some)
    note d = did_call [OF c]
    show ?case
    proof (cases "ret r < 0 \<and> err r = EINTR")
      case True
      then obtain tr where "did s tr os'" "opened tr = {#}" "closed tr = {#fd#}" "\<forall>(c, r)\<in>set tr. c = Close fd"
        using 1(1) [OF c] k by auto
      with True did_trans [OF d] show ?thesis by (intro exI [of _ "(Close fd, r) # tr"]) auto
    next
      case False
      then show ?thesis using k d by (intro exI [of _ "[(Close fd, r)]"]) (auto simp: return_io_eq_Some)
    qed
  qed
qed

lemma moves_return: "old = new x \<Longrightarrow> moves old new (return_io x)"
  unfolding moves_def by (rule runs_return) simp

lemma balance_trans: "a + b = c + d \<Longrightarrow> d + e = f + g \<Longrightarrow> a + (b + e) = c + (f + g)" for a :: "'a multiset"
  by (metis add.assoc)

lemma moves_bind:
  assumes m: "moves old mid m" and f: "\<And>x. moves (mid x) new (f x)"
  shows "moves old new (bind_io m f)"
  unfolding moves_def
proof (rule runs_bind [OF m [unfolded moves_def]])
  fix x tr assume b: "old + opened tr = closed tr + mid x"
  show "runs (\<lambda>y tr'. old + opened (tr @ tr') = closed (tr @ tr') + new y) (f x)"
  proof (rule runs_mono [OF f [of x, unfolded moves_def]])
    fix y tr' assume "mid x + opened tr' = closed tr' + new y"
    from balance_trans [OF b this] show "old + opened (tr @ tr') = closed (tr @ tr') + new y"
      by (simp only: opened_simps closed_simps add.assoc)
  qed
qed

lemma moves_frame: "moves old new m \<Longrightarrow> moves (old + k) (\<lambda>x. new x + k) m"
  unfolding moves_def by (erule runs_mono) (simp add: algebra_simps)

lemma moves_frame': "moves {#} (\<lambda>_. {#}) m \<Longrightarrow> moves old (\<lambda>_. old) m"
  using moves_frame [of "{#}" "\<lambda>_. {#}" m old] by simp

lemma moves_try:
  assumes "moves old mid m" "\<And>e. mid (Inl e) = new (Inl e)" "\<And>x. moves (mid (Inr x)) new (f x)"
  shows "moves old new (try_io m f)"
  unfolding try_io_def
  by (rule moves_bind [OF assms(1)]) (auto simp: assms(2,3) intro: moves_return split: sum.split)

lemma moves_if: "(b \<Longrightarrow> moves old new m) \<Longrightarrow> (\<not> b \<Longrightarrow> moves old new m') \<Longrightarrow> moves old new (if b then m else m')"
  by simp

lemma moves_destroy: "moves (owned fd) (\<lambda>_. {#}) (destroy_fd fd)"
  unfolding destroy_fd_def reset_fd_def
proof (rule moves_bind [where mid = "\<lambda>_. {#}"], rule moves_bind [where mid = "\<lambda>_. {#}"])
  show "moves (owned fd) (\<lambda>_. {#}) (if fd \<ge> 0 then close_loop fd else return_io ())"
    using runs_mono [OF runs_close_loop [of fd]]
    by (auto simp: moves_def owned_def valid_fd_def intro!: runs_return)
qed (simp_all add: moves_return)

text \<open>Calls that neither open nor close a descriptor.\<close>

definition neutral :: "Call \<Rightarrow> bool" where
  "neutral c \<longleftrightarrow> (\<forall>r. opened1 (c, r) = {#} \<and> closed1 (c, r) = {#})"

lemma moves_call: "neutral c \<Longrightarrow> moves old (\<lambda>_. old) (call c)"
  unfolding moves_def neutral_def by (rule runs_call) simp

lemma moves_log: "moves old (\<lambda>_. old) (log_info_io msg kv)" "moves old (\<lambda>_. old) (log_warn_io msg kv)"
  "moves old (\<lambda>_. old) (log_error_io msg kv)" "moves old (\<lambda>_. old) (error_text e)" "moves old (\<lambda>_. old) (strerror_io n)"
  unfolding moves_def by (rule runs_log runs_text; simp)+

lemma moves_call_bind: "neutral c \<Longrightarrow> (\<And>r. moves old new (f r)) \<Longrightarrow> moves old new (bind_io (call c) f)"
  by (rule moves_bind [OF moves_call])

lemma moves_options:
  "moves old (\<lambda>_. old) (set_nonblocking fd)" "moves old (\<lambda>_. old) (set_reuse fd)" "moves old (\<lambda>_. old) (set_nodelay fd)"
  unfolding set_nonblocking_def set_reuse_def set_nodelay_def
  by (intro moves_call_bind moves_if moves_return; simp add: neutral_def)+

section \<open>Which calls an action makes\<close>

text \<open>\<open>only Q os (m os)\<close>: started in \<open>os\<close>, the action \<open>m\<close> makes only calls that satisfy \<open>Q\<close>.\<close>

definition only :: "(Call \<Rightarrow> bool) \<Rightarrow> OS \<Rightarrow> ('a \<times> OS) option \<Rightarrow> bool" where
  "only Q os res \<longleftrightarrow> (\<forall>x os'. res = Some (x, os') \<longrightarrow> (\<exists>tr. did os tr os' \<and> (\<forall>p\<in>set tr. Q (fst p))))"

named_theorems only_intros "introduction rules for the calls of an action"

lemma onlyD:
  assumes "only Q os res" "res = Some (x, os')"
  obtains tr where "did os tr os'" "\<forall>p\<in>set tr. Q (fst p)"
  using assms unfolding only_def by blast

lemma only_return [only_intros]: "only Q os (return_io x os)"
  unfolding only_def by (force simp: return_io_eq_Some intro: exI [of _ "[]"])

lemma only_call: "Q c \<Longrightarrow> only Q os (call c os)"
  unfolding only_def by (force dest: did_call)

lemma only_bind:
  assumes "only Q os (m os)" "\<And>x s. m os = Some (x, s) \<Longrightarrow> only Q s (f x s)"
  shows "only Q os (bind_io m f os)"
  unfolding only_def
proof (intro allI impI)
  fix y os' assume "bind_io m f os = Some (y, os')"
  then obtain x s where m: "m os = Some (x, s)" and f: "f x s = Some (y, os')" by (auto simp: bind_io_eq_Some)
  obtain tr tr' where "did os tr s" "\<forall>p\<in>set tr. Q (fst p)" "did s tr' os'" "\<forall>p\<in>set tr'. Q (fst p)"
    using onlyD [OF assms(1) m] onlyD [OF assms(2) [OF m] f] by metis
  then show "\<exists>tr. did os tr os' \<and> (\<forall>p\<in>set tr. Q (fst p))"
    using did_trans by (intro exI [of _ "tr @ tr'"]) auto
qed

lemma only_call_bind [only_intros]:
  "Q c \<Longrightarrow> (\<And>r s. call c os = Some (r, s) \<Longrightarrow> only Q s (f r s)) \<Longrightarrow> only Q os (bind_io (call c) f os)"
  by (rule only_bind [of Q os "call c", OF only_call])

lemma only_try:
  assumes "only Q os (m os)" "\<And>x s. m os = Some (Inr x, s) \<Longrightarrow> only Q s (f x s)"
  shows "only Q os (try_io m f os)"
  unfolding try_io_def by (rule only_bind [of Q os m, OF assms(1)]) (auto split: sum.split intro: assms(2) only_return)

lemma only_if [only_intros]:
  "(b \<Longrightarrow> only Q os m) \<Longrightarrow> (\<not> b \<Longrightarrow> only Q os m') \<Longrightarrow> only Q os (if b then m else m')"
  "(b \<Longrightarrow> only Q os (g os)) \<Longrightarrow> (\<not> b \<Longrightarrow> only Q os (g' os)) \<Longrightarrow> only Q os ((if b then g else g') os)"
  by simp_all

lemma only_sum [only_intros]:
  "(\<And>e. w = Inl e \<Longrightarrow> only Q os (f e)) \<Longrightarrow> (\<And>x. w = Inr x \<Longrightarrow> only Q os (g x)) \<Longrightarrow>
     only Q os (case w of Inl e \<Rightarrow> f e | Inr x \<Rightarrow> g x)"
  "(\<And>e. w = Inl e \<Longrightarrow> only Q os (f' e os)) \<Longrightarrow> (\<And>x. w = Inr x \<Longrightarrow> only Q os (g' x os)) \<Longrightarrow>
     only Q os ((case w of Inl e \<Rightarrow> f' e | Inr x \<Rightarrow> g' x) os)"
  by (cases w; simp)+

lemma only_pair [only_intros]:
  "(\<And>x y. w = (x, y) \<Longrightarrow> only Q os (f x y)) \<Longrightarrow> only Q os (case w of (x, y) \<Rightarrow> f x y)"
  "(\<And>x y. w = (x, y) \<Longrightarrow> only Q os (f' x y os)) \<Longrightarrow> only Q os ((case w of (x, y) \<Rightarrow> f' x y) os)"
  by (cases w; simp)+

lemma call_shorter: "call c os = Some (r, s) \<Longrightarrow> length (script s) < length (script os)"
  by (auto simp: call_eq_Some)

lemma only_log: "only Q os (log_info_io msg kv os)" "only Q os (log_warn_io msg kv os)" "only Q os (log_error_io msg kv os)"
  "only Q os (error_text e os)" "only Q os (strerror_io n os)"
  unfolding only_def
  by (force simp: log_info_io_def log_warn_io_def log_error_io_def error_text_def strerror_io_def did_def intro: exI [of _ "[]"])+

lemma only_mono: "only Q os res \<Longrightarrow> (\<And>c. Q c \<Longrightarrow> R c) \<Longrightarrow> only R os res"
  unfolding only_def by blast

lemma only_shorter: "res = Some (x, os') \<Longrightarrow> only Q os res \<Longrightarrow> length (script os') \<le> length (script os)"
  by (metis le_add1 onlyD did_shorter)

lemma opened_neutral: "\<forall>p\<in>set tr. neutral (fst p) \<Longrightarrow> opened tr = {#} \<and> closed tr = {#}"
proof (induction tr)
  case (Cons p tr)
  have "opened1 p = {#}" "closed1 p = {#}"
    using Cons.prems prod.collapse [of p] unfolding neutral_def by (metis list.set_intros(1))+
  with Cons show ?case by (simp del: opened1_def closed1_def)
qed simp

lemma only_moves: "(\<And>os. only neutral os (m os)) \<Longrightarrow> moves old (\<lambda>_. old) m"
  unfolding moves_def by (rule runsI) (metis onlyD opened_neutral add.commute)

lemma only_close_loop: "(\<And>fd. Q (Close fd)) \<Longrightarrow> only Q os (close_loop fd os)"
  unfolding only_def
proof (intro allI impI)
  fix x os' assume Q: "\<And>fd. Q (Close fd)" and c: "close_loop fd os = Some (x, os')"
  obtain tr where "did os tr os'" "\<forall>(c, r)\<in>set tr. c = Close fd" by (rule runsD [OF runs_close_loop c]) auto
  with Q show "\<exists>tr. did os tr os' \<and> (\<forall>p\<in>set tr. Q (fst p))" by (intro exI [of _ tr]) auto
qed

lemma only_destroy: "(\<And>fd. Q (Close fd)) \<Longrightarrow> only Q os (destroy_fd fd os)"
  unfolding destroy_fd_def reset_fd_def
  by (intro only_bind only_if only_close_loop only_return)

lemma only_options:
  assumes "\<And>fd. Q (Fcntl_getfl fd)" "\<And>fd n. Q (Fcntl_setfl fd n)" "\<And>fd opt. Q (Setsockopt fd opt)"
  shows "only Q os (set_nonblocking fd os)" "only Q os (set_reuse fd os)" "only Q os (set_nodelay fd os)"
  unfolding set_nonblocking_def set_reuse_def set_nodelay_def by (intro only_intros assms)+

section \<open>What an action ensures\<close>

text \<open>\<open>ensures os (m os) P\<close>: started in \<open>os\<close>, the value of \<open>m\<close> and the calls it makes satisfy \<open>P\<close>.\<close>

definition ensures :: "OS \<Rightarrow> ('a \<times> OS) option \<Rightarrow> ('a \<Rightarrow> (Call \<times> Reply) list \<Rightarrow> bool) \<Rightarrow> bool" where
  "ensures os res P \<longleftrightarrow> (\<forall>x os'. res = Some (x, os') \<longrightarrow> (\<exists>tr. did os tr os' \<and> P x tr))"

named_theorems ensures_intros "introduction rules for what an action ensures"

lemma ensuresD:
  assumes "ensures os res P" "res = Some (x, os')"
  obtains tr where "did os tr os'" "P x tr"
  using assms unfolding ensures_def by blast

lemma ensures_mono: "ensures os res P \<Longrightarrow> (\<And>x tr. P x tr \<Longrightarrow> Q x tr) \<Longrightarrow> ensures os res Q"
  unfolding ensures_def by blast

lemma ensures_conj: "ensures os res P \<Longrightarrow> ensures os res Q \<Longrightarrow> ensures os res (\<lambda>x tr. P x tr \<and> Q x tr)"
  unfolding ensures_def using did_same by blast

lemma ensures_return [ensures_intros]: "P x [] \<Longrightarrow> ensures os (return_io x os) P"
  unfolding ensures_def by (force simp: return_io_eq_Some intro: exI [of _ "[]"])

lemma ensures_bind:
  assumes "ensures os (m os) R" "\<And>x s tr. m os = Some (x, s) \<Longrightarrow> R x tr \<Longrightarrow> ensures s (f x s) (\<lambda>y tr'. P y (tr @ tr'))"
  shows "ensures os (bind_io m f os) P"
  unfolding ensures_def
proof (intro allI impI)
  fix y os' assume "bind_io m f os = Some (y, os')"
  then obtain x s where m: "m os = Some (x, s)" and f: "f x s = Some (y, os')" by (auto simp: bind_io_eq_Some)
  obtain tr where tr: "did os tr s" "R x tr" using ensuresD [OF assms(1) m] .
  obtain tr' where "did s tr' os'" "P y (tr @ tr')" using ensuresD [OF assms(2) [OF m tr(2)] f] .
  with tr(1) did_trans show "\<exists>tr. did os tr os' \<and> P y tr" by blast
qed

lemma ensures_call_bind [ensures_intros]:
  assumes "\<And>r s. call c os = Some (r, s) \<Longrightarrow> ensures s (f r s) (\<lambda>y tr. P y ((c, r) # tr))"
  shows "ensures os (bind_io (call c) f os) P"
proof (rule ensures_bind [of os "call c" "\<lambda>r tr. tr = [(c, r)]"])
  show "ensures os (call c os) (\<lambda>r tr. tr = [(c, r)])" unfolding ensures_def using did_call by blast
qed (use assms in auto)

lemma ensures_if [ensures_intros]:
  "(b \<Longrightarrow> ensures os m P) \<Longrightarrow> (\<not> b \<Longrightarrow> ensures os m' P) \<Longrightarrow> ensures os (if b then m else m') P"
  "(b \<Longrightarrow> ensures os (g os) P) \<Longrightarrow> (\<not> b \<Longrightarrow> ensures os (g' os) P) \<Longrightarrow> ensures os ((if b then g else g') os) P"
  by simp_all

lemma ensures_sum [ensures_intros]:
  "(\<And>e. w = Inl e \<Longrightarrow> ensures os (f e) P) \<Longrightarrow> (\<And>x. w = Inr x \<Longrightarrow> ensures os (g x) P) \<Longrightarrow>
     ensures os (case w of Inl e \<Rightarrow> f e | Inr x \<Rightarrow> g x) P"
  "(\<And>e. w = Inl e \<Longrightarrow> ensures os (f' e os) P) \<Longrightarrow> (\<And>x. w = Inr x \<Longrightarrow> ensures os (g' x os) P) \<Longrightarrow>
     ensures os ((case w of Inl e \<Rightarrow> f' e | Inr x \<Rightarrow> g' x) os) P"
  by (cases w; simp)+

lemma ensures_pair [ensures_intros]:
  "(\<And>x y. w = (x, y) \<Longrightarrow> ensures os (f x y) P) \<Longrightarrow> ensures os (case w of (x, y) \<Rightarrow> f x y) P"
  "(\<And>x y. w = (x, y) \<Longrightarrow> ensures os (f' x y os) P) \<Longrightarrow> ensures os ((case w of (x, y) \<Rightarrow> f' x y) os) P"
  by (cases w; simp)+

lemma ensures_only: "only Q os res \<Longrightarrow> ensures os res (\<lambda>_ tr. \<forall>p\<in>set tr. Q (fst p))"
  by (simp add: only_def ensures_def)

lemma ensures_runs: "runs P m \<Longrightarrow> ensures os (m os) P"
  by (simp add: runs_def ensures_def)

section \<open>What an action returns\<close>

text \<open>\<open>gives P (m os)\<close>: started in \<open>os\<close>, the action \<open>m\<close> returns only values that satisfy \<open>P\<close>.
  \<open>yields P m\<close>: it does so wherever it starts.\<close>

definition gives :: "('a \<Rightarrow> bool) \<Rightarrow> ('a \<times> OS) option \<Rightarrow> bool" where
  "gives P res \<longleftrightarrow> (\<forall>x os'. res = Some (x, os') \<longrightarrow> P x)"

definition yields :: "('a \<Rightarrow> bool) \<Rightarrow> 'a io \<Rightarrow> bool" where
  "yields P m \<longleftrightarrow> (\<forall>os. gives P (m os))"

named_theorems gives_intros "introduction rules for what an action returns"

lemma givesD: "gives P res \<Longrightarrow> res = Some (x, os') \<Longrightarrow> P x"
  by (auto simp: gives_def)

lemma yieldsD: "yields P m \<Longrightarrow> m os = Some (x, os') \<Longrightarrow> P x"
  by (auto simp: yields_def gives_def)

lemma yieldsI: "(\<And>os. gives P (m os)) \<Longrightarrow> yields P m"
  by (auto simp: yields_def)

lemma yields_gives: "yields P m \<Longrightarrow> gives P (m os)"
  by (auto simp: yields_def)

lemma gives_mono: "gives P res \<Longrightarrow> (\<And>x. P x \<Longrightarrow> Q x) \<Longrightarrow> gives Q res"
  by (auto simp: gives_def)

lemma yields_mono: "yields P m \<Longrightarrow> (\<And>x. P x \<Longrightarrow> Q x) \<Longrightarrow> yields Q m"
  unfolding yields_def by (blast intro: gives_mono)

lemma gives_return [gives_intros]: "P x \<Longrightarrow> gives P (return_io x os)"
  by (auto simp: gives_def return_io_eq_Some)

lemma gives_bind [gives_intros]:
  "(\<And>x s. m os = Some (x, s) \<Longrightarrow> gives P (f x s)) \<Longrightarrow> gives P (bind_io m f os)"
  by (fastforce simp: gives_def bind_io_eq_Some)

lemma gives_if [gives_intros]:
  "(b \<Longrightarrow> gives P m) \<Longrightarrow> (\<not> b \<Longrightarrow> gives P m') \<Longrightarrow> gives P (if b then m else m')"
  "(b \<Longrightarrow> gives P (g os)) \<Longrightarrow> (\<not> b \<Longrightarrow> gives P (g' os)) \<Longrightarrow> gives P ((if b then g else g') os)"
  by simp_all

lemma gives_sum [gives_intros]:
  "(\<And>e. w = Inl e \<Longrightarrow> gives P (f e)) \<Longrightarrow> (\<And>x. w = Inr x \<Longrightarrow> gives P (g x)) \<Longrightarrow>
     gives P (case w of Inl e \<Rightarrow> f e | Inr x \<Rightarrow> g x)"
  "(\<And>e. w = Inl e \<Longrightarrow> gives P (f' e os)) \<Longrightarrow> (\<And>x. w = Inr x \<Longrightarrow> gives P (g' x os)) \<Longrightarrow>
     gives P ((case w of Inl e \<Rightarrow> f' e | Inr x \<Rightarrow> g' x) os)"
  by (cases w; simp)+

lemma gives_pair [gives_intros]:
  "(\<And>x y. w = (x, y) \<Longrightarrow> gives P (f x y)) \<Longrightarrow> gives P (case w of (x, y) \<Rightarrow> f x y)"
  "(\<And>x y. w = (x, y) \<Longrightarrow> gives P (f' x y os)) \<Longrightarrow> gives P ((case w of (x, y) \<Rightarrow> f' x y) os)"
  by (cases w; simp)+

lemma gives_option [gives_intros]:
  "(w = None \<Longrightarrow> gives P m) \<Longrightarrow> (\<And>x. w = Some x \<Longrightarrow> gives P (f x)) \<Longrightarrow>
     gives P (case w of None \<Rightarrow> m | Some x \<Rightarrow> f x)"
  "(w = None \<Longrightarrow> gives P (m' os)) \<Longrightarrow> (\<And>x. w = Some x \<Longrightarrow> gives P (f' x os)) \<Longrightarrow>
     gives P ((case w of None \<Rightarrow> m' | Some x \<Rightarrow> f' x) os)"
  by (cases w; simp)+

lemma yields_bind: "yields Q m \<Longrightarrow> (\<And>x. Q x \<Longrightarrow> yields P (f x)) \<Longrightarrow> yields P (bind_io m f)"
  unfolding yields_def by (blast intro: gives_bind dest: givesD)

lemma moves_bind_yields:
  assumes "moves old mid m" "yields P m" "\<And>x. P x \<Longrightarrow> moves (mid x) new (f x)"
  shows "moves old new (bind_io m f)"
  unfolding moves_def
proof (rule runs_bind)
  show "runs (\<lambda>x tr. old + opened tr = closed tr + mid x \<and> P x) m"
    using assms(1,2) unfolding moves_def runs_def yields_def gives_def by blast
next
  fix x tr assume b: "old + opened tr = closed tr + mid x \<and> P x"
  show "runs (\<lambda>y tr'. old + opened (tr @ tr') = closed (tr @ tr') + new y) (f x)"
  proof (rule runs_mono [OF assms(3) [OF b [THEN conjunct2], unfolded moves_def]])
    fix y tr' assume "mid x + opened tr' = closed tr' + new y"
    from balance_trans [OF b [THEN conjunct1] this] show "old + opened (tr @ tr') = closed (tr @ tr') + new y"
      by (simp only: opened_simps closed_simps add.assoc)
  qed
qed

end
