(* ===== verification/Load_Balancer.thy ===== *)
theory Load_Balancer
  imports Config
begin

text \<open>
  The smooth weighted round robin of \<^verbatim>\<open>src/load_balancer.cpp\<close>.  The endpoints are shared
  objects in the code (\<^verbatim>\<open>std::shared_ptr\<close>), so an endpoint is named by its index in the
  balancer's vector and its atomic counters live there.  \<open>next_lb\<close> is \<^verbatim>\<open>next()\<close>: the scan
  over the endpoints is \<open>scan\<close>, with the running weights, the running total and the best index
  (\<open>-1\<close> while there is none) as its state.  The weights are mathematical integers; a property below bounds
  them, so that the \<^verbatim>\<open>int64_t\<close> of the code holds them exactly.
\<close>

record UpstreamEndpoint =
  ep_addr :: string
  ep_port :: u16
  ep_weight :: u32
  ep_name :: string
  ep_healthy :: bool
  ep_active_requests :: u64
  ep_total_requests :: u64
  ep_failed_requests :: u64

record WeightedRoundRobin =
  endpoints :: "UpstreamEndpoint list"
  current_weights :: "int list"

definition make_endpoint :: "UpstreamConfig \<Rightarrow> UpstreamEndpoint" where
  "make_endpoint cfg =
     \<lparr>ep_addr = uc_addr cfg, ep_port = uc_port cfg, ep_weight = max 1 (uc_weight cfg),
      ep_name = (if uc_name cfg = [] then uc_addr cfg @ '':'' @ show_nat 10 (unat (uc_port cfg))
                 else uc_name cfg),
      ep_healthy = uc_healthy cfg, ep_active_requests = 0, ep_total_requests = 0,
      ep_failed_requests = 0\<rparr>"

definition new_WeightedRoundRobin :: "UpstreamConfig list \<Rightarrow> WeightedRoundRobin" where
  "new_WeightedRoundRobin configs =
     \<lparr>endpoints = map make_endpoint configs, current_weights = map (\<lambda>_. 0) configs\<rparr>"

fun scan :: "UpstreamEndpoint list \<Rightarrow> nat list \<Rightarrow> int list \<times> int \<times> int \<Rightarrow> int list \<times> int \<times> int" where
  "scan eps [] st = st"
| "scan eps (i # is) (cw, tot, best) =
     (if \<not> ep_healthy (eps ! i) then scan eps is (cw, tot, best)
      else let cw' = cw[i := cw ! i + uint (ep_weight (eps ! i))];
               tot' = tot + uint (ep_weight (eps ! i));
               best' = (if best < 0 \<or> cw' ! i > cw' ! nat best then int i else best)
           in scan eps is (cw', tot', best'))"

definition next_lb :: "WeightedRoundRobin \<Rightarrow> nat option \<times> WeightedRoundRobin" where
  "next_lb lb =
     (case scan (endpoints lb) [0..<length (endpoints lb)] (current_weights lb, 0, -1) of
        (cw, tot, best) \<Rightarrow>
          if best < 0 \<or> tot = 0 then (None, lb\<lparr>current_weights := cw\<rparr>)
          else let b = nat best; ep = endpoints lb ! b
               in (Some b,
                   lb\<lparr>current_weights := cw[b := cw ! b - tot],
                      endpoints := (endpoints lb)[b := ep\<lparr>ep_total_requests := ep_total_requests ep + 1\<rparr>]\<rparr>))"

definition mark_unhealthy :: "string \<Rightarrow> WeightedRoundRobin \<Rightarrow> WeightedRoundRobin" where
  "mark_unhealthy name lb =
     lb\<lparr>endpoints := map (\<lambda>ep. if ep_name ep = name then ep\<lparr>ep_healthy := False\<rparr> else ep) (endpoints lb)\<rparr>"

definition mark_healthy :: "string \<Rightarrow> WeightedRoundRobin \<Rightarrow> WeightedRoundRobin" where
  "mark_healthy name lb =
     lb\<lparr>endpoints := map (\<lambda>ep. if ep_name ep = name then ep\<lparr>ep_healthy := True\<rparr> else ep) (endpoints lb)\<rparr>"

record Stats =
  st_name :: string
  st_healthy :: bool
  st_active :: u64
  st_total :: u64
  st_failed :: u64

definition stats :: "WeightedRoundRobin \<Rightarrow> Stats list" where
  "stats lb = map (\<lambda>ep. \<lparr>st_name = ep_name ep, st_healthy = ep_healthy ep, st_active = ep_active_requests ep,
     st_total = ep_total_requests ep, st_failed = ep_failed_requests ep\<rparr>) (endpoints lb)"

definition add_failed :: "nat \<Rightarrow> WeightedRoundRobin \<Rightarrow> WeightedRoundRobin" where
  "add_failed i lb =
     (let ep = endpoints lb ! i
      in lb\<lparr>endpoints := (endpoints lb)[i := ep\<lparr>ep_failed_requests := ep_failed_requests ep + 1\<rparr>]\<rparr>)"

text \<open>Successive requests: the picks of \<open>n\<close> calls, in order.\<close>

fun run_lb :: "nat \<Rightarrow> WeightedRoundRobin \<Rightarrow> nat option list \<times> WeightedRoundRobin" where
  "run_lb 0 lb = ([], lb)"
| "run_lb (Suc n) lb =
     (case next_lb lb of (r, lb') \<Rightarrow> case run_lb n lb' of (rs, lb'') \<Rightarrow> (r # rs, lb''))"

section \<open>The scan\<close>

definition eff_weight :: "UpstreamEndpoint \<Rightarrow> int" where
  "eff_weight ep = (if ep_healthy ep then uint (ep_weight ep) else 0)"

definition weight_sum :: "UpstreamEndpoint list \<Rightarrow> int" where
  "weight_sum eps = sum_list (map eff_weight eps)"

lemma eff_weight_nonneg [simp]: "0 \<le> eff_weight ep"
  by (simp add: eff_weight_def)

lemma weight_sum_nonneg [simp]: "0 \<le> weight_sum eps"
  unfolding weight_sum_def by (rule sum_list_nonneg) auto

lemma scan_append: "scan eps (xs @ ys) st = scan eps ys (scan eps xs st)"
proof (induction xs arbitrary: st)
  case Nil
  then show ?case by simp
next
  case (Cons x xs)
  then show ?case by (cases st) (simp add: Let_def)
qed

definition bumped :: "UpstreamEndpoint list \<Rightarrow> int list \<Rightarrow> nat \<Rightarrow> int list" where
  "bumped eps cw k = map (\<lambda>j. if j < k then cw ! j + eff_weight (eps ! j) else cw ! j) [0..<length cw]"

lemma nth_bumped: "j < length cw \<Longrightarrow>
    bumped eps cw k ! j = (if j < k then cw ! j + eff_weight (eps ! j) else cw ! j)"
  by (simp add: bumped_def)

lemma length_bumped [simp]: "length (bumped eps cw k) = length cw"
  by (simp add: bumped_def)

lemma scan_upto:
  assumes "length cw = length eps" "k \<le> length eps"
  shows "\<exists>best. scan eps [0..<k] (cw, 0, -1) = (bumped eps cw k, weight_sum (take k eps), best) \<and>
    (if \<exists>j<k. ep_healthy (eps ! j)
     then 0 \<le> best \<and> nat best < k \<and> ep_healthy (eps ! nat best) \<and>
       (\<forall>j<k. ep_healthy (eps ! j) \<longrightarrow> bumped eps cw k ! j \<le> bumped eps cw k ! nat best)
     else best = -1)"
  using assms(2)
proof (induction k)
  case 0
  have "bumped eps cw 0 = cw" by (simp add: bumped_def map_nth)
  then show ?case by (simp add: weight_sum_def)
next
  case (Suc k)
  then obtain best where IH: "scan eps [0..<k] (cw, 0, -1) = (bumped eps cw k, weight_sum (take k eps), best)"
    and B: "if \<exists>j<k. ep_healthy (eps ! j)
     then 0 \<le> best \<and> nat best < k \<and> ep_healthy (eps ! nat best) \<and>
       (\<forall>j<k. ep_healthy (eps ! j) \<longrightarrow> bumped eps cw k ! j \<le> bumped eps cw k ! nat best)
     else best = -1" by auto
  have k: "k < length eps" "k < length cw" using Suc.prems assms(1) by auto
  have tk: "weight_sum (take (Suc k) eps) = weight_sum (take k eps) + eff_weight (eps ! k)"
    using k by (simp add: weight_sum_def take_Suc_conv_app_nth)
  have bk: "bumped eps cw (Suc k) = (bumped eps cw k)[k := bumped eps cw k ! k + eff_weight (eps ! k)]"
    using k by (intro nth_equalityI) (auto simp: nth_bumped nth_list_update less_Suc_eq)
  have le: "bumped eps cw (Suc k) ! j = bumped eps cw k ! j" if "j \<noteq> k" for j
    using that bk by simp
  show ?case
  proof (cases "ep_healthy (eps ! k)")
    case False
    then have e: "eff_weight (eps ! k) = 0" by (simp add: eff_weight_def)
    then have eq: "bumped eps cw (Suc k) = bumped eps cw k" using bk by simp
    have "scan eps [0..<Suc k] (cw, 0, -1) = (bumped eps cw (Suc k), weight_sum (take (Suc k) eps), best)"
      using False by (simp add: scan_append IH tk e eq)
    moreover have "(\<exists>j<Suc k. ep_healthy (eps ! j)) \<longleftrightarrow> (\<exists>j<k. ep_healthy (eps ! j))"
      using False less_Suc_eq by auto
    ultimately show ?thesis using B False unfolding eq by (auto simp: less_Suc_eq split: if_splits)
  next
    case True
    then have e: "eff_weight (eps ! k) = uint (ep_weight (eps ! k))" by (simp add: eff_weight_def)
    define best' where "best' = (if best < 0 \<or> bumped eps cw (Suc k) ! k > bumped eps cw (Suc k) ! nat best
       then int k else best)"
    have "scan eps [0..<Suc k] (cw, 0, -1) = (bumped eps cw (Suc k), weight_sum (take (Suc k) eps), best')"
      using True by (simp add: scan_append IH tk e [symmetric] bk [symmetric] best'_def Let_def)
    moreover have "0 \<le> best' \<and> nat best' < Suc k \<and> ep_healthy (eps ! nat best') \<and>
       (\<forall>j<Suc k. ep_healthy (eps ! j) \<longrightarrow> bumped eps cw (Suc k) ! j \<le> bumped eps cw (Suc k) ! nat best')"
    proof (cases "\<exists>j<k. ep_healthy (eps ! j)")
      case False
      with B have "best = -1" by (auto split: if_splits)
      with False True show ?thesis by (auto simp: best'_def less_Suc_eq)
    next
      case ex: True
      with B have b: "0 \<le> best" "nat best < k" "ep_healthy (eps ! nat best)"
        "\<forall>j<k. ep_healthy (eps ! j) \<longrightarrow> bumped eps cw k ! j \<le> bumped eps cw k ! nat best" by auto
      then have "\<forall>j<k. ep_healthy (eps ! j) \<longrightarrow>
          bumped eps cw (Suc k) ! j \<le> bumped eps cw (Suc k) ! nat best"
        using le by (metis nat_neq_iff)
      with b True show ?thesis by (fastforce simp: best'_def less_Suc_eq)
    qed
    ultimately show ?thesis using True by auto
  qed
qed

section \<open>One pick\<close>

definition lb_wf :: "WeightedRoundRobin \<Rightarrow> bool" where
  "lb_wf lb \<longleftrightarrow>
     length (current_weights lb) = length (endpoints lb) \<and>
     (\<forall>i<length (endpoints lb). 0 < ep_weight (endpoints lb ! i))"

definition lb_inv :: "WeightedRoundRobin \<Rightarrow> bool" where
  "lb_inv lb \<longleftrightarrow>
     lb_wf lb \<and>
     (\<Sum>i<length (endpoints lb). current_weights lb ! i) = 0 \<and>
     (\<forall>i<length (endpoints lb). \<not> ep_healthy (endpoints lb ! i) \<longrightarrow> current_weights lb ! i = 0) \<and>
     (\<forall>i<length (endpoints lb).
        current_weights lb ! i = 0 \<or> - weight_sum (endpoints lb) < current_weights lb ! i)"

definition eligible :: "WeightedRoundRobin \<Rightarrow> nat \<Rightarrow> bool" where
  "eligible lb i \<longleftrightarrow> i < length (endpoints lb) \<and> ep_healthy (endpoints lb ! i)"

text \<open>What a pick leaves alone: everything but the counters.\<close>

definition shape :: "WeightedRoundRobin \<Rightarrow> (u32 \<times> bool) list" where
  "shape lb = map (\<lambda>ep. (ep_weight ep, ep_healthy ep)) (endpoints lb)"

lemma weight_sum_shape:
  "weight_sum (endpoints lb) = sum_list (map (\<lambda>(w, h). if h then uint w else 0) (shape lb))"
  by (simp add: weight_sum_def shape_def eff_weight_def [abs_def] o_def)

lemma shape_nth:
  "shape lb = shape lb' \<Longrightarrow> length (endpoints lb) = length (endpoints lb') \<and>
     (i < length (endpoints lb) \<longrightarrow>
        ep_weight (endpoints lb ! i) = ep_weight (endpoints lb' ! i) \<and>
        ep_healthy (endpoints lb ! i) = ep_healthy (endpoints lb' ! i))"
  unfolding shape_def by (metis (mono_tags, lifting) length_map nth_map prod.inject)

lemma shape_eff_weight:
  "shape lb = shape lb' \<Longrightarrow> i < length (endpoints lb) \<Longrightarrow>
     eff_weight (endpoints lb ! i) = eff_weight (endpoints lb' ! i)"
  using shape_nth [of lb lb' i] by (simp add: eff_weight_def)

lemma eligible_shape: "shape lb = shape lb' \<Longrightarrow> eligible lb i = eligible lb' i"
  using shape_nth [of lb lb' i] by (auto simp: eligible_def)

lemma weight_sum_index: "weight_sum eps = (\<Sum>i<length eps. eff_weight (eps ! i))"
  by (simp add: weight_sum_def sum_list_sum_nth atLeast0LessThan)

lemma uint_pos: "0 < (w :: u32) \<Longrightarrow> 0 < uint w"
  by (simp add: word_less_def)

lemma lb_inv_wf: "lb_inv lb \<Longrightarrow> lb_wf lb"
  by (simp add: lb_inv_def)

lemma lb_wf_shape: "lb_wf lb \<Longrightarrow> shape lb' = shape lb \<Longrightarrow>
    length (current_weights lb') = length (current_weights lb) \<Longrightarrow> lb_wf lb'"
  using shape_nth [of lb' lb] by (auto simp: lb_wf_def)

lemma weight_sum_pos:
  assumes "lb_wf lb" "eligible lb i"
  shows "0 < weight_sum (endpoints lb)"
proof -
  have "0 < ep_weight (endpoints lb ! i)" using assms by (auto simp: lb_wf_def eligible_def)
  then have "0 < uint (ep_weight (endpoints lb ! i))" by (rule uint_pos)
  then have "0 < eff_weight (endpoints lb ! i)" using assms by (simp add: eff_weight_def eligible_def)
  also have "\<dots> \<le> weight_sum (endpoints lb)"
    unfolding weight_sum_index using assms
    by (intro member_le_sum) (auto simp: eligible_def)
  finally show ?thesis .
qed

text \<open>The weights after a pick of \<open>b\<close>: everybody gains its weight, the winner pays the total.\<close>

lemma next_lb_pick:
  assumes wf: "lb_wf lb" and el: "eligible lb e"
  obtains b lb' where "next_lb lb = (Some b, lb')" "eligible lb b" "shape lb' = shape lb"
    "\<forall>i<length (endpoints lb). current_weights lb' ! i =
       current_weights lb ! i + eff_weight (endpoints lb ! i) -
       (if i = b then weight_sum (endpoints lb) else 0)"
    "\<forall>j. eligible lb j \<longrightarrow> current_weights lb ! j + eff_weight (endpoints lb ! j)
       \<le> current_weights lb ! b + eff_weight (endpoints lb ! b)"
    "length (current_weights lb') = length (current_weights lb)"
    "map ep_name (endpoints lb') = map ep_name (endpoints lb)"
proof -
  let ?eps = "endpoints lb" and ?cw = "current_weights lb"
  let ?n = "length ?eps" and ?W = "weight_sum ?eps"
  let ?B = "bumped ?eps ?cw ?n"
  have len: "length ?cw = ?n" using wf by (simp add: lb_wf_def)
  have W: "0 < ?W" using weight_sum_pos [OF wf el] .
  have ex: "\<exists>j<?n. ep_healthy (?eps ! j)" using el by (auto simp: eligible_def)
  from scan_upto [OF len order_refl] ex obtain best where
    sc: "scan ?eps [0..<?n] (?cw, 0, -1) = (?B, ?W, best)" and
    b: "0 \<le> best" "nat best < ?n" "ep_healthy (?eps ! nat best)"
      "\<forall>j<?n. ep_healthy (?eps ! j) \<longrightarrow> ?B ! j \<le> ?B ! nat best"
    by auto
  have Bi: "?B ! i = ?cw ! i + eff_weight (?eps ! i)" if "i < ?n" for i
    using that len by (simp add: nth_bumped)
  define ep where "ep = ?eps ! nat best"
  define lb' where "lb' = lb\<lparr>current_weights := ?B[nat best := ?B ! nat best - ?W],
      endpoints := ?eps[nat best := ep\<lparr>ep_total_requests := ep_total_requests ep + 1\<rparr>]\<rparr>"
  have nx: "next_lb lb = (Some (nat best), lb')"
    using b W by (simp add: lb'_def next_lb_def sc Let_def ep_def)
  show thesis
  proof (rule that [OF nx])
    show "eligible lb (nat best)" using b by (simp add: eligible_def)
    show "shape lb' = shape lb"
      using b by (intro nth_equalityI) (auto simp: lb'_def shape_def nth_list_update ep_def)
    show "map ep_name (endpoints lb') = map ep_name ?eps"
      using b by (intro nth_equalityI) (auto simp: lb'_def nth_list_update ep_def)
    show "\<forall>i<?n. current_weights lb' ! i = ?cw ! i + eff_weight (?eps ! i) -
        (if i = nat best then ?W else 0)"
      using b len Bi by (auto simp: lb'_def nth_list_update)
    show "\<forall>j. eligible lb j \<longrightarrow> ?cw ! j + eff_weight (?eps ! j)
        \<le> ?cw ! nat best + eff_weight (?eps ! nat best)"
      using b Bi by (auto simp: eligible_def)
    show "length (current_weights lb') = length ?cw" by (simp add: lb'_def)
  qed
qed

lemma next_lb_none:
  assumes wf: "lb_wf lb" and no: "\<And>i. \<not> eligible lb i"
  shows "next_lb lb = (None, lb)"
proof -
  let ?eps = "endpoints lb" and ?cw = "current_weights lb"
  have len: "length ?cw = length ?eps" using wf by (simp add: lb_wf_def)
  have nh: "\<not> (\<exists>j<length ?eps. ep_healthy (?eps ! j))" using no by (auto simp: eligible_def)
  have "bumped ?eps ?cw (length ?eps) = ?cw"
    using nh len by (intro nth_equalityI) (auto simp: nth_bumped eff_weight_def)
  with scan_upto [OF len order_refl] nh show ?thesis by (auto simp: next_lb_def)
qed

text \<open>The running weights of the healthy endpoints add up to zero, so the largest after the
  increments is positive.\<close>

lemma winner_positive:
  assumes inv: "lb_inv lb" and el: "eligible lb e"
    and top: "\<forall>j. eligible lb j \<longrightarrow> current_weights lb ! j + eff_weight (endpoints lb ! j) \<le> m"
  shows "0 < m"
proof (rule ccontr)
  let ?eps = "endpoints lb" and ?cw = "current_weights lb"
  let ?n = "length ?eps"
  assume neg: "\<not> 0 < m"
  have "?cw ! i + eff_weight (?eps ! i) \<le> 0" if "i < ?n" for i
  proof (cases "ep_healthy (?eps ! i)")
    case True
    with top that neg show ?thesis by (force simp: eligible_def)
  next
    case False
    with inv that show ?thesis by (simp add: lb_inv_def eff_weight_def)
  qed
  then have "(\<Sum>i<?n. ?cw ! i + eff_weight (?eps ! i)) \<le> 0" by (intro sum_nonpos) auto
  moreover have "(\<Sum>i<?n. ?cw ! i + eff_weight (?eps ! i)) = weight_sum ?eps"
    using inv by (simp add: sum.distrib weight_sum_index lb_inv_def)
  ultimately show False using weight_sum_pos [OF lb_inv_wf [OF inv] el] by simp
qed

lemma lb_inv_next:
  assumes inv: "lb_inv lb" and el: "eligible lb e" and nx: "next_lb lb = (Some b, lb')"
  shows "lb_inv lb'"
proof -
  let ?eps = "endpoints lb" and ?cw = "current_weights lb"
  let ?n = "length ?eps" and ?W = "weight_sum ?eps"
  from next_lb_pick [OF lb_inv_wf [OF inv] el] nx have P: "eligible lb b" "shape lb' = shape lb"
    "\<forall>i<?n. current_weights lb' ! i = ?cw ! i + eff_weight (?eps ! i) - (if i = b then ?W else 0)"
    "length (current_weights lb') = length ?cw"
    and top: "\<forall>j. eligible lb j \<longrightarrow> ?cw ! j + eff_weight (?eps ! j) \<le> ?cw ! b + eff_weight (?eps ! b)"
    by (metis option.inject prod.inject)+
  have pos: "0 < ?cw ! b + eff_weight (?eps ! b)" using winner_positive [OF inv el top] .
  have W: "0 < ?W" using weight_sum_pos [OF lb_inv_wf [OF inv] el] .
  have n: "length (endpoints lb') = ?n" using shape_nth [OF P(2)] by simp
  have W': "weight_sum (endpoints lb') = ?W" by (simp add: weight_sum_shape P(2))
  have "(\<Sum>i<?n. current_weights lb' ! i) =
      (\<Sum>i<?n. ?cw ! i) + (\<Sum>i<?n. eff_weight (?eps ! i)) - (\<Sum>i<?n. if i = b then ?W else 0)"
    using P(3) by (simp add: sum.distrib sum_subtractf)
  also have "\<dots> = 0" using inv P(1) by (simp add: lb_inv_def eligible_def weight_sum_index)
  finally have s: "(\<Sum>i<?n. current_weights lb' ! i) = 0" .
  have lo: "- ?W < current_weights lb' ! i" if i: "i < ?n" for i
  proof (cases "i = b")
    case True
    with P(3) pos i show ?thesis by simp
  next
    case False
    from inv i W have "- ?W < ?cw ! i" by (auto simp: lb_inv_def)
    moreover have "0 \<le> eff_weight (?eps ! i)" by simp
    moreover have "current_weights lb' ! i = ?cw ! i + eff_weight (?eps ! i)"
      using P(3) i False by simp
    ultimately show ?thesis by linarith
  qed
  have un: "current_weights lb' ! i = 0" if "i < ?n" "\<not> ep_healthy (?eps ! i)" for i
    using P(1,3) that inv by (auto simp: lb_inv_def eligible_def eff_weight_def)
  show ?thesis
    using s lo un n W' lb_wf_shape [OF lb_inv_wf [OF inv] P(2,4)] shape_nth [OF P(2)]
    by (auto simp: lb_inv_def)
qed

lemma lb_inv_new: "lb_inv (new_WeightedRoundRobin cfgs)"
proof -
  have "0 < max 1 (w :: u32)" for w by (metis max.strict_coboundedI1 word_neq_0_conv zero_neq_one)
  then show ?thesis by (auto simp: lb_inv_def lb_wf_def new_WeightedRoundRobin_def make_endpoint_def)
qed

section \<open>The selection contract\<close>

text \<open>
  What the proxy relies on: a pick is an eligible upstream, there is none only when no upstream
  is eligible, and a pick changes neither who is eligible nor the invariant.  Inside the
  contract, a run of any length on a balancer with an eligible upstream never comes back empty.
\<close>

locale upstream_selector =
  fixes inv :: "'l \<Rightarrow> bool"
    and elig :: "'l \<Rightarrow> nat \<Rightarrow> bool"
    and pick :: "'l \<Rightarrow> nat option \<times> 'l"
  assumes pick_some: "inv l \<Longrightarrow> pick l = (Some i, l') \<Longrightarrow> elig l i"
    and pick_none: "inv l \<Longrightarrow> pick l = (None, l') \<Longrightarrow> \<not> elig l i"
    and pick_elig: "inv l \<Longrightarrow> pick l = (r, l') \<Longrightarrow> elig l' i = elig l i"
    and pick_inv: "inv l \<Longrightarrow> pick l = (r, l') \<Longrightarrow> inv l'"
begin

primrec picks :: "nat \<Rightarrow> 'l \<Rightarrow> nat option list" where
  "picks 0 l = []"
| "picks (Suc n) l = (case pick l of (r, l') \<Rightarrow> r # picks n l')"

lemma picks_eligible:
  "inv l \<Longrightarrow> elig l e \<Longrightarrow> r \<in> set (picks n l) \<Longrightarrow> \<exists>i. r = Some i \<and> elig l i"
proof (induction n arbitrary: l)
  case 0
  then show ?case by simp
next
  case (Suc n)
  obtain r' l' where p: "pick l = (r', l')" by (cases "pick l")
  from pick_none [OF Suc.prems(1)] p Suc.prems(2) obtain i where i: "r' = Some i" by (cases r') auto
  have "elig l i" using pick_some [OF Suc.prems(1)] p i by blast
  moreover have "\<exists>i. r = Some i \<and> elig l' i" if "r \<in> set (picks n l')"
    using Suc.IH [of l'] pick_inv [OF Suc.prems(1) p] pick_elig [OF Suc.prems(1) p] Suc.prems(2) that
    by blast
  ultimately show ?case using Suc.prems(3) p i pick_elig [OF Suc.prems(1) p] by auto
qed

end

lemma next_lb_cases:
  assumes "lb_wf lb" "next_lb lb = (r, lb')"
  shows "shape lb' = shape lb" "lb_wf lb'" "map ep_name (endpoints lb') = map ep_name (endpoints lb)"
    "case r of None \<Rightarrow> (\<forall>i. \<not> eligible lb i) | Some i \<Rightarrow> eligible lb i"
proof -
  have "shape lb' = shape lb \<and> lb_wf lb' \<and> map ep_name (endpoints lb') = map ep_name (endpoints lb) \<and>
    (case r of None \<Rightarrow> (\<forall>i. \<not> eligible lb i) | Some i \<Rightarrow> eligible lb i)"
  proof (cases "\<exists>e. eligible lb e")
    case True
    then obtain e where e: "eligible lb e" ..
    from next_lb_pick [OF assms(1) e] obtain b lb1 where
      "next_lb lb = (Some b, lb1)" "eligible lb b" "shape lb1 = shape lb"
      "length (current_weights lb1) = length (current_weights lb)"
      "map ep_name (endpoints lb1) = map ep_name (endpoints lb)" by metis
    with lb_wf_shape [OF assms(1)] assms(2) show ?thesis by auto
  next
    case False
    then have "next_lb lb = (None, lb)" using next_lb_none [OF assms(1)] by blast
    with False assms show ?thesis by auto
  qed
  then show "shape lb' = shape lb" "lb_wf lb'" "map ep_name (endpoints lb') = map ep_name (endpoints lb)"
    "case r of None \<Rightarrow> (\<forall>i. \<not> eligible lb i) | Some i \<Rightarrow> eligible lb i" by auto
qed

interpretation wrr: upstream_selector lb_wf eligible next_lb
proof
  fix l l' :: WeightedRoundRobin and r :: "nat option" and i
  assume wf: "lb_wf l"
  show "eligible l i" if "next_lb l = (Some i, l')"
    using next_lb_cases(4) [OF wf that] by simp
  show "\<not> eligible l i" if "next_lb l = (None, l')"
    using next_lb_cases(4) [OF wf that] by simp
  show "eligible l' i = eligible l i" if "next_lb l = (r, l')"
    using eligible_shape [OF next_lb_cases(1) [OF wf that]] .
  show "lb_wf l'" if "next_lb l = (r, l')" using next_lb_cases(2) [OF wf that] .
qed

lemma run_lb_picks: "fst (run_lb n lb) = wrr.picks n lb"
  by (induction n arbitrary: lb) (auto split: prod.split dest: arg_cong [where f = fst])

section \<open>Whole runs\<close>

lemma run_lb_weights:
  assumes "lb_inv lb" "eligible lb e" "run_lb n lb = (rs, lb')"
  shows "lb_inv lb' \<and> shape lb' = shape lb \<and> length rs = n \<and> None \<notin> set rs \<and>
    (\<forall>i<length (endpoints lb). current_weights lb' ! i = current_weights lb ! i +
       int n * eff_weight (endpoints lb ! i) - weight_sum (endpoints lb) * int (count_list rs (Some i)))"
  using assms
proof (induction n arbitrary: lb rs)
  case 0
  then show ?case by simp
next
  case (Suc n)
  let ?W = "weight_sum (endpoints lb)"
  from next_lb_pick [OF lb_inv_wf [OF Suc.prems(1)] Suc.prems(2)] obtain b lb1 where
    P: "next_lb lb = (Some b, lb1)" "shape lb1 = shape lb"
    "\<forall>i<length (endpoints lb). current_weights lb1 ! i = current_weights lb ! i +
       eff_weight (endpoints lb ! i) - (if i = b then ?W else 0)" by metis
  obtain rs1 where R: "run_lb n lb1 = (rs1, lb')" "rs = Some b # rs1"
    using Suc.prems(3) P(1) by (auto split: prod.splits)
  have i1: "lb_inv lb1" using lb_inv_next [OF Suc.prems(1,2) P(1)] .
  have e1: "eligible lb1 e" using eligible_shape [OF P(2)] Suc.prems(2) by simp
  note IH = Suc.IH [OF i1 e1 R(1)]
  have W1: "weight_sum (endpoints lb1) = ?W" by (simp add: weight_sum_shape P(2))
  have n1: "length (endpoints lb1) = length (endpoints lb)" using shape_nth [OF P(2)] by simp
  have "current_weights lb' ! i = current_weights lb ! i +
       int (Suc n) * eff_weight (endpoints lb ! i) - ?W * int (count_list rs (Some i))"
    if i: "i < length (endpoints lb)" for i
  proof -
    have "eff_weight (endpoints lb1 ! i) = eff_weight (endpoints lb ! i)"
      using shape_eff_weight [OF P(2)] i n1 by simp
    with IH i n1 W1 have "current_weights lb' ! i = current_weights lb1 ! i +
       int n * eff_weight (endpoints lb ! i) - ?W * int (count_list rs1 (Some i))" by simp
    with P(3) i R(2) show ?thesis by (auto simp: algebra_simps)
  qed
  with IH P(2) R(2) show ?case by simp
qed

lemma run_lb_quota:
  assumes inv: "lb_inv lb" and el: "eligible lb e" and z: "\<forall>i<length (endpoints lb). current_weights lb ! i = 0"
    and r: "run_lb n lb = (rs, lb')" and i: "i < length (endpoints lb)"
  shows "weight_sum (endpoints lb) * int (count_list rs (Some i)) <
    int n * eff_weight (endpoints lb ! i) + weight_sum (endpoints lb)"
proof -
  note R = run_lb_weights [OF inv el r]
  have "0 < weight_sum (endpoints lb)" using weight_sum_pos [OF lb_inv_wf [OF inv] el] .
  moreover have "weight_sum (endpoints lb') = weight_sum (endpoints lb)"
    using R by (simp add: weight_sum_shape)
  moreover have "length (endpoints lb') = length (endpoints lb)" using R shape_nth by blast
  ultimately have "- weight_sum (endpoints lb) < current_weights lb' ! i"
    using R i unfolding lb_inv_def by (metis (no_types, lifting) neg_less_0_iff_less)
  with R z i show ?thesis by simp
qed

lemma sum_count_list_options:
  fixes n :: nat
  assumes "None \<notin> set rs" "\<forall>i. Some i \<in> set rs \<longrightarrow> i < n"
  shows "(\<Sum>i<n. count_list rs (Some i)) = length rs"
  using assms
proof (induction rs)
  case Nil
  then show ?case by simp
next
  case (Cons r rs)
  then obtain j where j: "r = Some j" "j < n" by (cases r) auto
  have "count_list (r # rs) (Some i) = (if i = j then 1 else 0) + count_list rs (Some i)" for i
    using j by auto
  then have "(\<Sum>i<n. count_list (r # rs) (Some i)) =
      (\<Sum>i<n. if i = j then 1 else 0) + (\<Sum>i<n. count_list rs (Some i))"
    by (simp only: sum.distrib)
  moreover have "(\<Sum>i<n. if i = j then 1 else (0 :: nat)) = 1"
    using j(2) by simp
  ultimately show ?case using Cons by simp
qed

lemma run_lb_cycle:
  assumes inv: "lb_inv lb" and el: "eligible lb e" and z: "\<forall>i<length (endpoints lb). current_weights lb ! i = 0"
    and r: "run_lb (nat (weight_sum (endpoints lb))) lb = (rs, lb')" and i: "i < length (endpoints lb)"
  shows "int (count_list rs (Some i)) = eff_weight (endpoints lb ! i)" "current_weights lb' ! i = 0"
proof -
  let ?W = "weight_sum (endpoints lb)" and ?n = "length (endpoints lb)"
  note R = run_lb_weights [OF inv el r]
  have W: "0 < ?W" using weight_sum_pos [OF lb_inv_wf [OF inv] el] .
  have up: "int (count_list rs (Some j)) \<le> eff_weight (endpoints lb ! j)" if "j < ?n" for j
  proof -
    have "?W * int (count_list rs (Some j)) < ?W * (eff_weight (endpoints lb ! j) + 1)"
      using run_lb_quota [OF inv el z r that] W by (simp add: algebra_simps)
    then show ?thesis using W by (simp add: mult_less_cancel_left)
  qed
  have "r' \<in> set rs \<Longrightarrow> \<exists>i. r' = Some i \<and> eligible lb i" for r'
    using wrr.picks_eligible [OF lb_inv_wf [OF inv] el] r run_lb_picks by (metis fst_conv)
  then have "(\<Sum>j<?n. count_list rs (Some j)) = length rs"
    using R by (intro sum_count_list_options) (auto simp: eligible_def)
  then have "(\<Sum>j<?n. int (count_list rs (Some j))) = ?W"
    using R W by (simp flip: of_nat_sum)
  then have tot: "(\<Sum>j<?n. eff_weight (endpoints lb ! j) - int (count_list rs (Some j))) = 0"
    by (simp add: sum_subtractf weight_sum_index)
  then have "\<forall>j\<in>{..<?n}. eff_weight (endpoints lb ! j) - int (count_list rs (Some j)) = 0"
    by (subst (asm) sum_nonneg_eq_0_iff) (use up in auto)
  then show c: "int (count_list rs (Some i)) = eff_weight (endpoints lb ! i)" using i by simp
  show "current_weights lb' ! i = 0" using R z i W c by simp
qed

lemma new_lb_endpoints:
  "endpoints (new_WeightedRoundRobin cfgs) = map make_endpoint cfgs"
  "\<forall>i<length cfgs. current_weights (new_WeightedRoundRobin cfgs) ! i = 0"
  by (simp_all add: new_WeightedRoundRobin_def)

lemma new_lb_eligible:
  "i < length cfgs \<Longrightarrow> uc_healthy (cfgs ! i) \<Longrightarrow> eligible (new_WeightedRoundRobin cfgs) i"
  by (simp add: eligible_def new_lb_endpoints make_endpoint_def)

lemma weights_bounded:
  assumes inv: "lb_inv lb" and i: "i < length (endpoints lb)"
  shows "\<bar>current_weights lb ! i\<bar> \<le> int (length (endpoints lb)) * weight_sum (endpoints lb)"
proof -
  let ?n = "length (endpoints lb)" and ?W = "weight_sum (endpoints lb)"
  have lo: "- ?W \<le> current_weights lb ! j" if "j < ?n" for j
  proof -
    have "current_weights lb ! j = 0 \<or> - ?W < current_weights lb ! j"
      using inv that by (simp add: lb_inv_def)
    moreover have "0 \<le> ?W" by simp
    ultimately show ?thesis by linarith
  qed
  have "(\<Sum>j\<in>{..<?n} - {i}. - ?W) \<le> (\<Sum>j\<in>{..<?n} - {i}. current_weights lb ! j)"
    by (intro sum_mono lo) auto
  also have "\<dots> = - current_weights lb ! i"
    using inv i by (simp add: lb_inv_def sum_diff1)
  finally have "current_weights lb ! i \<le> int (?n - 1) * ?W"
    using i by (simp add: card_Diff_subset)
  moreover have "int (?n - 1) * ?W \<le> int ?n * ?W" by (intro mult_right_mono) auto
  moreover have "1 * ?W \<le> int ?n * ?W" using i by (intro mult_right_mono) auto
  ultimately show ?thesis using lo [OF i] by linarith
qed

lemma eff_weight_less: "eff_weight ep < 2 ^ 32"
  using uint_lt2p [of "ep_weight ep"] by (simp add: eff_weight_def)

lemma weight_sum_le: "weight_sum eps \<le> int (length eps) * 2 ^ 32"
proof -
  have "weight_sum eps \<le> (\<Sum>i<length eps. 2 ^ 32)"
    unfolding weight_sum_index by (intro sum_mono less_imp_le eff_weight_less)
  then show ?thesis by simp
qed

section \<open>Properties\<close>

text \<open>C10. Exact weighted fairness: starting from a fresh balancer with at least one healthy
  upstream, one cycle of as many calls as the healthy weights add up to picks every healthy
  upstream exactly as often as its weight, never an unhealthy one, and returns all running
  weights to zero, so that the cycle repeats.\<close>

theorem wrr_exact_cycle:
  assumes "h < length cfgs" "uc_healthy (cfgs ! h)"
    and "lb = new_WeightedRoundRobin cfgs"
    and "run_lb (nat (weight_sum (endpoints lb))) lb = (rs, lb')"
  shows "None \<notin> set rs \<and> current_weights lb' = current_weights lb \<and>
    (\<forall>i<length cfgs. count_list rs (Some i) =
       (if uc_healthy (cfgs ! i) then unat (max 1 (uc_weight (cfgs ! i))) else 0))"
proof -
  have inv: "lb_inv lb" and el: "eligible lb h"
    using assms lb_inv_new new_lb_eligible by auto
  have z: "\<forall>i<length (endpoints lb). current_weights lb ! i = 0" and n: "length (endpoints lb) = length cfgs"
    using assms(3) new_lb_endpoints by auto
  note C = run_lb_cycle [OF inv el z assms(4)]
  note R = run_lb_weights [OF inv el assms(4)]
  have "length (current_weights lb') = length (current_weights lb)"
    using R inv shape_nth [of lb' lb] by (auto simp: lb_inv_def lb_wf_def)
  then have "current_weights lb' = current_weights lb"
    using C(2) z n inv by (intro nth_equalityI) (auto simp: lb_inv_def lb_wf_def)
  moreover have "count_list rs (Some i) =
      (if uc_healthy (cfgs ! i) then unat (max 1 (uc_weight (cfgs ! i))) else 0)"
    if i: "i < length cfgs" for i
  proof -
    have "int (count_list rs (Some i)) = eff_weight (make_endpoint (cfgs ! i))"
      using C(1) [of i] i n assms(3) by (simp add: new_lb_endpoints)
    then have "int (count_list rs (Some i)) =
        (if uc_healthy (cfgs ! i) then uint (max 1 (uc_weight (cfgs ! i))) else 0)"
      by (simp add: eff_weight_def make_endpoint_def)
    then show ?thesis by (metis nat_int nat_zero_as_int unat_eq_nat_uint)
  qed
  ultimately show ?thesis using R by blast
qed

definition demo_upstreams :: "UpstreamConfig list" where
  "demo_upstreams =
     [default_upstream\<lparr>uc_name := ''A'', uc_weight := 5\<rparr>,
      default_upstream\<lparr>uc_name := ''B'', uc_weight := 3\<rparr>,
      default_upstream\<lparr>uc_name := ''C'', uc_weight := 2\<rparr>]"

theorem wrr_exact_cycle_witness:
  "count_list (fst (run_lb 10 (new_WeightedRoundRobin demo_upstreams))) (Some 0) = 5"
proof -
  let ?lb = "new_WeightedRoundRobin demo_upstreams"
  have W: "nat (weight_sum (endpoints ?lb)) = 10"
    by (simp add: weight_sum_def new_lb_endpoints demo_upstreams_def make_endpoint_def
        eff_weight_def default_upstream_def)
  obtain rs lb' where r: "run_lb (nat (weight_sum (endpoints ?lb))) ?lb = (rs, lb')" by fastforce
  have h: "0 < length demo_upstreams" "uc_healthy (demo_upstreams ! 0)"
    "unat (max 1 (uc_weight (demo_upstreams ! 0))) = 5"
    by (simp_all add: demo_upstreams_def default_upstream_def)
  have "count_list rs (Some 0) = 5" using wrr_exact_cycle [OF h(1,2) refl r] h by auto
  with r W show ?thesis by simp
qed

text \<open>C24. Smoothness: at every moment of a run from a fresh balancer, after any number \<open>n\<close> of
  calls, no upstream has received a full request more than its proportional share
  \<open>n * weight / total\<close>.\<close>

theorem wrr_never_ahead:
  assumes "h < length cfgs" "uc_healthy (cfgs ! h)" "i < length cfgs"
    and "lb = new_WeightedRoundRobin cfgs" and "run_lb n lb = (rs, lb')"
  shows "weight_sum (endpoints lb) * int (count_list rs (Some i)) <
    int n * eff_weight (endpoints lb ! i) + weight_sum (endpoints lb)"
  using run_lb_quota [OF _ _ _ assms(5), of h i] assms lb_inv_new new_lb_eligible new_lb_endpoints
  by simp

theorem wrr_never_ahead_witness:
  "10 * int (count_list (fst (run_lb 4 (new_WeightedRoundRobin demo_upstreams))) (Some 0)) < 4 * 5 + 10"
proof -
  let ?lb = "new_WeightedRoundRobin demo_upstreams"
  have W: "weight_sum (endpoints ?lb) = 10" "eff_weight (endpoints ?lb ! 0) = 5"
    by (simp_all add: weight_sum_def new_lb_endpoints demo_upstreams_def make_endpoint_def
        eff_weight_def default_upstream_def)
  obtain rs lb' where r: "run_lb 4 ?lb = (rs, lb')" by fastforce
  have h: "0 < length demo_upstreams" "uc_healthy (demo_upstreams ! 0)"
    by (simp_all add: demo_upstreams_def default_upstream_def)
  from wrr_never_ahead [OF h h(1) refl r] r W show ?thesis by simp
qed



text \<open>Selection safety: on a balancer reached from any configuration by any sequence of picks,
  health changes and failure counts, a pick is a healthy upstream of the list, the call returns
  null only when no upstream is healthy, and the list of upstreams stays the one configured.\<close>

inductive lb_reachable :: "UpstreamConfig list \<Rightarrow> WeightedRoundRobin \<Rightarrow> bool" for cfgs where
  start: "lb_reachable cfgs (new_WeightedRoundRobin cfgs)"
| pick: "lb_reachable cfgs lb \<Longrightarrow> lb_reachable cfgs (snd (next_lb lb))"
| down: "lb_reachable cfgs lb \<Longrightarrow> lb_reachable cfgs (mark_unhealthy name lb)"
| up: "lb_reachable cfgs lb \<Longrightarrow> lb_reachable cfgs (mark_healthy name lb)"
| failed: "lb_reachable cfgs lb \<Longrightarrow> i < length (endpoints lb) \<Longrightarrow> lb_reachable cfgs (add_failed i lb)"

lemma lb_reachable_wf:
  "lb_reachable cfgs lb \<Longrightarrow>
     lb_wf lb \<and> map ep_name (endpoints lb) = map (ep_name \<circ> make_endpoint) cfgs"
proof (induction rule: lb_reachable.induct)
  case start
  show ?case using lb_inv_wf [OF lb_inv_new] by (simp add: new_lb_endpoints)
next
  case (pick lb)
  then show ?case using next_lb_cases(2,3) [of lb "fst (next_lb lb)" "snd (next_lb lb)"] by simp
next
  case (down lb name)
  then show ?case by (auto simp: lb_wf_def mark_unhealthy_def o_def if_distrib [of ep_name] cong: if_cong)
next
  case (up lb name)
  then show ?case by (auto simp: lb_wf_def mark_healthy_def o_def if_distrib [of ep_name] cong: if_cong)
next
  case (failed lb i)
  have "map ep_name (endpoints (add_failed i lb)) = map ep_name (endpoints lb)"
    using failed.hyps by (intro nth_equalityI) (auto simp: add_failed_def Let_def nth_list_update)
  with failed show ?case by (auto simp: lb_wf_def add_failed_def Let_def nth_list_update)
qed

lemma next_picks_healthy:
  assumes "lb_reachable cfgs lb" "next_lb lb = (r, lb')"
  shows "(case r of None \<Rightarrow> \<forall>i<length (endpoints lb). \<not> ep_healthy (endpoints lb ! i)
          | Some i \<Rightarrow> i < length (endpoints lb) \<and> ep_healthy (endpoints lb ! i)) \<and>
    map ep_name (endpoints lb') = map (ep_name \<circ> make_endpoint) cfgs"
  using lb_reachable_wf [OF assms(1)] next_lb_cases(3,4) [OF _ assms(2)]
  by (cases r) (auto simp: eligible_def)

lemma next_picks_healthy_witness:
  "\<exists>i. fst (next_lb (mark_unhealthy ''A'' (new_WeightedRoundRobin demo_upstreams))) = Some i \<and> i \<noteq> 0"
proof -
  let ?lb = "mark_unhealthy ''A'' (new_WeightedRoundRobin demo_upstreams)"
  have r: "lb_reachable demo_upstreams ?lb" by (intro lb_reachable.intros)
  have h: "\<not> ep_healthy (endpoints ?lb ! 0)" "ep_healthy (endpoints ?lb ! 1)" "1 < length (endpoints ?lb)"
    by (simp_all add: mark_unhealthy_def new_WeightedRoundRobin_def demo_upstreams_def
        make_endpoint_def default_upstream_def)
  obtain p lb' where n: "next_lb ?lb = (p, lb')" by fastforce
  note T = next_picks_healthy [OF r n]
  show ?thesis
  proof (cases p)
    case None
    with T h show ?thesis by auto
  next
    case (Some i)
    with T have "ep_healthy (endpoints ?lb ! i)" by simp
    with h(1) have "i \<noteq> 0" by metis
    with Some n show ?thesis by simp
  qed
qed

end
