(* ===== verification/Upstream_Pool.thy ===== *)
theory Upstream_Pool
  imports Os Load_Balancer Http2
begin

text \<open>
  The upstream connection pools (\<^verbatim>\<open>include/uproxy/upstream_pool.h\<close>, \<^verbatim>\<open>src/upstream_pool.cpp\<close>).

  A pool's \<^verbatim>\<open>endpoint_\<close> is shared with the load balancer; \<open>up_endpoint\<close> is its position there, and
  the operations that read or count on the endpoint take it as an argument and return it.
  \<open>acquire\<close> has two critical sections around the connect: \<open>acquire_locked\<close> is the first.  While it
  waits on the condition variable the lock is free; what other threads make of the pool meanwhile is
  the argument \<open>others\<close>.  \<^verbatim>\<open>total_\<close> is a 32-bit word and wraps.  Destroying a connection closes its
  descriptor.  \<^verbatim>\<open>pools_\<close> is a list of pairs; the source iterates it in an unspecified order, the
  model in the order of insertion.
\<close>

section \<open>Model\<close>

record PooledConn =
  pc_fd :: Uniquefd
  pc_h2 :: "H2Conn option"
  pc_in_use :: bool
  pc_request_count :: u64
  pc_created_at_ms :: u64
  pc_last_used_at_ms :: u64

record UpstreamPool =
  up_endpoint :: nat
  up_cfg :: PoolConfig
  up_idle :: "PooledConn list"
  up_total :: u32

definition new_UpstreamPool :: "nat \<Rightarrow> PoolConfig \<Rightarrow> UpstreamPool" where
  "new_UpstreamPool ep cfg = \<lparr>up_endpoint = ep, up_cfg = cfg, up_idle = [], up_total = 0\<rparr>"

definition now_ms :: "u64 io" where
  "now_ms = bind_io (call Clock) (\<lambda>r. return_io (word_of_int (ret r)))"

definition destroy_conn :: "PooledConn \<Rightarrow> unit io" where
  "destroy_conn c = destroy_fd (pc_fd c)"

text \<open>\<open>connect_socket\<close>: what \<^verbatim>\<open>new_connection\<close> does with the socket it has opened.\<close>

definition connect_socket :: "UpstreamEndpoint \<Rightarrow> PoolConfig \<Rightarrow> Uniquefd \<Rightarrow> unit result io" where
  "connect_socket ep cfg fd =
     try_io (set_nonblocking fd) (\<lambda>_.
       bind_io (set_nodelay fd) (\<lambda>_.
         bind_io (call (Inet_pton (ep_addr ep))) (\<lambda>p.
           if ret p \<noteq> 1 then return_io (Inl (from_code ConfigInvalid ''upstream address must be IPv4''))
           else bind_io (call (Connect fd (ep_addr ep) (ep_port ep))) (\<lambda>c.
             if ret c < 0 \<and> err c \<noteq> EINPROGRESS then return_io (Inl (from_errno (err c) ''connect upstream''))
             else if ret c < 0
             then bind_io (call (Poll fd POLLOUT (sint (connect_timeout_ms cfg)))) (\<lambda>w.
               if ret w \<le> 0 then return_io (Inl (from_code Timeout ''connect upstream timeout''))
               else bind_io (call (Getsockopt_error fd)) (\<lambda>g.
                 if ret g < 0 \<or> aux g \<noteq> 0 then return_io (Inl (from_code SysError ''connect upstream failed''))
                 else return_io (Inr ())))
             else return_io (Inr ())))))"

definition new_connection :: "UpstreamEndpoint \<Rightarrow> PoolConfig \<Rightarrow> PooledConn result io" where
  "new_connection ep cfg =
     bind_io (call Socket) (\<lambda>s.
       if \<not> valid_fd (ret s) then return_io (Inl (from_errno (err s) ''socket upstream''))
       else bind_io (connect_socket ep cfg (ret s)) (\<lambda>r.
         case r of
           Inl e \<Rightarrow> bind_io (destroy_fd (ret s)) (\<lambda>_. return_io (Inl e))
         | Inr _ \<Rightarrow> bind_io now_ms (\<lambda>t.
             return_io (Inr \<lparr>pc_fd = ret s, pc_h2 = None, pc_in_use = True, pc_request_count = 0,
                             pc_created_at_ms = t, pc_last_used_at_ms = t\<rparr>))))"

definition acquire_locked ::
  "(UpstreamPool \<Rightarrow> UpstreamPool) \<Rightarrow> UpstreamPool \<Rightarrow> PooledConn option result \<times> UpstreamPool" where
  "acquire_locked others pool =
     (case up_idle pool of
        c # rest \<Rightarrow> (Inr (Some (c\<lparr>pc_in_use := True\<rparr>)), pool\<lparr>up_idle := rest\<rparr>)
      | [] \<Rightarrow>
          if up_total pool \<ge> max_conns_per_upstream (up_cfg pool)
          then let pool' = others pool
               in case up_idle pool' of
                    [] \<Rightarrow> (Inl (from_code Timeout ''upstream pool exhausted''), pool')
                  | c # rest \<Rightarrow> (Inr (Some (c\<lparr>pc_in_use := True\<rparr>)), pool'\<lparr>up_idle := rest\<rparr>)
          else (Inr None, pool\<lparr>up_total := up_total pool + 1\<rparr>))"

definition acquire_failed :: "UpstreamEndpoint \<Rightarrow> UpstreamPool \<Rightarrow> UpstreamEndpoint \<times> UpstreamPool" where
  "acquire_failed ep pool =
     (ep\<lparr>ep_failed_requests := ep_failed_requests ep + 1\<rparr>, pool\<lparr>up_total := up_total pool - 1\<rparr>)"

definition acquire ::
  "(UpstreamPool \<Rightarrow> UpstreamPool) \<Rightarrow> UpstreamEndpoint \<Rightarrow> UpstreamPool \<Rightarrow>
     (PooledConn result \<times> UpstreamEndpoint \<times> UpstreamPool) io" where
  "acquire others ep pool =
     (case acquire_locked others pool of
        (Inl e, pool') \<Rightarrow> return_io (Inl e, ep, pool')
      | (Inr (Some c), pool') \<Rightarrow> return_io (Inr c, ep, pool')
      | (Inr None, pool') \<Rightarrow>
          bind_io (new_connection ep (up_cfg pool)) (\<lambda>r.
            case r of
              Inl e \<Rightarrow> return_io (Inl e, acquire_failed ep pool')
            | Inr c \<Rightarrow> return_io (Inr c, ep, pool')))"

definition release :: "PooledConn option \<Rightarrow> UpstreamPool \<Rightarrow> UpstreamPool io" where
  "release conn pool =
     (case conn of
        None \<Rightarrow> return_io pool
      | Some c0 \<Rightarrow>
          bind_io now_ms (\<lambda>t.
            let c = c0\<lparr>pc_in_use := False, pc_last_used_at_ms := t\<rparr>
            in if \<not> valid_fd (pc_fd c) \<or> pc_request_count c \<ge> ucast (max_keepalive (up_cfg pool))
               then bind_io (destroy_conn c) (\<lambda>_. return_io (pool\<lparr>up_total := up_total pool - 1\<rparr>))
               else return_io (pool\<lparr>up_idle := up_idle pool @ [c]\<rparr>)))"

definition expired :: "u64 \<Rightarrow> u32 \<Rightarrow> PooledConn \<Rightarrow> bool" where
  "expired ts_ms idle_timeout c \<longleftrightarrow>
     ts_ms \<ge> pc_last_used_at_ms c \<and> ts_ms - pc_last_used_at_ms c > ucast idle_timeout"

fun evict_loop :: "u64 \<Rightarrow> u32 \<Rightarrow> PooledConn list \<Rightarrow> u32 \<Rightarrow> (PooledConn list \<times> u32) io" where
  "evict_loop ts_ms idle_timeout [] tot = return_io ([], tot)"
| "evict_loop ts_ms idle_timeout (c # cs) tot =
     (if expired ts_ms idle_timeout c
      then bind_io (destroy_conn c) (\<lambda>_. evict_loop ts_ms idle_timeout cs (tot - 1))
      else bind_io (evict_loop ts_ms idle_timeout cs tot) (\<lambda>(kept, tot1). return_io (c # kept, tot1)))"

definition evict_idle :: "u64 \<Rightarrow> UpstreamPool \<Rightarrow> UpstreamPool io" where
  "evict_idle ts_ms pool =
     bind_io (evict_loop ts_ms (idle_timeout_ms (up_cfg pool)) (up_idle pool) (up_total pool))
       (\<lambda>(kept, tot). return_io (pool\<lparr>up_idle := kept, up_total := tot\<rparr>))"

fun destroy_conns :: "PooledConn list \<Rightarrow> unit io" where
  "destroy_conns [] = return_io ()"
| "destroy_conns (c # cs) = bind_io (destroy_conn c) (\<lambda>_. destroy_conns cs)"

definition drain :: "UpstreamPool \<Rightarrow> UpstreamPool io" where
  "drain pool = bind_io (destroy_conns (up_idle pool)) (\<lambda>_. return_io (pool\<lparr>up_idle := [], up_total := 0\<rparr>))"

definition idle_count :: "UpstreamPool \<Rightarrow> nat" where
  "idle_count pool = length (up_idle pool)"

definition total_count :: "UpstreamPool \<Rightarrow> nat" where
  "total_count pool = unat (up_total pool)"

record PoolManager =
  pm_pools :: "(string \<times> UpstreamPool) list"
  pm_cfg :: PoolConfig

definition new_PoolManager :: "PoolConfig \<Rightarrow> PoolManager" where
  "new_PoolManager cfg = \<lparr>pm_pools = [], pm_cfg = cfg\<rparr>"

definition get_pool :: "UpstreamEndpoint list \<Rightarrow> nat \<Rightarrow> PoolManager \<Rightarrow> UpstreamPool \<times> PoolManager" where
  "get_pool eps i mgr =
     (let key = ep_name (eps ! i)
      in case map_of (pm_pools mgr) key of
           Some pool \<Rightarrow> (pool, mgr)
         | None \<Rightarrow>
             let pool = new_UpstreamPool i (pm_cfg mgr)
             in (pool, mgr\<lparr>pm_pools := pm_pools mgr @ [(key, pool)]\<rparr>))"

text \<open>The effect of the reference that \<^verbatim>\<open>get\<close> returns: the pool of a key is replaced.\<close>

definition put_pool :: "string \<Rightarrow> UpstreamPool \<Rightarrow> PoolManager \<Rightarrow> PoolManager" where
  "put_pool key pool mgr = mgr\<lparr>pm_pools := assign key pool (pm_pools mgr)\<rparr>"

fun tick_loop :: "u64 \<Rightarrow> (string \<times> UpstreamPool) list \<Rightarrow> (string \<times> UpstreamPool) list io" where
  "tick_loop ts_ms [] = return_io []"
| "tick_loop ts_ms ((k, pool) # rest) =
     bind_io (evict_idle ts_ms pool) (\<lambda>pool'. bind_io (tick_loop ts_ms rest) (\<lambda>rest'. return_io ((k, pool') # rest')))"

definition tick :: "u64 \<Rightarrow> PoolManager \<Rightarrow> PoolManager io" where
  "tick ts_ms mgr = bind_io (tick_loop ts_ms (pm_pools mgr)) (\<lambda>ps. return_io (mgr\<lparr>pm_pools := ps\<rparr>))"

section \<open>Descriptors held by a pool\<close>

definition conn_fds :: "PooledConn \<Rightarrow> int multiset" where
  "conn_fds c = owned (pc_fd c)"

definition conns_fds :: "PooledConn list \<Rightarrow> int multiset" where
  "conns_fds cs = sum_list (map conn_fds cs)"

definition pool_fds :: "UpstreamPool \<Rightarrow> int multiset" where
  "pool_fds pool = conns_fds (up_idle pool)"

definition result_fds :: "PooledConn result \<Rightarrow> int multiset" where
  "result_fds r = (case r of Inl _ \<Rightarrow> {#} | Inr c \<Rightarrow> conn_fds c)"

lemma conns_fds_simps [simp]:
  "conns_fds [] = {#}" "conns_fds (c # cs) = conn_fds c + conns_fds cs" "conns_fds (cs @ ds) = conns_fds cs + conns_fds ds"
  by (simp_all add: conns_fds_def)

lemma result_fds_simps [simp]: "result_fds (Inl e) = {#}" "result_fds (Inr c) = conn_fds c"
  by (simp_all add: result_fds_def)

lemma moves_now_ms: "moves old (\<lambda>_. old) now_ms"
  unfolding now_ms_def by (intro moves_call_bind moves_return) (simp_all add: neutral_def)

lemma moves_destroy_conn: "moves (conn_fds c) (\<lambda>_. {#}) (destroy_conn c)"
  unfolding destroy_conn_def conn_fds_def by (rule moves_destroy)

lemma moves_connect_socket: "moves old (\<lambda>_. old) (connect_socket ep cfg fd)"
  unfolding connect_socket_def
  by (intro moves_try [OF moves_options(1)] moves_bind [OF moves_options(3)] moves_call_bind moves_if moves_return)
    (simp_all add: neutral_def)

lemma moves_new_connection: "moves {#} result_fds (new_connection ep cfg)"
  unfolding new_connection_def
proof (rule moves_bind [where mid = "\<lambda>s. owned (ret s)"])
  show "moves {#} (\<lambda>s. owned (ret s)) (call Socket)"
    unfolding moves_def by (rule runs_call) (simp add: owned_def valid_fd_def)
  fix s
  show "moves (owned (ret s)) result_fds
     (if \<not> valid_fd (ret s) then return_io (Inl (from_errno (err s) ''socket upstream''))
      else bind_io (connect_socket ep cfg (ret s)) (\<lambda>r. case r of
         Inl e \<Rightarrow> bind_io (destroy_fd (ret s)) (\<lambda>_. return_io (Inl e))
       | Inr _ \<Rightarrow> bind_io now_ms (\<lambda>t. return_io (Inr \<lparr>pc_fd = ret s, pc_h2 = None, pc_in_use = True,
           pc_request_count = 0, pc_created_at_ms = t, pc_last_used_at_ms = t\<rparr>))))"
    by (intro moves_if moves_bind [OF moves_connect_socket])
      (auto simp: owned_invalid conn_fds_def intro!: moves_return moves_bind [OF moves_destroy] moves_bind [OF moves_now_ms] split: sum.split)
qed

definition acquired_fds :: "PooledConn result \<times> UpstreamEndpoint \<times> UpstreamPool \<Rightarrow> int multiset" where
  "acquired_fds p = (case p of (r, _, pool) \<Rightarrow> result_fds r + pool_fds pool)"

lemma moves_acquire: "moves (pool_fds pool) acquired_fds (acquire (\<lambda>p. p) ep pool)"
proof (cases "up_idle pool")
  case (Cons c rest)
  then show ?thesis
    by (auto simp: acquire_def acquire_locked_def acquired_fds_def pool_fds_def conn_fds_def intro!: moves_return)
next
  case Nil
  then have "moves (pool_fds pool) (\<lambda>r. result_fds r + {#}) (new_connection ep (up_cfg pool))"
    using moves_new_connection by (simp add: pool_fds_def)
  with Nil show ?thesis
    by (auto simp: acquire_def acquire_locked_def acquire_failed_def acquired_fds_def pool_fds_def Let_def
        intro!: moves_return moves_bind [where mid = result_fds] split: sum.split)
qed

lemma moves_release:
  "moves ((case conn of None \<Rightarrow> {#} | Some c \<Rightarrow> conn_fds c) + pool_fds pool) pool_fds (release conn pool)"
proof (cases conn)
  case None
  then show ?thesis by (simp add: release_def moves_return)
next
  case (Some c)
  have d: "moves (conn_fds c + k) (\<lambda>_. k) (destroy_conn (c\<lparr>pc_in_use := False, pc_last_used_at_ms := t\<rparr>))" for t k
    using moves_frame [OF moves_destroy_conn, of "c\<lparr>pc_in_use := False, pc_last_used_at_ms := t\<rparr>" k] by (simp add: conn_fds_def)
  have "moves (conn_fds c + pool_fds pool) pool_fds
     (let c = c\<lparr>pc_in_use := False, pc_last_used_at_ms := t\<rparr>
      in if \<not> valid_fd (pc_fd c) \<or> pc_request_count c \<ge> ucast (max_keepalive (up_cfg pool))
         then bind_io (destroy_conn c) (\<lambda>_. return_io (pool\<lparr>up_total := up_total pool - 1\<rparr>))
         else return_io (pool\<lparr>up_idle := up_idle pool @ [c]\<rparr>))" for t
    unfolding Let_def
    by (intro moves_if moves_bind [OF d] moves_return) (simp_all add: pool_fds_def conn_fds_def)
  then show ?thesis unfolding release_def Some option.case by (rule moves_bind [OF moves_now_ms])
qed

lemma moves_evict_loop: "moves (conns_fds cs) (\<lambda>(kept, _). conns_fds kept) (evict_loop ts_ms timeout cs tot)"
proof (induction cs arbitrary: tot)
  case Nil
  show ?case by (simp add: moves_return)
next
  case (Cons c cs)
  have d: "moves (conn_fds c + conns_fds cs) (\<lambda>_. conns_fds cs) (destroy_conn c)"
    using moves_frame [OF moves_destroy_conn] by simp
  have k: "moves (conn_fds c + conns_fds cs) (\<lambda>(kept, _). conn_fds c + conns_fds kept) (evict_loop ts_ms timeout cs tot)"
    using moves_frame [OF Cons, where k = "conn_fds c"] by (simp add: add.commute case_prod_unfold)
  show ?case by (auto intro!: moves_bind [OF d Cons] moves_bind [OF k] moves_return)
qed

lemma moves_evict_idle: "moves (pool_fds pool) pool_fds (evict_idle ts_ms pool)"
  unfolding evict_idle_def pool_fds_def
  by (rule moves_bind [OF moves_evict_loop]) (auto simp: pool_fds_def intro!: moves_return)

lemma moves_destroy_conns: "moves (conns_fds cs) (\<lambda>_. {#}) (destroy_conns cs)"
proof (induction cs)
  case (Cons c cs)
  have "moves (conn_fds c + conns_fds cs) (\<lambda>_. conns_fds cs) (destroy_conn c)"
    using moves_frame [OF moves_destroy_conn] by simp
  then show ?case by (auto intro: moves_bind Cons)
qed (simp add: moves_return)

lemma moves_drain: "moves (pool_fds pool) pool_fds (drain pool)"
  unfolding drain_def pool_fds_def by (rule moves_bind [OF moves_destroy_conns]) (simp add: moves_return pool_fds_def)

definition mgr_fds :: "PoolManager \<Rightarrow> int multiset" where
  "mgr_fds mgr = total_of pool_fds (pm_pools mgr)"

lemma moves_tick_loop: "moves (total_of pool_fds ps) (total_of pool_fds) (tick_loop ts_ms ps)"
proof (induction ts_ms ps rule: tick_loop.induct)
  case (2 ts_ms k pool rest)
  show ?case
  proof (simp only: tick_loop.simps total_of_simps, rule moves_bind [OF moves_frame [OF moves_evict_idle]])
    fix pool'
    have "moves (pool_fds pool' + total_of pool_fds rest) (\<lambda>ps. pool_fds pool' + total_of pool_fds ps) (tick_loop ts_ms rest)"
      using moves_frame [OF 2, where k = "pool_fds pool'"] by (simp add: add.commute)
    then show "moves (pool_fds pool' + total_of pool_fds rest) (total_of pool_fds)
       (bind_io (tick_loop ts_ms rest) (\<lambda>rest'. return_io ((k, pool') # rest')))"
      by (rule moves_bind) (simp add: moves_return)
  qed
qed (simp add: moves_return)

lemma moves_tick: "moves (mgr_fds mgr) mgr_fds (tick ts_ms mgr)"
  unfolding tick_def mgr_fds_def
  by (rule moves_bind [OF moves_tick_loop]) (simp add: moves_return mgr_fds_def)

lemma get_pool_fds:
  assumes "get_pool eps i mgr = (pool, mgr1)"
  shows "mgr_fds mgr = pool_fds pool + total_of pool_fds (erase (ep_name (eps ! i)) (pm_pools mgr1)) \<and>
    mgr_fds (put_pool (ep_name (eps ! i)) pool' mgr1) =
      pool_fds pool' + total_of pool_fds (erase (ep_name (eps ! i)) (pm_pools mgr1))"
proof -
  have m: "map_of (pm_pools mgr1) (ep_name (eps ! i)) = Some pool \<and> mgr_fds mgr1 = mgr_fds mgr"
    using assms by (auto simp: get_pool_def Let_def mgr_fds_def new_UpstreamPool_def pool_fds_def map_add_def split: option.splits)
  then show ?thesis
    using total_of_erase [of "pm_pools mgr1" _ pool pool_fds] total_of_assign [of "pm_pools mgr1" _ pool pool_fds]
    by (simp add: mgr_fds_def put_pool_def)
qed

section \<open>Accounting\<close>

lemma release_total:
  assumes "release (Some c) pool os = Some (pool', os')"
  shows "up_cfg pool' = up_cfg pool \<and>
    (up_total pool' = up_total pool \<and> length (up_idle pool') = Suc (length (up_idle pool)) \<or>
     up_total pool' = up_total pool - 1 \<and> up_idle pool' = up_idle pool)"
  using assms by (auto simp: release_def io_elims Let_def split: if_splits)

lemma evict_loop_total:
  assumes "evict_loop ts_ms timeout cs tot os = Some ((kept, tot1), os')" "length cs \<le> unat tot"
  shows "length kept \<le> length cs \<and> unat tot1 + length cs = unat tot + length kept"
  using assms
proof (induction cs arbitrary: tot os os' kept)
  case Nil
  then show ?case by (simp add: return_io_eq_Some)
next
  case (Cons c cs)
  show ?case
  proof (cases "expired ts_ms timeout c")
    case True
    have "(1 :: u32) \<le> tot" using Cons.prems(2) by (simp add: word_le_nat_alt)
    then have u: "unat (tot - 1) = unat tot - 1" by (simp add: unat_sub)
    then have l: "length cs \<le> unat (tot - 1)" using Cons.prems(2) by simp
    obtain s where "evict_loop ts_ms timeout cs (tot - 1) s = Some ((kept, tot1), os')"
      using Cons.prems(1) True by (auto simp: bind_io_eq_Some)
    from Cons.IH [OF this l] show ?thesis using u Cons.prems(2) by auto
  next
    case False
    then obtain k s where "evict_loop ts_ms timeout cs tot os = Some ((k, tot1), s)" "kept = c # k"
      using Cons.prems(1) by (auto simp: io_elims)
    then show ?thesis using Cons.IH [of tot os k s] Cons.prems(2) by simp
  qed
qed

text \<open>
  A pool and its users as a transition system.  \<open>ps_lent\<close> are the connections that users hold,
  \<open>ps_pending\<close> the connects under way (between the two critical sections of \<open>acquire\<close>), and
  \<open>ps_dropped\<close> counts the connections that a user destroyed without handing them to \<open>release\<close>, which
  is what the proxy does after a failed exchange: it calls \<^verbatim>\<open>release(nullptr)\<close>.
\<close>

record PoolSys =
  ps_pool :: UpstreamPool
  ps_ep :: UpstreamEndpoint
  ps_lent :: "PooledConn list"
  ps_pending :: nat
  ps_dropped :: nat
  ps_os :: OS

definition new_PoolSys :: "PoolConfig \<Rightarrow> nat \<Rightarrow> UpstreamEndpoint \<Rightarrow> OS \<Rightarrow> PoolSys" where
  "new_PoolSys cfg i ep os =
     \<lparr>ps_pool = new_UpstreamPool i cfg, ps_ep = ep, ps_lent = [], ps_pending = 0, ps_dropped = 0, ps_os = os\<rparr>"

inductive pool_step :: "PoolSys \<Rightarrow> PoolSys \<Rightarrow> bool" where
  reuse: "acquire_locked (\<lambda>p. p) (ps_pool s) = (Inr (Some c), pool) \<Longrightarrow>
    pool_step s (s\<lparr>ps_pool := pool, ps_lent := c # ps_lent s\<rparr>)"
| reserve: "acquire_locked (\<lambda>p. p) (ps_pool s) = (Inr None, pool) \<Longrightarrow>
    pool_step s (s\<lparr>ps_pool := pool, ps_pending := Suc (ps_pending s)\<rparr>)"
| connected: "ps_pending s = Suc n \<Longrightarrow>
    new_connection (ps_ep s) (up_cfg (ps_pool s)) (ps_os s) = Some (Inr c, os) \<Longrightarrow>
    pool_step s (s\<lparr>ps_pending := n, ps_lent := c # ps_lent s, ps_os := os\<rparr>)"
| connect_failed: "ps_pending s = Suc n \<Longrightarrow>
    new_connection (ps_ep s) (up_cfg (ps_pool s)) (ps_os s) = Some (Inl e, os) \<Longrightarrow>
    acquire_failed (ps_ep s) (ps_pool s) = (ep, pool) \<Longrightarrow>
    pool_step s (s\<lparr>ps_pool := pool, ps_ep := ep, ps_pending := n, ps_os := os\<rparr>)"
| served: "ps_lent s = xs @ c # ys \<Longrightarrow>
    pool_step s (s\<lparr>ps_lent := xs @ c\<lparr>pc_request_count := pc_request_count c + 1\<rparr> # ys\<rparr>)"
| released: "ps_lent s = xs @ c # ys \<Longrightarrow> release (Some c) (ps_pool s) (ps_os s) = Some (pool, os) \<Longrightarrow>
    pool_step s (s\<lparr>ps_pool := pool, ps_lent := xs @ ys, ps_os := os\<rparr>)"
| dropped: "ps_lent s = xs @ c # ys \<Longrightarrow> destroy_conn c (ps_os s) = Some ((), os) \<Longrightarrow>
    pool_step s (s\<lparr>ps_lent := xs @ ys, ps_dropped := Suc (ps_dropped s), ps_os := os\<rparr>)"
| evicted: "evict_idle ts_ms (ps_pool s) (ps_os s) = Some (pool, os) \<Longrightarrow>
    pool_step s (s\<lparr>ps_pool := pool, ps_os := os\<rparr>)"

definition pool_inv :: "PoolConfig \<Rightarrow> PoolSys \<Rightarrow> bool" where
  "pool_inv cfg s \<longleftrightarrow> up_cfg (ps_pool s) = cfg \<and>
     unat (up_total (ps_pool s)) = length (up_idle (ps_pool s)) + length (ps_lent s) + ps_pending s + ps_dropped s \<and>
     unat (up_total (ps_pool s)) \<le> unat (max_conns_per_upstream cfg)"

definition fds_inv :: "PoolSys \<Rightarrow> bool" where
  "fds_inv s \<longleftrightarrow> opened (trace (ps_os s)) = closed (trace (ps_os s)) + (pool_fds (ps_pool s) + conns_fds (ps_lent s))"

lemma unat_pred: "0 < unat (w :: u32) \<Longrightarrow> unat (w - 1) = unat w - 1"
proof -
  assume "0 < unat w"
  then have "1 \<le> w" by (simp add: word_le_nat_alt)
  then show ?thesis by (simp add: unat_sub)
qed

lemma unat_succ: "(w :: u32) < v \<Longrightarrow> unat (w + 1) = unat w + 1"
  using unsigned_less [of v, where 'a = nat] by (simp add: unat_word_ariths word_less_nat_alt)

lemma evict_idle_total:
  assumes "evict_idle ts_ms pool os = Some (pool', os')" "length (up_idle pool) \<le> unat (up_total pool)"
  shows "up_cfg pool' = up_cfg pool \<and> length (up_idle pool') \<le> length (up_idle pool) \<and>
    unat (up_total pool') + length (up_idle pool) = unat (up_total pool) + length (up_idle pool')"
  using assms evict_loop_total by (fastforce simp: evict_idle_def io_elims)

lemma pool_step_inv: "pool_step s s' \<Longrightarrow> pool_inv cfg s \<Longrightarrow> pool_inv cfg s'"
proof (induction rule: pool_step.induct)
  case (reuse s c pool)
  then show ?case by (auto simp: pool_inv_def acquire_locked_def Let_def split: list.splits if_splits)
next
  case (reserve s pool)
  then have less: "up_total (ps_pool s) < max_conns_per_upstream (up_cfg (ps_pool s))"
    and pool: "pool = ps_pool s\<lparr>up_total := up_total (ps_pool s) + 1\<rparr>"
    by (auto simp: acquire_locked_def Let_def not_le split: list.splits if_splits)
  have "unat (up_total (ps_pool s)) < unat (max_conns_per_upstream (up_cfg (ps_pool s)))"
    using less by (simp add: word_less_nat_alt)
  with reserve(2) unat_succ [OF less] show ?case unfolding pool by (simp add: pool_inv_def)
next
  case (connect_failed s n e os ep pool)
  then show ?case by (auto simp: pool_inv_def acquire_failed_def unat_pred)
next
  case (released s xs c ys pool os)
  then show ?case using release_total [OF released(2)] by (auto simp: pool_inv_def unat_pred)
next
  case (evicted ts_ms s pool os)
  then show ?case using evict_idle_total [OF evicted(1)] by (auto simp: pool_inv_def)
qed (auto simp: pool_inv_def)

lemma moves_step:
  assumes "moves (old + k) (\<lambda>x. new x + k) m" "m os = Some (x, os')" "opened (trace os) = closed (trace os) + (old + k)"
  shows "opened (trace os') = closed (trace os') + (new x + k)"
proof -
  obtain tr where tr: "did os tr os'" "old + k + opened tr = closed tr + (new x + k)"
    using runsD [OF assms(1) [unfolded moves_def] assms(2)] .
  have "trace os' = trace os @ tr" using tr(1) by (simp add: did_def)
  then show ?thesis using assms(3) tr(2) by (simp add: add.assoc)
qed

lemma pool_step_fds: "pool_step s s' \<Longrightarrow> fds_inv s \<Longrightarrow> fds_inv s'"
proof (induction rule: pool_step.induct)
  case (reuse s c pool)
  then show ?case
    by (auto simp: fds_inv_def acquire_locked_def pool_fds_def conn_fds_def Let_def split: list.splits if_splits)
next
  case (reserve s pool)
  then show ?case
    by (auto simp: fds_inv_def acquire_locked_def pool_fds_def Let_def split: list.splits if_splits)
next
  case (connected s n c os)
  from moves_step [OF moves_frame [OF moves_new_connection] connected(2), of "pool_fds (ps_pool s) + conns_fds (ps_lent s)"]
  show ?case using connected(3) by (simp add: fds_inv_def add.assoc add.left_commute)
next
  case (connect_failed s n e os ep pool)
  from moves_step [OF moves_frame [OF moves_new_connection] connect_failed(2), of "pool_fds (ps_pool s) + conns_fds (ps_lent s)"]
  show ?case using connect_failed(3,4) by (auto simp: fds_inv_def acquire_failed_def pool_fds_def)
next
  case (served s xs c ys)
  then show ?case by (simp add: fds_inv_def conn_fds_def)
next
  case (released s xs c ys pool os)
  from moves_step [OF moves_frame [OF moves_release] released(2), of "conns_fds (xs @ ys)"]
  show ?case using released(1,3) by (simp add: fds_inv_def ac_simps)
next
  case (dropped s xs c ys os)
  from moves_step [OF moves_frame [OF moves_destroy_conn] dropped(2), of "pool_fds (ps_pool s) + conns_fds (xs @ ys)"]
  show ?case using dropped(1,3) by (simp add: fds_inv_def ac_simps)
next
  case (evicted ts_ms s pool os)
  from moves_step [OF moves_frame [OF moves_evict_idle] evicted(1), of "conns_fds (ps_lent s)"]
  show ?case using evicted(2) by (simp add: fds_inv_def)
qed

lemma pool_run_inv:
  assumes "pool_step\<^sup>*\<^sup>* (new_PoolSys cfg i ep os) s"
  shows "pool_inv cfg s"
  using assms
proof (induction rule: rtranclp_induct)
  case base
  show ?case by (simp add: pool_inv_def new_PoolSys_def new_UpstreamPool_def)
qed (rule pool_step_inv)

lemma pool_run_fds:
  assumes "pool_step\<^sup>*\<^sup>* (new_PoolSys cfg i ep os) s" "trace os = []"
  shows "fds_inv s"
  using assms(1)
proof (induction rule: rtranclp_induct)
  case base
  show ?case by (simp add: fds_inv_def new_PoolSys_def new_UpstreamPool_def pool_fds_def assms(2))
qed (rule pool_step_fds)

lemma pool_step_dropped: "pool_step s s' \<Longrightarrow> ps_dropped s \<le> ps_dropped s'"
  by (induction rule: pool_step.induct) simp_all

lemma pool_steps_dropped: "pool_step\<^sup>*\<^sup>* s s' \<Longrightarrow> ps_dropped s \<le> ps_dropped s'"
  by (induction rule: rtranclp_induct) (auto dest: pool_step_dropped)

section \<open>Properties\<close>

text \<open>C11. Capacity: however the calls of acquire, release and evict_idle of the users of a pool
  interleave, whatever the kernel answers, the idle and the lent connections and the connects under
  way are together never more than max_conns_per_upstream, and the counter total_ is exactly their
  number plus the number of connections that users dropped without releasing them; it never wraps.\<close>

theorem pool_capacity:
  assumes "pool_step\<^sup>*\<^sup>* (new_PoolSys cfg i ep os) s"
  shows "idle_count (ps_pool s) + length (ps_lent s) + ps_pending s \<le> unat (max_conns_per_upstream cfg) \<and>
    total_count (ps_pool s) = idle_count (ps_pool s) + length (ps_lent s) + ps_pending s + ps_dropped s"
  using pool_run_inv [OF assms] by (auto simp: pool_inv_def idle_count_def total_count_def)


text \<open>C35. Lost capacity: a pool never regains the capacity of a dropped connection.  After
  max_conns_per_upstream of them it is dead for good: whatever happens next, every acquire
  by a single-threaded user times out without a system call.\<close>

theorem pool_starves:
  assumes "pool_step\<^sup>*\<^sup>* (new_PoolSys cfg i ep os) s" "ps_dropped s = unat (max_conns_per_upstream cfg)"
    and "pool_step\<^sup>*\<^sup>* s s'"
  shows "acquire (\<lambda>p. p) (ps_ep s') (ps_pool s') os' =
    Some ((Inl (from_code Timeout ''upstream pool exhausted''), ps_ep s', ps_pool s'), os')"
proof -
  have "pool_inv cfg s'" using pool_run_inv assms(1,3) by (metis rtranclp_trans)
  then have "length (up_idle (ps_pool s')) \<le> 0" "unat (max_conns_per_upstream cfg) \<le> unat (up_total (ps_pool s'))"
    using pool_steps_dropped [OF assms(3)] assms(2) unfolding pool_inv_def by linarith+
  moreover have "up_cfg (ps_pool s') = cfg" using \<open>pool_inv cfg s'\<close> by (simp add: pool_inv_def)
  ultimately show ?thesis by (simp add: acquire_def acquire_locked_def return_io_def word_le_nat_alt)
qed

text \<open>A run in which one connection is made, and then dropped.\<close>

definition demo_os :: OS where
  "demo_os = \<lparr>script = map reply [5, 0, 0, 0, 1, 0, 7, 0], trace = [], os_logger = None, os_log = [],
     os_strerror = (\<lambda>_. []), os_stderr = []\<rparr>"

definition demo_cfg :: PoolConfig where
  "demo_cfg = \<lparr>max_conns_per_upstream = 1, connect_timeout_ms = 10, idle_timeout_ms = 10, max_keepalive = 5\<rparr>"

definition demo_ep :: UpstreamEndpoint where
  "demo_ep = make_endpoint default_upstream"

definition demo_conn :: PooledConn where
  "demo_conn = \<lparr>pc_fd = 5, pc_h2 = None, pc_in_use = True, pc_request_count = 0, pc_created_at_ms = 7,
     pc_last_used_at_ms = 7\<rparr>"

lemma demo_run:
  obtains s s' where "pool_step\<^sup>*\<^sup>* (new_PoolSys demo_cfg 0 demo_ep demo_os) s" "ps_lent s = [demo_conn]"
    "pool_step s s'" "ps_dropped s' = 1" "ps_lent s' = []" "ps_pool s = ps_pool s'"
proof -
  let ?s0 = "new_PoolSys demo_cfg 0 demo_ep demo_os"
  let ?s1 = "?s0\<lparr>ps_pool := (ps_pool ?s0)\<lparr>up_total := up_total (ps_pool ?s0) + 1\<rparr>, ps_pending := Suc (ps_pending ?s0)\<rparr>"
  have 1: "pool_step ?s0 ?s1"
    by (rule reserve) (simp add: acquire_locked_def new_PoolSys_def new_UpstreamPool_def demo_cfg_def)
  obtain os where os: "new_connection demo_ep demo_cfg demo_os = Some (Inr demo_conn, os)" "script os = [reply 0]"
    by (simp add: new_connection_def connect_socket_def set_nonblocking_def set_nodelay_def now_ms_def bind_io_def try_io_def
        return_io_def call_def demo_os_def reply_def demo_conn_def valid_fd_def)
  let ?s2 = "?s1\<lparr>ps_pending := 0, ps_lent := demo_conn # ps_lent ?s1, ps_os := os\<rparr>"
  have 2: "pool_step ?s1 ?s2"
    by (rule connected) (simp_all add: new_PoolSys_def new_UpstreamPool_def os)
  have "ps_lent ?s2 = [demo_conn]" "ps_os ?s2 = os" "ps_dropped ?s2 = 0" by (simp_all add: new_PoolSys_def)
  moreover have "pool_step\<^sup>*\<^sup>* ?s0 ?s2"
    using r_into_rtranclp [of pool_step, OF 1] 2 by (rule rtranclp.rtrancl_into_rtrancl)
  ultimately obtain s2 where s2: "pool_step\<^sup>*\<^sup>* ?s0 s2" "ps_lent s2 = [demo_conn]" "ps_os s2 = os" "ps_dropped s2 = 0"
    by blast
  obtain os' where os': "destroy_conn demo_conn os = Some ((), os')"
    using os(2) by (simp add: destroy_conn_def destroy_fd_def reset_fd_def demo_conn_def close_loop.simps bind_io_def
        return_io_def call_def reply_def)
  have 3: "pool_step s2 (s2\<lparr>ps_lent := [] @ [], ps_dropped := Suc (ps_dropped s2), ps_os := os'\<rparr>)"
    by (rule dropped [where c = demo_conn]) (simp_all add: s2 os')
  show thesis using that [OF s2(1,2) 3] s2(4) by simp
qed

theorem pool_capacity_witness:
  "\<exists>s. pool_step\<^sup>*\<^sup>* (new_PoolSys demo_cfg 0 demo_ep demo_os) s \<and> length (ps_lent s) = 1 \<and>
     idle_count (ps_pool s) = 0 \<and> ps_pending s = 0"
proof -
  obtain s where s: "pool_step\<^sup>*\<^sup>* (new_PoolSys demo_cfg 0 demo_ep demo_os) s" "ps_lent s = [demo_conn]"
    by (rule demo_run)
  from pool_capacity [OF s(1)] s show ?thesis by (auto simp: demo_cfg_def)
qed


theorem pool_starves_witness:
  "\<exists>s. pool_step\<^sup>*\<^sup>* (new_PoolSys demo_cfg 0 demo_ep demo_os) s \<and> ps_lent s = [] \<and>
     acquire (\<lambda>p. p) (ps_ep s) (ps_pool s) demo_os =
       Some ((Inl (from_code Timeout ''upstream pool exhausted''), ps_ep s, ps_pool s), demo_os)"
proof -
  obtain s s' where s: "pool_step\<^sup>*\<^sup>* (new_PoolSys demo_cfg 0 demo_ep demo_os) s" "pool_step s s'"
    "ps_dropped s' = 1" "ps_lent s' = []"
    by (rule demo_run)
  then have r: "pool_step\<^sup>*\<^sup>* (new_PoolSys demo_cfg 0 demo_ep demo_os) s'" by simp
  from pool_starves [OF r _ rtranclp.rtrancl_refl] s r show ?thesis by (auto simp: demo_cfg_def)
qed

end
