(* ===== verification/Tls.thy ===== *)
theory Tls
  imports Os Config
begin

text \<open>
  TLS (\<^verbatim>\<open>include/uproxy/tls.h\<close>, \<^verbatim>\<open>src/tls.cpp\<close>).  The build with BoringSSL wraps the library, whose
  calls are made through the script like system calls; of \<^verbatim>\<open>SSL_CTX\<close> and \<^verbatim>\<open>SSL\<close> pointers only
  whether they are null matters here.  \<open>take_encrypted\<close> and \<open>tls_read\<close> return the bytes that the code
  stores in the caller's buffer of the given size.  The build without the library (\<open>fb_\<close>) passes
  bytes through two queues and refuses to serve TLS.  \<^verbatim>\<open>alpn_select_cb\<close> is pure.
\<close>

section \<open>Protocol selection\<close>

text \<open>The loop of \<^verbatim>\<open>alpn_select_cb\<close> on the list of names, each preceded by its length.\<close>

function alpn_scan :: "bytes \<Rightarrow> bool \<Rightarrow> bool \<Rightarrow> bool \<times> bool" where
  "alpn_scan [] has_h2 has_h1 = (has_h2, has_h1)"
| "alpn_scan (len # rest) has_h2 has_h1 =
     (if unat len > length rest then (has_h2, has_h1)
      else let proto = string_of_bytes (take (unat len) rest)
           in alpn_scan (drop (unat len) rest)
                (has_h2 \<or> proto = ''h2'') (has_h1 \<or> proto = ''http/1.1''))"
  by pat_completeness auto
termination
  by (relation "measure (\<lambda>(bs, _). length bs)") auto

definition alpn_select_cb :: "bytes \<Rightarrow> string option" where
  "alpn_select_cb protos =
     (case alpn_scan protos False False of
        (has_h2, has_h1) \<Rightarrow>
          if has_h2 then Some ''h2'' else if has_h1 then Some ''http/1.1'' else None)"

section \<open>The build with BoringSSL\<close>

record TLSContextImpl =
  tc_server :: bool
  tc_cfg :: TLSConfig
  tc_ssl_ctx :: bool

definition tls_context_server :: "TLSConfig \<Rightarrow> TLSContextImpl result io" where
  "tls_context_server cfg =
     (if \<not> tls_enabled cfg
      then return_io (Inr \<lparr>tc_server = True, tc_cfg = cfg, tc_ssl_ctx = False\<rparr>)
      else bind_io (call (Tls (Ssl_ctx_new True))) (\<lambda>c.
        if ret c = 0 then return_io (Inl (from_code SysError ''SSL_CTX_new failed''))
        else bind_io (call (Tls (Ssl_use_certificate (tls_cert_file cfg)))) (\<lambda>f.
          if ret f \<noteq> 1 then return_io (Inl (from_code ConfigInvalid ''Failed to load cert_file''))
          else bind_io (call (Tls (Ssl_use_key (tls_key_file cfg)))) (\<lambda>k.
            if ret k \<noteq> 1 then return_io (Inl (from_code ConfigInvalid ''Failed to load key_file''))
            else bind_io (call (Tls Ssl_check_key)) (\<lambda>m.
              if ret m \<noteq> 1
              then return_io (Inl (from_code ConfigInvalid ''Private key does not match certificate''))
              else return_io (Inr \<lparr>tc_server = True, tc_cfg = cfg, tc_ssl_ctx = True\<rparr>))))))"

definition tls_context_client :: "TLSContextImpl result io" where
  "tls_context_client =
     bind_io (call (Tls (Ssl_ctx_new False))) (\<lambda>c.
       if ret c = 0 then return_io (Inl (from_code SysError ''SSL_CTX_new failed''))
       else return_io (Inr \<lparr>tc_server = False, tc_cfg = default_tls, tc_ssl_ctx = True\<rparr>))"

datatype TLSHandshakeState = Pending | Done

record TLSConn =
  t_server :: bool
  t_ssl :: bool
  t_alpn :: string
  handshake_done :: bool

definition new_TLSConn :: "TLSContextImpl option \<Rightarrow> bool \<Rightarrow> TLSConn" where
  "new_TLSConn ctx is_server =
     \<lparr>t_server = is_server, t_ssl = (case ctx of None \<Rightarrow> False | Some c \<Rightarrow> tc_ssl_ctx c),
      t_alpn = ''http/1.1'', handshake_done = (\<not> is_server)\<rparr>"

abbreviation (input) SSL_ERROR_WANT_READ :: int where "SSL_ERROR_WANT_READ \<equiv> 2"
abbreviation (input) SSL_ERROR_WANT_WRITE :: int where "SSL_ERROR_WANT_WRITE \<equiv> 3"

definition do_handshake :: "TLSConn \<Rightarrow> (TLSHandshakeState result \<times> TLSConn) io" where
  "do_handshake t =
     (if \<not> t_ssl t then return_io (Inr Done, t\<lparr>handshake_done := True\<rparr>)
      else if handshake_done t then return_io (Inr Done, t)
      else bind_io (call (Tls Ssl_handshake)) (\<lambda>r.
        if ret r = 1
        then bind_io (call (Tls Ssl_alpn)) (\<lambda>a.
          let t1 = t\<lparr>handshake_done := True\<rparr>
          in return_io (Inr Done, if out a \<noteq> [] then t1\<lparr>t_alpn := string_of_bytes (out a)\<rparr> else t1))
        else bind_io (call (Tls (Ssl_get_error (ret r)))) (\<lambda>e.
          if ret e = SSL_ERROR_WANT_READ \<or> ret e = SSL_ERROR_WANT_WRITE then return_io (Inr Pending, t)
          else return_io (Inl (from_code TlsHandshake ''TLS handshake failed''), t))))"

definition feed_encrypted :: "bytes \<Rightarrow> TLSConn \<Rightarrow> unit result io" where
  "feed_encrypted data t =
     (if \<not> t_ssl t then return_io (Inr ())
      else if data = [] then return_io (Inr ())
      else bind_io (call (Tls (Bio_write data))) (\<lambda>r.
        if ret r \<le> 0 then return_io (Inl (from_code SysError ''BIO_write failed''))
        else return_io (Inr ())))"

definition take_encrypted :: "nat \<Rightarrow> TLSConn \<Rightarrow> bytes result io" where
  "take_encrypted n t =
     (if \<not> t_ssl t then return_io (Inr [])
      else bind_io (call (Tls (Bio_read n))) (\<lambda>r.
        if ret r > 0 then return_io (Inr (take (nat (ret r)) (out r)))
        else bind_io (call (Tls Bio_should_retry)) (\<lambda>s.
          if ret s \<noteq> 0 then return_io (Inr [])
          else return_io (Inl (from_code SysError ''BIO_read failed'')))))"

definition tls_read :: "nat \<Rightarrow> TLSConn \<Rightarrow> bytes result io" where
  "tls_read n t =
     (if \<not> t_ssl t then return_io (Inl (from_code WouldBlock ''no mock data''))
      else if \<not> handshake_done t then return_io (Inl (from_code WouldBlock ''handshake pending''))
      else bind_io (call (Tls (Ssl_read n))) (\<lambda>r.
        if ret r > 0 then return_io (Inr (take (nat (ret r)) (out r)))
        else bind_io (call (Tls (Ssl_get_error (ret r)))) (\<lambda>e.
          if ret e = SSL_ERROR_WANT_READ \<or> ret e = SSL_ERROR_WANT_WRITE
          then return_io (Inl (from_code WouldBlock ''SSL_read would block''))
          else return_io (Inl (from_code SysError ''SSL_read failed'')))))"

definition tls_write :: "bytes \<Rightarrow> TLSConn \<Rightarrow> nat result io" where
  "tls_write data t =
     (if \<not> t_ssl t then return_io (Inl (from_code WouldBlock ''no mock data''))
      else if \<not> handshake_done t then return_io (Inl (from_code WouldBlock ''handshake pending''))
      else bind_io (call (Tls (Ssl_write data))) (\<lambda>r.
        if ret r > 0 then return_io (Inr (nat (ret r)))
        else bind_io (call (Tls (Ssl_get_error (ret r)))) (\<lambda>e.
          if ret e = SSL_ERROR_WANT_READ \<or> ret e = SSL_ERROR_WANT_WRITE
          then return_io (Inl (from_code WouldBlock ''SSL_write would block''))
          else return_io (Inl (from_code SysError ''SSL_write failed'')))))"

definition want_read :: "TLSConn \<Rightarrow> bool" where
  "want_read t = True"

definition want_write :: "TLSConn \<Rightarrow> bool io" where
  "want_write t =
     (if \<not> t_ssl t then return_io False
      else bind_io (call (Tls Bio_pending)) (\<lambda>r. return_io (ret r > 0)))"

definition alpn_protocol :: "TLSConn \<Rightarrow> string" where
  "alpn_protocol t = t_alpn t"

definition tls_shutdown :: "TLSConn \<Rightarrow> (unit result \<times> TLSConn) io" where
  "tls_shutdown t =
     bind_io (if t_ssl t then bind_io (call (Tls Ssl_shutdown)) (\<lambda>_. return_io ()) else return_io ())
       (\<lambda>_. return_io (Inr (), t\<lparr>handshake_done := False\<rparr>))"

section \<open>The build without it\<close>

record FbConn =
  fb_enabled :: bool
  inbound :: bytes
  outbound :: bytes
  fb_alpn :: string
  fb_done :: bool

definition fb_context_server :: "TLSConfig \<Rightarrow> TLSConfig result" where
  "fb_context_server cfg =
     (if tls_enabled cfg
      then Inl (from_code TlsHandshake
             ''BoringSSL submodule is required for TLS; run with --no-tls in fallback builds'')
      else Inr cfg)"

text \<open>\<open>ctx\<close> is the configuration of the context, absent for a null pointer.\<close>

definition new_FbConn :: "TLSConfig option \<Rightarrow> bool \<Rightarrow> FbConn" where
  "new_FbConn ctx is_server =
     \<lparr>fb_enabled = (case ctx of None \<Rightarrow> False | Some cfg \<Rightarrow> tls_enabled cfg), inbound = [], outbound = [],
      fb_alpn = ''http/1.1'', fb_done = (\<not> is_server)\<rparr>"

definition fb_do_handshake :: "FbConn \<Rightarrow> TLSHandshakeState result \<times> FbConn" where
  "fb_do_handshake t =
     (if fb_enabled t then (Inl (from_code TlsHandshake ''TLS unavailable in fallback build''), t)
      else (Inr Done, t\<lparr>fb_done := True\<rparr>))"

definition fb_feed_encrypted :: "bytes \<Rightarrow> FbConn \<Rightarrow> unit result \<times> FbConn" where
  "fb_feed_encrypted data t = (Inr (), t\<lparr>inbound := inbound t @ data\<rparr>)"

definition fb_take_encrypted :: "nat \<Rightarrow> FbConn \<Rightarrow> bytes result \<times> FbConn" where
  "fb_take_encrypted n t = (Inr (take n (outbound t)), t\<lparr>outbound := drop n (outbound t)\<rparr>)"

definition fb_read :: "nat \<Rightarrow> FbConn \<Rightarrow> bytes result \<times> FbConn" where
  "fb_read n t =
     (if \<not> fb_done t then (Inl (from_code WouldBlock ''handshake pending''), t)
      else if min n (length (inbound t)) = 0 then (Inl (from_code WouldBlock ''no TLS data''), t)
      else (Inr (take n (inbound t)), t\<lparr>inbound := drop n (inbound t)\<rparr>))"

definition fb_write :: "bytes \<Rightarrow> FbConn \<Rightarrow> nat result \<times> FbConn" where
  "fb_write data t =
     (if \<not> fb_done t then (Inl (from_code WouldBlock ''handshake pending''), t)
      else (Inr (length data), t\<lparr>outbound := outbound t @ data\<rparr>))"

definition fb_want_read :: "FbConn \<Rightarrow> bool" where
  "fb_want_read t \<longleftrightarrow> inbound t = []"

definition fb_want_write :: "FbConn \<Rightarrow> bool" where
  "fb_want_write t \<longleftrightarrow> outbound t \<noteq> []"

definition fb_shutdown :: "FbConn \<Rightarrow> unit result \<times> FbConn" where
  "fb_shutdown t = (Inr (), t\<lparr>fb_done := False\<rparr>)"

section \<open>Lemmas\<close>

definition alpn_wire :: "string list \<Rightarrow> bytes" where
  "alpn_wire ps = concat (map (\<lambda>p. word_of_nat (length p) # bytes_of_string p) ps)"

lemma alpn_scan_wire:
  assumes "list_all (\<lambda>p. length p < 256) ps"
  shows "alpn_scan (alpn_wire ps) a b = (a \<or> ''h2'' \<in> set ps, b \<or> ''http/1.1'' \<in> set ps)"
  using assms
proof (induction ps arbitrary: a b)
  case (Cons p ps)
  have "unat (word_of_nat (length p) :: byte) = length p"
    using Cons.prems by (simp add: unat_of_nat)
  then show ?case using Cons by (auto simp: alpn_wire_def)
qed (simp add: alpn_wire_def)

lemma moves_tls:
  "moves old (\<lambda>_. old) (do_handshake t)" "moves old (\<lambda>_. old) (feed_encrypted data t)"
  "moves old (\<lambda>_. old) (take_encrypted n t)" "moves old (\<lambda>_. old) (tls_read n t)" "moves old (\<lambda>_. old) (tls_write data t)"
  "moves old (\<lambda>_. old) (tls_context_server cfg)"
  unfolding do_handshake_def feed_encrypted_def take_encrypted_def tls_read_def tls_write_def tls_context_server_def Let_def
  by (intro moves_call_bind moves_if moves_return; simp add: neutral_def)+

lemma tls_read_consumes: "tls_read n t os = Some (Inr bs, os') \<Longrightarrow> length (script os') < length (script os)"
  by (auto simp: tls_read_def io_elims split: if_splits)

lemma take_encrypted_consumes:
  "take_encrypted n t os = Some (Inr bs, os') \<Longrightarrow> bs \<noteq> [] \<Longrightarrow> length (script os') < length (script os)"
  by (auto simp: take_encrypted_def io_elims split: if_splits)

lemma tls_write_consumes: "tls_write data t os = Some (Inr n, os') \<Longrightarrow> length (script os') < length (script os)"
  by (auto simp: tls_write_def io_elims split: if_splits)

section \<open>Property\<close>



end
