(* ===== verification/Http1_Properties.thy ===== *)
theory Http1_Properties
  imports Http1
begin

text \<open>
  Correctness of the HTTP/1.1 parser and serialiser: what an accepted message is guaranteed to
  look like, that acceptance does not depend on the bytes after the header block, that printing
  and parsing are inverse on requests, responses and chunk sizes, and what happens to a message
  that arrives in pieces.
\<close>

section \<open>Accepted headers are well formed\<close>

definition header_wf :: "HttpHeader \<Rightarrow> bool" where
  "header_wf h \<longleftrightarrow>
     h_name h \<noteq> [] \<and> length (h_name h) \<le> HTTP1_MAX_HEADER_NAME \<and> list_all is_token_char (h_name h) \<and>
     length (h_value h) \<le> HTTP1_MAX_HEADER_VALUE \<and> valid_header_value (h_value h) \<and>
     trim_ows (h_value h) = h_value h"

definition is_cl :: "HttpHeader \<Rightarrow> bool" where
  "is_cl h \<longleftrightarrow> lower (h_name h) = ''content-length''"

definition is_chunked :: "HttpHeader \<Rightarrow> bool" where
  "is_chunked h \<longleftrightarrow> lower (h_name h) = ''transfer-encoding'' \<and> contains_str ''chunked'' (lower (h_value h))"

definition is_close :: "HttpHeader \<Rightarrow> bool" where
  "is_close h \<longleftrightarrow> lower (h_name h) = ''connection'' \<and> contains_str ''close'' (lower (h_value h))"

text \<open>\<open>acc_sound r ka acc\<close>: the accumulator is what its header list says, having started with
  keep-alive \<open>ka\<close>.\<close>

definition acc_sound :: "bool \<Rightarrow> bool \<Rightarrow> msg_acc \<Rightarrow> bool" where
  "acc_sound r ka acc \<longleftrightarrow>
     (\<forall>h\<in>set (a_headers acc). header_wf h) \<and>
     length (a_headers acc) \<le> HTTP1_MAX_HEADER_COUNT \<and>
     (a_saw_cl acc \<longleftrightarrow> (\<exists>h\<in>set (a_headers acc). is_cl h)) \<and>
     (\<forall>h\<in>set (a_headers acc). is_cl h \<longrightarrow>
        from_chars_all 10 (2 ^ 64) (h_value h) = Some (unat (a_cl acc))) \<and>
     (\<not> a_saw_cl acc \<longrightarrow> a_cl acc = 0) \<and>
     (a_chunked acc \<longleftrightarrow> (\<exists>h\<in>set (a_headers acc). is_chunked h)) \<and>
     (a_keep_alive acc \<longleftrightarrow> ka \<and> \<not> (r \<and> (\<exists>h\<in>set (a_headers acc). is_close h)))"

lemma lex_header_wf: "lex_header l = Some h \<Longrightarrow> header_wf h"
  by (auto simp: lex_header_def header_wf_def Let_def trim_ows_def split: if_splits option.splits
      dest: find_char_Some)

lemma unat_word_of_nat_u64: "n < 2 ^ 64 \<Longrightarrow> unat (word_of_nat n :: u64) = n"
  by (simp add: unat_of_nat)

lemma unat_u64: "unat (n :: u64) < 2 ^ 64"
  using unsigned_less [of n] by simp

lemma absorb_header_sound:
  assumes "absorb_header r h acc = Some acc'" "header_wf h" "acc_sound r ka acc"
  shows "acc_sound r ka acc' \<and> a_headers acc' = a_headers acc @ [h]"
proof -
  have len: "length (a_headers acc) < HTTP1_MAX_HEADER_COUNT"
    using assms(1) by (auto simp: absorb_header_def split: if_splits)
  consider (cl) n where "is_cl h" "from_chars_all 10 (2 ^ 64) (h_value h) = Some n"
      "a_saw_cl acc \<Longrightarrow> a_cl acc = word_of_nat n"
      "acc' = push_header h (acc\<lparr>a_saw_cl := True, a_cl := word_of_nat n\<rparr>)"
    | (te) "\<not> is_cl h" "is_chunked h" "acc' = push_header h (acc\<lparr>a_chunked := True\<rparr>)"
    | (cn) "\<not> is_cl h" "\<not> is_chunked h" "is_close h" "r" "acc' = push_header h (acc\<lparr>a_keep_alive := False\<rparr>)"
    | (other) "\<not> is_cl h" "\<not> is_chunked h" "\<not> (is_close h \<and> r)" "acc' = push_header h acc"
    using assms(1)
    by (auto simp: absorb_header_def is_cl_def is_chunked_def is_close_def Let_def
        split: if_splits option.splits)
  then show ?thesis
  proof cases
    case (cl n)
    have "n < 2 ^ 64" using cl(2) by (rule from_chars_all_bound)
    then have n: "unat (word_of_nat n :: u64) = n" by (rule unat_word_of_nat_u64)
    have "\<not> is_chunked h" "\<not> is_close h" using cl(1) by (auto simp: is_cl_def is_chunked_def is_close_def)
    with cl n assms(2,3) len show ?thesis
      by (auto simp: acc_sound_def push_header_def)
  next
    case te
    have "\<not> is_close h" using te by (auto simp: is_chunked_def is_close_def)
    with te assms(2,3) len show ?thesis by (auto simp: acc_sound_def push_header_def)
  next
    case cn
    with assms(2,3) len show ?thesis by (auto simp: acc_sound_def push_header_def)
  next
    case other
    with assms(2,3) len show ?thesis by (auto simp: acc_sound_def push_header_def)
  qed
qed

lemma header_loop_sound:
  "header_loop r rest acc = (ok, acc') \<Longrightarrow> acc_sound r ka acc \<Longrightarrow> acc_sound r ka acc'"
proof (induction r rest acc rule: header_loop.induct)
  case (1 r rest acc)
  show ?case
  proof (cases "rest = [] \<or> find_str CRLF rest = None \<or> find_str CRLF rest = Some 0")
    case True
    with "1.prems" show ?thesis
      by (subst (asm) header_loop.simps) (auto split: if_splits option.splits)
  next
    case False
    then obtain n where n: "find_str CRLF rest = Some n" "n \<noteq> 0" "rest \<noteq> []" by auto
    show ?thesis
    proof (cases "header_line r (take n rest) acc")
      case None
      with n "1.prems" show ?thesis by (subst (asm) header_loop.simps) auto
    next
      case (Some a)
      then obtain h where "lex_header (take n rest) = Some h" "absorb_header r h acc = Some a"
        by (auto simp: header_line_def split: option.splits)
      with "1.prems"(2) have "acc_sound r ka a"
        using lex_header_wf absorb_header_sound by blast
      moreover have "header_loop r (drop (n + 2) rest) a = (ok, acc')"
        using "1.prems"(1) n Some by (subst (asm) header_loop.simps) auto
      ultimately show ?thesis using "1.IH" n Some by blast
    qed
  qed
qed

lemma find_head_Inr:
  assumes "find_head bs = Inr (e, block, le)"
  shows "e + 4 \<le> length bs" "e + 4 \<le> HTTP1_MAX_HEADER_BYTES" "block = take (e + 2) bs"
    "find_str CRLF block = Some le" "LF \<notin> set (take le block)" "take 4 (drop e bs) = CRLF2"
    "find_str CRLF2 bs = Some e"
proof -
  from assms have f: "find_str CRLF2 bs = Some e" "e + 4 \<le> HTTP1_MAX_HEADER_BYTES"
    "block = take (e + 2) bs" "find_str CRLF block = Some le" "\<not> bare_lf block \<or> find_str [LF] block = None"
    by (auto simp: find_head_def Let_def split: option.splits if_splits)
  then show "e + 4 \<le> HTTP1_MAX_HEADER_BYTES" "block = take (e + 2) bs" "find_str CRLF block = Some le"
    "find_str CRLF2 bs = Some e" by auto
  from find_str_Some [OF f(1)] show "e + 4 \<le> length bs" "take 4 (drop e bs) = CRLF2"
    by (auto simp: eval_nat_numeral)
  show "LF \<notin> set (take le block)"
  proof
    assume "LF \<in> set (take le block)"
    then obtain i where i: "i < le" "i < length block" "block ! i = LF"
      by (auto simp: in_set_conv_nth)
    then have "find_str [LF] block \<noteq> None" by (metis find_char_None nth_mem)
    with f(5) i have c: "i \<noteq> 0" "block ! (i - 1) = CR" by (auto simp: bare_lf_iff)
    have "take 2 (drop (i - 1) block) = [block ! (i - 1), block ! i]"
      using i c by (cases i) (auto simp: take_Suc_conv_app_nth numeral_2_eq_2 Cons_nth_drop_Suc [symmetric])
    then have "take (length CRLF) (drop (i - 1) block) = CRLF"
      using i c by (simp add: numeral_2_eq_2)
    moreover have "i - 1 < le" using i by simp
    ultimately show False using find_str_Some [OF f(4)] by blast
  qed
qed

section \<open>What an accepted request looks like\<close>

definition request_ok :: "HttpRequest \<Rightarrow> bool" where
  "request_ok req \<longleftrightarrow>
     req_method req \<noteq> [] \<and> length (req_method req) \<le> HTTP1_MAX_METHOD_LEN \<and>
     list_all is_token_char (req_method req) \<and>
     req_target req \<noteq> [] \<and> length (req_target req) \<le> HTTP1_MAX_TARGET_LEN \<and>
     SP \<notin> set (req_target req) \<and> LF \<notin> set (req_target req) \<and>
     req_version req \<in> {''HTTP/1.1'', ''HTTP/1.0''} \<and>
     length (req_headers req) \<le> HTTP1_MAX_HEADER_COUNT \<and>
     (\<forall>h\<in>set (req_headers req). header_wf h) \<and>
     (\<forall>h\<in>set (req_headers req). is_cl h \<longrightarrow>
        from_chars_all 10 (2 ^ 64) (h_value h) = Some (unat (req_content_length req))) \<and>
     ((\<forall>h\<in>set (req_headers req). \<not> is_cl h) \<longrightarrow> req_content_length req = 0) \<and>
     (req_chunked req \<longleftrightarrow> (\<exists>h\<in>set (req_headers req). is_chunked h)) \<and>
     \<not> (req_chunked req \<and> (\<exists>h\<in>set (req_headers req). is_cl h)) \<and>
     (req_keep_alive req \<longleftrightarrow>
        req_version req = ''HTTP/1.1'' \<and> (\<forall>h\<in>set (req_headers req). \<not> is_close h)) \<and>
     4 \<le> req_header_bytes req \<and> req_header_bytes req \<le> HTTP1_MAX_HEADER_BYTES"

lemma request_line_Some:
  assumes "request_line start = Some (m, t, v)"
  shows "m \<noteq> []" "length m \<le> HTTP1_MAX_METHOD_LEN" "list_all is_token_char m"
    "t \<noteq> []" "length t \<le> HTTP1_MAX_TARGET_LEN" "SP \<notin> set t" "set t \<subseteq> set start"
    "v \<in> {''HTTP/1.1'', ''HTTP/1.0''}"
proof -
  from assms obtain sp1 sp2 where sp: "find_str [SP] start = Some sp1" "find_from [SP] (sp1 + 1) start = Some sp2"
    and t: "t = take (sp2 - sp1 - 1) (drop (sp1 + 1) start)"
    and "m \<noteq> [] \<and> length m \<le> HTTP1_MAX_METHOD_LEN \<and> list_all is_token_char m \<and>
      t \<noteq> [] \<and> length t \<le> HTTP1_MAX_TARGET_LEN \<and> v \<in> {''HTTP/1.1'', ''HTTP/1.0''}"
    by (auto simp: request_line_def Let_def split: option.splits if_splits)
  then show "m \<noteq> []" "length m \<le> HTTP1_MAX_METHOD_LEN" "list_all is_token_char m"
    "t \<noteq> []" "length t \<le> HTTP1_MAX_TARGET_LEN" "v \<in> {''HTTP/1.1'', ''HTTP/1.0''}" by auto
  show "set t \<subseteq> set start" unfolding t by (meson order_trans set_drop_subset set_take_subset)
  obtain k where k: "find_str [SP] (drop (sp1 + 1) start) = Some k" "sp2 = sp1 + 1 + k"
    using sp(2) by (auto simp: find_from_def split: if_splits)
  have "t = take k (drop (sp1 + 1) start)" unfolding t k(2) by simp
  then show "SP \<notin> set t" using find_char_Some [OF k(1)] by simp
qed

lemma parse_request_bytes_Complete:
  assumes "parse_request_bytes bs req0 = (Complete, req)"
  obtains e block le m t v acc where
    "find_head bs = Inr (e, block, le)" "request_line (take le block) = Some (m, t, v)"
    "acc_sound True (v = ''HTTP/1.1'') acc" "\<not> (a_chunked acc \<and> a_saw_cl acc)"
    "req = \<lparr>req_method = m, req_target = t, req_version = v, req_headers = a_headers acc,
      req_keep_alive = a_keep_alive acc, req_content_length = a_cl acc, req_chunked = a_chunked acc,
      req_header_bytes = e + 4\<rparr>"
proof -
  have "find_head bs \<noteq> Inl Complete"
    by (auto simp: find_head_def Let_def split: option.splits if_splits)
  with assms obtain e block le where h: "find_head bs = Inr (e, block, le)"
    by (auto simp: parse_request_bytes_def split: sum.splits)
  with assms obtain m t v where l: "request_line (take le block) = Some (m, t, v)"
    by (auto simp: parse_request_bytes_def split: option.splits)
  let ?a = "\<lparr>a_headers = [], a_chunked = False, a_keep_alive = (v = ''HTTP/1.1''), a_saw_cl = False, a_cl = 0\<rparr>"
  obtain ok acc where a: "header_loop True (drop (le + 2) block) ?a = (ok, acc)" by (cases "header_loop True (drop (le + 2) block) ?a") auto
  have "acc_sound True (v = ''HTTP/1.1'') ?a" by (simp add: acc_sound_def)
  with a have "acc_sound True (v = ''HTTP/1.1'') acc" by (rule header_loop_sound)
  moreover have "\<not> (a_chunked acc \<and> a_saw_cl acc)" "req = \<lparr>req_method = m, req_target = t, req_version = v,
      req_headers = a_headers acc, req_keep_alive = a_keep_alive acc, req_content_length = a_cl acc,
      req_chunked = a_chunked acc, req_header_bytes = e + 4\<rparr>"
    using assms by (auto simp: parse_request_bytes_def h l a Let_def simp del: add_2_eq_Suc' split: if_splits)
  ultimately show thesis using that h l by blast
qed

lemma parse_request_bytes_ok:
  assumes "parse_request_bytes bs req0 = (Complete, req)"
  shows "request_ok req \<and> req_header_bytes req \<le> length bs"
proof -
  from assms obtain e block le m t v acc where
    h: "find_head bs = Inr (e, block, le)" and l: "request_line (take le block) = Some (m, t, v)"
    and a: "acc_sound True (v = ''HTTP/1.1'') acc" "\<not> (a_chunked acc \<and> a_saw_cl acc)"
    and r: "req = \<lparr>req_method = m, req_target = t, req_version = v, req_headers = a_headers acc,
      req_keep_alive = a_keep_alive acc, req_content_length = a_cl acc, req_chunked = a_chunked acc,
      req_header_bytes = e + 4\<rparr>"
    by (rule parse_request_bytes_Complete)
  have "LF \<notin> set t" using find_head_Inr(5) [OF h] request_line_Some(7) [OF l] by blast
  with request_line_Some [OF l] find_head_Inr(1,2) [OF h] a show ?thesis
    unfolding request_ok_def r by (simp add: acc_sound_def)
qed

section \<open>Locality: the outcome depends on the consumed bytes only\<close>

lemma find_head_local:
  assumes "find_head bs = Inr (e, block, le)" "take (e + 4) bs' = take (e + 4) bs"
  shows "find_head bs' = Inr (e, block, le)"
proof -
  have f: "find_str CRLF2 bs = Some e" using find_head_Inr(7) [OF assms(1)] .
  note s = find_str_Some [OF f]
  have len: "e + 4 \<le> length bs'"
    using arg_cong [OF assms(2), of length] find_head_Inr(1) [OF assms(1)] by (simp add: min_def split: if_splits)
  have "find_str CRLF2 (take (e + 4) bs) = Some e"
  proof (cases "find_str CRLF2 (take (e + 4) bs)")
    case None
    have "take (length CRLF2) (drop e (take (e + 4) bs)) = CRLF2"
      using s by (simp add: drop_take)
    moreover have "e \<le> length (take (e + 4) bs)" using find_head_Inr(1) [OF assms(1)] by simp
    ultimately show ?thesis using find_str_None [THEN iffD1, OF None] by blast
  next
    case (Some j)
    then have "find_str CRLF2 (take (e + 4) bs @ drop (e + 4) bs) = Some j"
      by (rule find_str_append) simp
    with f Some show ?thesis by simp
  qed
  then have "find_str CRLF2 (take (e + 4) bs' @ drop (e + 4) bs') = Some e"
    unfolding assms(2) by (rule find_str_append) simp
  then have f': "find_str CRLF2 bs' = Some e" by simp
  have "take (e + 2) (take (e + 4) bs') = take (e + 2) (take (e + 4) bs)" by (simp only: assms(2))
  then have "take (e + 2) bs' = take (e + 2) bs" by (simp add: min_def)
  then have "find_head bs' = find_head bs" by (simp only: find_head_def f f' option.case)
  with assms(1) show ?thesis by simp
qed

lemma parse_request_bytes_local:
  assumes "parse_request_bytes bs req0 = (Complete, req)"
    and "take (req_header_bytes req) bs' = take (req_header_bytes req) bs"
  shows "parse_request_bytes bs' req0' = (Complete, req)"
proof -
  from assms(1) obtain e block le m t v acc where h: "find_head bs = Inr (e, block, le)"
    and l: "request_line (take le block) = Some (m, t, v)" and r: "req_header_bytes req = e + 4"
    by (rule parse_request_bytes_Complete) auto
  have "find_head bs' = Inr (e, block, le)" using find_head_local [OF h] assms(2) r by simp
  with h l assms(1) show ?thesis by (simp add: parse_request_bytes_def)
qed

lemma parse_request_bytes_prefix:
  assumes "parse_request_bytes bs req0 = (Complete, req)" "k < req_header_bytes req"
  shows "fst (parse_request_bytes (take k bs) req0') = (if LF \<in> set (take k bs) then PError else Incomplete)"
proof -
  from assms(1) obtain e block le m t v acc where h: "find_head bs = Inr (e, block, le)"
    and r: "req_header_bytes req = e + 4"
    by (rule parse_request_bytes_Complete) auto
  have k: "k < e + 4" using assms(2) r by simp
  have "find_str CRLF2 (take k bs) = None"
  proof (rule ccontr)
    assume "find_str CRLF2 (take k bs) \<noteq> None"
    then obtain j where j: "find_str CRLF2 (take k bs) = Some j" by auto
    then have "find_str CRLF2 (take k bs @ drop k bs) = Some j" by (rule find_str_append) simp
    then have "j = e" using find_head_Inr(7) [OF h] by simp
    with find_str_Some [OF j] k show False by simp
  qed
  moreover have "length (take k bs) \<le> HTTP1_MAX_HEADER_BYTES" using k find_head_Inr(2) [OF h] by simp
  ultimately show ?thesis
    by (auto simp: parse_request_bytes_def find_head_def find_char_None min_le_iff_disj)
qed

section \<open>Printing and parsing back\<close>

definition htext :: "HttpHeader \<Rightarrow> string" where
  "htext h = h_name h @ '': '' @ h_value h"

definition hop :: "string list \<Rightarrow> HttpHeader \<Rightarrow> bool" where
  "hop names h \<longleftrightarrow> lower (h_name h) \<in> set names"

definition via_header :: HttpHeader where
  "via_header = \<lparr>h_name = ''Via'', h_value = ''1.1 uproxy''\<rparr>"

definition cl_header :: "u64 \<Rightarrow> HttpHeader" where
  "cl_header n = \<lparr>h_name = ''Content-Length'', h_value = show_nat 10 (unat n)\<rparr>"

definition host_header :: "string \<Rightarrow> HttpHeader" where
  "host_header host = \<lparr>h_name = ''Host'', h_value = host\<rparr>"

text \<open>The header list the upstream receives.\<close>

definition forwarded_headers :: "HttpRequest \<Rightarrow> string \<Rightarrow> HttpHeader list" where
  "forwarded_headers req host =
     host_header host # filter (\<lambda>h. \<not> hop request_hop_headers h) (req_headers req) @
     (if req_content_length req > 0 \<and> \<not> (\<exists>h\<in>set (req_headers req). is_cl h)
      then [cl_header (req_content_length req)] else []) @ [via_header]"

lemma token_char_props:
  "\<not> is_token_char SP" "\<not> is_token_char TAB" "\<not> is_token_char CR" "\<not> is_token_char LF"
  "\<not> is_token_char (CHR '':'')"
  by (simp_all add: is_token_char_def token_extra_def char_simps)

lemma token_not: "list_all is_token_char s \<Longrightarrow> \<not> is_token_char c \<Longrightarrow> c \<notin> set s"
  by (auto simp: list_all_iff)

lemma alnum_token: "isalnum_c c \<Longrightarrow> is_token_char c"
  by (simp add: is_token_char_def)

lemma lex_header_htext: "header_wf h \<Longrightarrow> lex_header (htext h) = Some h"
proof -
  assume wf: "header_wf h"
  then have ne: "h_name h \<noteq> []" and tok: "list_all is_token_char (h_name h)" by (auto simp: header_wf_def)
  have hd: "hd (htext h) \<noteq> SP" "hd (htext h) \<noteq> TAB"
    using ne tok token_char_props by (cases "h_name h"; auto simp: htext_def)+
  have colon: "find_str '':'' (htext h) = Some (length (h_name h))"
    using token_not [OF tok token_char_props(5)] find_char_split [of "CHR '':''" "h_name h"]
    by (simp add: htext_def)
  have "htext h ! (length (h_name h) - 1) = last (h_name h)"
    using ne by (simp add: htext_def nth_append last_conv_nth)
  moreover have "is_token_char (last (h_name h))" using ne tok by (simp add: list_all_iff)
  ultimately have pre: "htext h ! (length (h_name h) - 1) \<noteq> SP" "htext h ! (length (h_name h) - 1) \<noteq> TAB"
    using token_char_props by metis+
  have "trim_ows (drop (length (h_name h) + 1) (htext h)) = h_value h"
    using wf by (simp add: htext_def trim_ows_def header_wf_def strip_Cons is_ows_def)
  moreover have "take (length (h_name h)) (htext h) = h_name h" by (simp add: htext_def)
  ultimately show ?thesis
    using wf hd colon pre ne by (simp add: lex_header_def header_wf_def Let_def del: One_nat_def)
qed

lemma htext_line: "header_wf h \<Longrightarrow> line_ok (htext h)"
  using token_not [OF _ token_char_props(4), of "h_name h"]
  by (auto simp: line_ok_def htext_def header_wf_def valid_header_value_def valid_value_char_def list_all_iff)

lemma header_lines_htext:
  assumes "\<forall>h\<in>set hs. header_wf h \<and> \<not> is_chunked h \<and> \<not> (r \<and> is_close h)"
    and "length (a_headers acc) + length hs \<le> HTTP1_MAX_HEADER_COUNT"
    and "\<forall>h\<in>set hs. is_cl h \<longrightarrow> from_chars_all 10 (2 ^ 64) (h_value h) = Some (unat c)"
    and "a_saw_cl acc \<Longrightarrow> a_cl acc = c"
  shows "header_lines r (map htext hs) acc =
    (True, acc\<lparr>a_headers := a_headers acc @ hs, a_saw_cl := a_saw_cl acc \<or> (\<exists>h\<in>set hs. is_cl h),
       a_cl := (if \<exists>h\<in>set hs. is_cl h then c else a_cl acc)\<rparr>)"
  using assms
proof (induction hs arbitrary: acc)
  case Nil
  then show ?case by simp
next
  case (Cons h hs)
  let ?acc = "push_header h (if is_cl h then acc\<lparr>a_saw_cl := True, a_cl := c\<rparr> else acc)"
  have "absorb_header r h acc = Some ?acc"
    using Cons.prems by (auto simp: absorb_header_def is_cl_def is_chunked_def is_close_def Let_def)
  then have "header_lines r (map htext (h # hs)) acc = header_lines r (map htext hs) ?acc"
    using Cons.prems(1) by (simp add: header_line_def lex_header_htext)
  also have "\<dots> = (True, ?acc\<lparr>a_headers := a_headers ?acc @ hs, a_saw_cl := a_saw_cl ?acc \<or> (\<exists>h\<in>set hs. is_cl h),
       a_cl := (if \<exists>h\<in>set hs. is_cl h then c else a_cl ?acc)\<rparr>)"
    by (rule Cons.IH) (use Cons.prems in \<open>auto simp: push_header_def split: if_splits\<close>)
  finally show ?case using Cons.prems by (auto simp: push_header_def)
qed

lemma request_header_text_eq:
  "\<forall>h\<in>set hs. valid_header_value (h_value h) \<Longrightarrow>
   request_header_text hs saw =
     Inr (unlines (map htext (filter (\<lambda>h. \<not> hop request_hop_headers h) hs)), saw \<or> (\<exists>h\<in>set hs. is_cl h))"
  by (induction hs arbitrary: saw)
    (auto simp: Let_def hop_def is_cl_def htext_def request_hop_headers_def map_r_def)

lemma request_line_text:
  assumes "m \<noteq> []" "length m \<le> HTTP1_MAX_METHOD_LEN" "list_all is_token_char m"
    "t \<noteq> []" "length t \<le> HTTP1_MAX_TARGET_LEN" "SP \<notin> set t" "v \<in> {''HTTP/1.1'', ''HTTP/1.0''}"
  shows "request_line (m @ SP # t @ SP # v) = Some (m, t, v)"
proof -
  let ?s = "m @ SP # t @ SP # v"
  have 1: "find_str [SP] ?s = Some (length m)"
    using token_not [OF assms(3) token_char_props(1)] by (rule find_char_split)
  have 2: "find_from [SP] (length m + 1) ?s = Some (length m + 1 + length t)"
    using find_char_split [OF assms(6), of v] by (simp add: find_from_def)
  have "SP \<notin> set v" using assms(7) by auto
  then have 3: "find_from [SP] (length m + 1 + length t + 1) ?s = None"
    by (simp add: find_from_def find_char_None)
  show ?thesis
    unfolding request_line_def 1 option.case 2 Let_def 3 using assms by auto
qed

lemma alnum_value_char: "isalnum_c c \<Longrightarrow> valid_value_char c \<and> \<not> is_ows c"
  by (auto simp: valid_value_char_def is_ows_def char_simps)

lemma header_wf_via: "header_wf via_header"
  by (simp add: header_wf_def via_header_def http1_limits is_token_char_def valid_header_value_def
      valid_value_char_def trim_ows_def strip_id is_ows_def char_simps)

lemma header_wf_cl: "header_wf (cl_header n)"
proof -
  have "length (show_nat 10 (unat n)) \<le> 20"
    by (rule show_nat_length) (use unat_u64 [of n] in simp_all)
  moreover have al: "isalnum_c c" if "c \<in> set (show_nat 10 (unat n))" for c
    using show_nat_alnum [OF _ _ that] by simp
  have "valid_header_value (show_nat 10 (unat n))"
    using al alnum_value_char by (simp add: valid_header_value_def list_all_iff)
  moreover have "\<not> is_ows c" if "c \<in> set (show_nat 10 (unat n))" for c
    using al [OF that] alnum_value_char by blast
  then have "trim_ows (show_nat 10 (unat n)) = show_nat 10 (unat n)"
    unfolding trim_ows_def by (intro strip_id) simp
  ultimately show ?thesis
    by (simp add: header_wf_def cl_header_def http1_limits is_token_char_def token_extra_def char_simps)
qed

lemma own_headers_plain:
  "\<not> is_chunked via_header" "\<not> is_close via_header" "\<not> is_cl via_header"
  "\<not> is_chunked (cl_header n)" "\<not> is_close (cl_header n)" "is_cl (cl_header n)"
  "\<not> is_chunked (host_header host)" "\<not> is_close (host_header host)" "\<not> is_cl (host_header host)"
  by (simp_all add: is_chunked_def is_close_def is_cl_def via_header_def cl_header_def host_header_def
      lower_def char_simps)

lemma cl_header_value: "from_chars_all 10 (2 ^ 64) (h_value (cl_header n)) = Some (unat n)"
  using from_chars_all_show_nat [OF _ _ unat_u64, of 10 n] by (simp add: cl_header_def)

lemma kept_plain: "\<not> hop request_hop_headers h \<Longrightarrow> \<not> is_chunked h \<and> \<not> is_close h"
  by (auto simp: hop_def is_chunked_def is_close_def request_hop_headers_def)

lemma cl_kept: "is_cl h \<Longrightarrow> \<not> hop request_hop_headers h"
  by (auto simp: hop_def is_cl_def request_hop_headers_def)

lemma drop_line: "drop (length l + 2) (unlines (l # ls)) = unlines ls"
  by simp

definition request_lines :: "HttpRequest \<Rightarrow> string \<Rightarrow> string list" where
  "request_lines req host =
     (req_method req @ SP # req_target req @ SP # req_version req) #
     map htext (forwarded_headers req host)"

lemma request_text_lines:
  "\<forall>h\<in>set (req_headers req). valid_header_value (h_value h) \<Longrightarrow>
   request_text req host = Inr (unlines (request_lines req host) @ CRLF)"
  by (auto simp: request_text_def request_header_text_eq map_r_def request_lines_def
      forwarded_headers_def unlines_append htext_def host_header_def cl_header_def via_header_def)

lemma forwarded_headers_ok:
  assumes "request_ok req" "header_wf (host_header host)"
  shows "\<forall>h\<in>set (forwarded_headers req host). header_wf h \<and> \<not> is_chunked h \<and> \<not> is_close h"
    "\<forall>h\<in>set (forwarded_headers req host). is_cl h \<longrightarrow>
       from_chars_all 10 (2 ^ 64) (h_value h) = Some (unat (req_content_length req))"
    "(if \<exists>h\<in>set (forwarded_headers req host). is_cl h then req_content_length req else 0) =
       req_content_length req"
proof -
  let ?own = "if req_content_length req > 0 \<and> \<not> (\<exists>h\<in>set (req_headers req). is_cl h)
    then {cl_header (req_content_length req)} else {}"
  have s: "set (forwarded_headers req host) =
    {host_header host, via_header} \<union> {h \<in> set (req_headers req). \<not> hop request_hop_headers h} \<union> ?own"
    by (auto simp: forwarded_headers_def)
  have wf: "\<forall>h\<in>set (req_headers req). header_wf h"
    and cl: "\<forall>h\<in>set (req_headers req). is_cl h \<longrightarrow>
        from_chars_all 10 (2 ^ 64) (h_value h) = Some (unat (req_content_length req))"
    and none: "(\<forall>h\<in>set (req_headers req). \<not> is_cl h) \<Longrightarrow> req_content_length req = 0"
    using assms(1) by (auto simp: request_ok_def)
  show "\<forall>h\<in>set (forwarded_headers req host). header_wf h \<and> \<not> is_chunked h \<and> \<not> is_close h"
    unfolding s using wf assms(2) kept_plain header_wf_via header_wf_cl own_headers_plain by auto
  show "\<forall>h\<in>set (forwarded_headers req host). is_cl h \<longrightarrow>
       from_chars_all 10 (2 ^ 64) (h_value h) = Some (unat (req_content_length req))"
    unfolding s using cl own_headers_plain cl_header_value by auto
  have "req_content_length req = 0" if "\<not> (\<exists>h\<in>set (forwarded_headers req host). is_cl h)"
    using that none cl_kept unfolding s by blast
  then show "(if \<exists>h\<in>set (forwarded_headers req host). is_cl h then req_content_length req else 0) =
       req_content_length req" by simp
qed

lemma parse_request_lines:
  assumes ok: "request_ok req" and host: "header_wf (host_header host)"
    and count: "length (forwarded_headers req host) \<le> HTTP1_MAX_HEADER_COUNT"
    and size: "length (unlines (request_lines req host)) + 2 \<le> HTTP1_MAX_HEADER_BYTES"
  shows "parse_request_bytes (unlines (request_lines req host) @ CRLF @ rest) req0 =
    (Complete, req\<lparr>req_headers := forwarded_headers req host, req_chunked := False,
       req_keep_alive := (req_version req = ''HTTP/1.1''),
       req_header_bytes := length (unlines (request_lines req host)) + 2\<rparr>)"
proof -
  let ?start = "req_method req @ SP # req_target req @ SP # req_version req"
  let ?hs = "forwarded_headers req host"
  note f = forwarded_headers_ok [OF ok host]
  have r: "req_method req \<noteq> []" "length (req_method req) \<le> HTTP1_MAX_METHOD_LEN"
    "list_all is_token_char (req_method req)" "req_target req \<noteq> []"
    "length (req_target req) \<le> HTTP1_MAX_TARGET_LEN" "SP \<notin> set (req_target req)"
    "req_version req \<in> {''HTTP/1.1'', ''HTTP/1.0''}" "LF \<notin> set (req_target req)"
    using ok by (auto simp: request_ok_def)
  have start: "line_ok ?start"
    using r token_not [OF r(3) token_char_props(4)] by (auto simp: line_ok_def)
  have hl: "\<forall>l\<in>set (map htext ?hs). line_ok l" using f(1) htext_line by auto
  have head: "find_head (unlines (request_lines req host) @ CRLF @ rest) =
      Inr (length (unlines (request_lines req host)) - 2, unlines (request_lines req host), length ?start)"
    using find_head_lines [of ?start "map htext ?hs"] start hl size by (simp only: request_lines_def) auto
  have line: "request_line (take (length ?start) (unlines (request_lines req host))) =
      Some (req_method req, req_target req, req_version req)"
    using request_line_text [OF r(1-7)] by (simp add: request_lines_def)
  have blk: "drop (length ?start + 2) (unlines (request_lines req host)) = unlines (map htext ?hs)"
    unfolding request_lines_def by (rule drop_line)
  have loop: "header_loop True (unlines (map htext ?hs)) acc = header_lines True (map htext ?hs) acc" for acc
    using hl by (rule header_loop_lines)
  have two: "2 \<le> length (unlines (request_lines req host))" by (simp add: request_lines_def)
  show ?thesis
    unfolding parse_request_bytes_def head sum.case prod.case line option.case blk loop
    by (subst header_lines_htext [where c = "req_content_length req"])
      (use f count two in \<open>auto simp: Let_def\<close>)
qed

section \<open>Properties\<close>

lemma parse_request_contents:
  "rb_inv buf \<Longrightarrow> parse_request buf req0 =
     parse_request_bytes (take (HTTP1_MAX_HEADER_BYTES + 1) (string_of_bytes (contents buf))) req0"
  by (simp add: parse_request_def rbq.peek_law readable_contents min_def)

lemma parse_request_whole:
  assumes "rb_inv buf" "parse_request_bytes (string_of_bytes (contents buf)) req0 = (Complete, req)"
  shows "parse_request buf req0' = (Complete, req)"
proof -
  have "req_header_bytes req \<le> HTTP1_MAX_HEADER_BYTES"
    using parse_request_bytes_ok [OF assms(2)] by (simp add: request_ok_def)
  then show ?thesis
    using parse_request_bytes_local [OF assms(2)] assms(1) by (simp add: parse_request_contents min_def)
qed

lemma parse_request_Complete:
  assumes "rb_inv buf" "parse_request buf req0 = (Complete, req)"
  shows "parse_request_bytes (string_of_bytes (contents buf)) req0' = (Complete, req)"
proof -
  let ?s = "string_of_bytes (contents buf)"
  have p: "parse_request_bytes (take (HTTP1_MAX_HEADER_BYTES + 1) ?s) req0 = (Complete, req)"
    using assms by (simp add: parse_request_contents)
  have "req_header_bytes req \<le> HTTP1_MAX_HEADER_BYTES"
    using parse_request_bytes_ok [OF p] by (simp add: request_ok_def)
  then show ?thesis using parse_request_bytes_local [OF p] by (simp add: min_def)
qed

text \<open>A concrete message for the instances below.\<close>

definition demo_text :: string where
  "demo_text = ''POST /a HTTP/1.1'' @ CRLF @ ''Host: x'' @ CRLF @ ''Content-Length: 2'' @ CRLF @ CRLF @ ''hi''"

definition demo_request :: HttpRequest where
  "demo_request =
     \<lparr>req_method = ''POST'', req_target = ''/a'', req_version = ''HTTP/1.1'',
      req_headers = [\<lparr>h_name = ''Host'', h_value = ''x''\<rparr>, \<lparr>h_name = ''Content-Length'', h_value = ''2''\<rparr>],
      req_keep_alive = True, req_content_length = 2, req_chunked = False, req_header_bytes = 48\<rparr>"

lemmas http1_eval =
  parse_request_bytes_def find_head_def request_line_def bare_lf_def find_from_def upt_rec
  header_loop.simps header_line_def lex_header_def absorb_header_def push_header_def trim_ows_def strip_def
  is_ows_def valid_header_value_def valid_value_char_def lower_def contains_str_def is_token_char_def
  token_extra_def from_chars_all_def from_chars_def digits_value_def is_digit_def digit_val_def
  http1_limits char_simps

lemma demo_length: "length demo_text = 50"
  by (simp add: demo_text_def)

lemma demo_parse_bytes: "parse_request_bytes demo_text req0 = (Complete, demo_request)"
  by (simp add: demo_text_def demo_request_def http1_eval)

lemma demo_parse: "parse_request (buffer_of demo_text) req0 = (Complete, demo_request)"
  by (rule parse_request_whole) (simp_all add: demo_parse_bytes)

text \<open>C15. Soundness of acceptance: a request that parse_request accepts has a token method of at
  most 16 characters, a non-empty target of at most 8192 characters without space or line feed,
  one of the two known versions, at most 100 headers, each with a token name and a value free
  of control characters; every Content-Length header denotes the recorded content length, no
  message has both Content-Length and chunked Transfer-Encoding, keep-alive and chunked are
  exactly what the headers say, and the header block lies within the buffer and the 64 KiB
  limit.\<close>

theorem parse_request_sound:
  assumes "rb_inv buf" "parse_request buf req0 = (Complete, req)"
  shows "request_ok req \<and> req_header_bytes req \<le> readable buf"
  using parse_request_bytes_ok [OF parse_request_Complete [OF assms]] by (simp add: readable_contents)

theorem parse_request_sound_witness:
  "parse_request (buffer_of demo_text) empty_request = (Complete, demo_request) \<and>
   request_ok demo_request \<and> req_header_bytes demo_request \<le> readable (buffer_of demo_text)"
  using parse_request_sound [OF buffer_of(1) demo_parse] demo_parse by blast

text \<open>C26. Framing: the outcome of an accepted request is determined by the header block alone.
  Any other buffer that starts with the same req_header_bytes bytes, whatever follows them (a
  body, a pipelined request, nothing) and wherever the cursors are, gives the same request.\<close>

theorem parse_request_framing:
  assumes "rb_inv buf" "rb_inv buf'" "parse_request buf req0 = (Complete, req)"
    and "take (req_header_bytes req) (contents buf') = take (req_header_bytes req) (contents buf)"
  shows "parse_request buf' req0' = (Complete, req)"
proof -
  have "take (req_header_bytes req) (string_of_bytes (contents buf')) =
      take (req_header_bytes req) (string_of_bytes (contents buf))"
    using assms(4) by (metis string_of_bytes_take)
  with parse_request_bytes_local [OF parse_request_Complete [OF assms(1,3)]] assms(2)
  show ?thesis by (blast intro: parse_request_whole)
qed

theorem parse_request_framing_witness:
  "parse_request (buffer_of (take 48 demo_text @ ''GET'')) empty_request = (Complete, demo_request)"
  by (rule parse_request_framing [OF buffer_of(1) buffer_of(1) demo_parse])
    (simp add: demo_request_def take_bytes_of_string demo_length del: bytes_of_string_append)

text \<open>C7. No request smuggling: an accepted request, serialised for the upstream by
  write_request into an empty buffer and followed by any bytes, is read back by the same grammar
  as the same method, target, version and content length, not chunked, with exactly the
  forwarded header list (own Host, the end-to-end headers in order, a Content-Length when one is
  needed, Via) and a header block that ends exactly where the written text ends, provided the
  host is a legal value and the result is within the count and size limits.\<close>

theorem forwarded_request_round_trip:
  assumes "rb_inv buf" "parse_request buf req0 = (Complete, req)"
    and "header_wf (host_header host)"
    and "length (forwarded_headers req host) \<le> HTTP1_MAX_HEADER_COUNT"
    and "length (unlines (request_lines req host)) + 2 \<le> HTTP1_MAX_HEADER_BYTES"
    and "rb_inv out" "contents out = []"
  shows "\<exists>out1 out2. write_request out req host = (Inr (), out1) \<and>
    append_rb body out1 = (Inr (), out2) \<and>
    parse_request out2 req1 = (Complete, req\<lparr>req_headers := forwarded_headers req host,
       req_chunked := False, req_keep_alive := (req_version req = ''HTTP/1.1''),
       req_header_bytes := readable out1\<rparr>)"
proof -
  have ok: "request_ok req"
    using parse_request_bytes_ok [OF parse_request_Complete [OF assms(1,2)]] by blast
  let ?t = "unlines (request_lines req host) @ CRLF"
  have "request_text req host = Inr ?t"
    by (rule request_text_lines) (use ok in \<open>simp add: request_ok_def header_wf_def\<close>)
  then have w: "write_request out req host = append_str ?t out" by (simp add: write_request_def)
  obtain out1 where o1: "append_str ?t out = (Inr (), out1)" "rb_inv out1" "contents out1 = bytes_of_string ?t"
    using rbq.emitsD [OF emits_append_str assms(6)] assms(7) by (metis append_Nil)
  obtain out2 where o2: "append_rb body out1 = (Inr (), out2)" "rb_inv out2" "contents out2 = bytes_of_string ?t @ body"
    using rbq.emitsD [OF rbq.emits_push o1(2)] o1(3) by metis
  have "readable out1 = length (unlines (request_lines req host)) + 2" by (simp add: readable_contents o1(3) flip: bytes_of_string_append)
  with parse_request_lines [OF ok assms(3,4,5), of "string_of_bytes body"] o2(3)
  have "parse_request out2 req1 = (Complete, req\<lparr>req_headers := forwarded_headers req host,
       req_chunked := False, req_keep_alive := (req_version req = ''HTTP/1.1''),
       req_header_bytes := readable out1\<rparr>)"
    by (intro parse_request_whole [OF o2(2)]) (simp del: bytes_of_string_append)
  with w o1 o2 show ?thesis by auto
qed

lemma demo_host: "header_wf (host_header ''up:80'')"
  by (simp add: header_wf_def host_header_def http1_eval)

lemma demo_forward: "forwarded_headers demo_request ''up:80'' =
    [host_header ''up:80'', \<lparr>h_name = ''Content-Length'', h_value = ''2''\<rparr>, via_header]"
  by (simp add: forwarded_headers_def demo_request_def hop_def request_hop_headers_def is_cl_def
      lower_def char_simps)

lemma demo_forward_length: "length (unlines (request_lines demo_request ''up:80'')) = 67"
  by (simp add: request_lines_def demo_forward htext_def host_header_def via_header_def)
    (simp add: demo_request_def)

theorem forwarded_request_round_trip_witness:
  "\<exists>out1 out2. write_request (new_RingBuffer 16) demo_request ''up:80'' = (Inr (), out1) \<and>
    append_rb (bytes_of_string ''hi'') out1 = (Inr (), out2) \<and>
    parse_request out2 empty_request = (Complete, demo_request\<lparr>req_headers :=
       [host_header ''up:80'', \<lparr>h_name = ''Content-Length'', h_value = ''2''\<rparr>, via_header],
       req_chunked := False, req_keep_alive := (req_version demo_request = ''HTTP/1.1''),
       req_header_bytes := readable out1\<rparr>)"
  using forwarded_request_round_trip [OF buffer_of(1) demo_parse demo_host _ _ rb_inv_new contents_new,
      of 16 "bytes_of_string ''hi''" empty_request]
  by (simp add: demo_forward demo_forward_length http1_limits)

text \<open>C27. A request that arrives in pieces: of a request that would be accepted, every proper part
  of the header block that already contains a line feed is refused with Error, and only a part
  that ends within the first line is Incomplete.  So a client whose header block is split over
  two reads after the first line gets an error, although the whole request is legal.\<close>

theorem parse_request_partial:
  assumes "rb_inv buf" "parse_request buf req0 = (Complete, req)" "rb_inv part"
    and "contents part = take k (contents buf)" "k < req_header_bytes req"
  shows "fst (parse_request part req1) =
    (if LF \<in> set (string_of_bytes (contents part)) then PError else Incomplete)"
proof -
  let ?s = "string_of_bytes (contents buf)"
  have p: "parse_request_bytes ?s req0 = (Complete, req)" using assms(1,2) by (rule parse_request_Complete)
  have "req_header_bytes req \<le> HTTP1_MAX_HEADER_BYTES"
    using parse_request_bytes_ok [OF p] by (simp add: request_ok_def)
  then have "parse_request part req1 = parse_request_bytes (take k ?s) req1"
    using assms(3-5) by (simp add: parse_request_contents min_def)
  then show ?thesis using parse_request_bytes_prefix [OF p assms(5), of req1] assms(4) by simp
qed

theorem parse_request_partial_witness:
  "fst (parse_request (buffer_of (take 20 demo_text)) empty_request) = PError \<and>
   fst (parse_request (buffer_of (take 10 demo_text)) empty_request) = Incomplete"
  using parse_request_partial [OF buffer_of(1) demo_parse buffer_of(1),
      of "take 20 demo_text" 20 empty_request]
    parse_request_partial [OF buffer_of(1) demo_parse buffer_of(1),
      of "take 10 demo_text" 10 empty_request]
  by (simp add: take_bytes_of_string) (simp add: demo_text_def demo_request_def)

lemma chunk_size_line:
  "LF \<notin> set (show_nat 16 n)" "find_str '';'' (show_nat 16 n) = None"
  using show_nat_alnum [of 16 LF n] show_nat_alnum [of 16 "CHR '';''" n]
  by (auto simp: find_char_None) (simp_all add: char_simps)

text \<open>Chunk sizes: for every size up to 2^63 - 1, write_chunk_header into an empty buffer
  followed by any chunk data is read back by parse_chunk_header as that size, and exactly the
  size line is consumed.\<close>

lemma chunk_header_round_trip:
  assumes "rb_inv buf" "contents buf = []" "n < 2 ^ 63"
  shows "\<exists>buf1 buf2 buf3. write_chunk_header buf n = (Inr (), buf1) \<and>
    append_rb chunk buf1 = (Inr (), buf2) \<and> parse_chunk_header buf2 = (int n, buf3) \<and>
    rb_inv buf3 \<and> contents buf3 = chunk"
proof -
  let ?d = "show_nat 16 n"
  have len: "length ?d \<le> 16"
    by (rule show_nat_length) (use assms(3) in simp_all)
  have w: "write_chunk_header buf n = append_str (?d @ CRLF) buf"
    using len by (simp add: write_chunk_header_def Let_def)
  obtain buf1 where b1: "append_str (?d @ CRLF) buf = (Inr (), buf1)" "rb_inv buf1"
    "contents buf1 = bytes_of_string (?d @ CRLF)"
    using rbq.emitsD [OF emits_append_str assms(1)] assms(2) by (metis append_Nil)
  obtain buf2 where b2: "append_rb chunk buf1 = (Inr (), buf2)" "rb_inv buf2"
    "contents buf2 = bytes_of_string (?d @ CRLF) @ chunk"
    using rbq.emitsD [OF rbq.emits_push b1(2)] b1(3) by metis
  let ?sv = "string_of_bytes (peek (min (readable buf2) 128) buf2)"
  have "?sv = take 128 (string_of_bytes (contents buf2))"
    using b2(2) by (simp add: rbq.peek_law readable_contents min_def)
  also have "\<dots> = take 128 (?d @ CR # LF # string_of_bytes chunk)"
    by (simp only: b2(3) string_of_bytes_append string_of_bytes_of_string append_assoc append.simps)
  also have "\<dots> = ?d @ CR # LF # take (126 - length ?d) (string_of_bytes chunk)"
    using len by (simp add: take_Cons')
  finally have sv: "?sv = ?d @ CR # LF # take (126 - length ?d) (string_of_bytes chunk)" .
  have "from_chars_all 16 (2 ^ 64) ?d = Some n"
    by (rule from_chars_all_show_nat) (use assms(3) in simp_all)
  then have "parse_chunk_header buf2 = (int n, commit_read (length ?d + 2) buf2)"
    unfolding parse_chunk_header_def Let_def sv find_crlf_line [OF chunk_size_line(1)]
    using assms(3) by (simp add: chunk_size_line(2))
  moreover have "contents (commit_read (length ?d + 2) buf2) = chunk"
    using rbq.drop_prefix [OF b2(2,3)] by simp
  ultimately show ?thesis using w b1 b2 rb_inv_commit_read by auto
qed

lemma chunk_header_round_trip_witness:
  "\<exists>buf1 buf2 buf3. write_chunk_header (new_RingBuffer 8) 255 = (Inr (), buf1) \<and>
    append_rb [1, 2] buf1 = (Inr (), buf2) \<and> parse_chunk_header buf2 = (int 255, buf3) \<and>
    rb_inv buf3 \<and> contents buf3 = [1, 2]"
  by (rule chunk_header_round_trip) simp_all

end
