(* ===== verification/Proxy_Io.thy ===== *)
theory Proxy_Io
  imports Upstream_Pool Tls Http1_Properties
begin

text \<open>
  The input and output helpers of the proxy (the unnamed namespace of \<^verbatim>\<open>src/proxy.cpp\<close>, and the
  connection records of \<^verbatim>\<open>include/uproxy/proxy.h\<close>): waiting for a descriptor, writing to the
  upstream, reading its response, the exchange with an upstream (\<open>forward_http1\<close>), and the client's
  input and output with and without TLS.

  Every loop of the source is a recursion that makes at least one call per round.  An operation that
  changes the connection returns it; one that changes the balancer's endpoints or the pools returns
  these.  The members \<^verbatim>\<open>h1parser\<close> (no state) and \<^verbatim>\<open>upstream_conn\<close> (never set) are left out.
\<close>

section \<open>Waiting, and writing to the upstream\<close>

definition MAX_PROXY_RESPONSE_BYTES :: nat where
  "MAX_PROXY_RESPONSE_BYTES = 64 * 1024 * 1024"

definition header_name_eq :: "string \<Rightarrow> string \<Rightarrow> bool" where
  "header_name_eq a b \<longleftrightarrow> list_all2 (\<lambda>x y. tolower_c x = tolower_c y) a b"

function wait_fd :: "int \<Rightarrow> u32 \<Rightarrow> int \<Rightarrow> string \<Rightarrow> OS \<Rightarrow> (unit result \<times> OS) option" where
  "wait_fd fd event timeout_ms op os =
     bind_io (call (Poll fd event timeout_ms)) (\<lambda>r s.
       if ret r > 0
       then if aux r AND (POLLERR OR POLLHUP OR POLLNVAL) \<noteq> 0 \<and> aux r AND event = 0
            then return_io (Inl (from_code SysError op)) s
            else return_io (Inr ()) s
       else if ret r = 0 then return_io (Inl (from_code Timeout op)) s
       else if err r \<noteq> EINTR then return_io (Inl (from_errno (err r) op)) s
       else wait_fd fd event timeout_ms op s) os"
  by pat_completeness auto
termination
  by (relation "measure (\<lambda>(_, _, _, _, os). length (script os))") (auto simp: call_eq_Some)

declare wait_fd.simps [simp del]

lemma only_wait_fd [only_intros]: "(\<And>fd e t. Q (Poll fd e t)) \<Longrightarrow> only Q os (wait_fd fd event timeout_ms op os)"
proof (induction fd event timeout_ms op os rule: wait_fd.induct)
  case (1 fd event timeout_ms op os)
  show ?case by (subst wait_fd.simps) (intro only_intros 1)
qed

function write_all :: "int \<Rightarrow> bytes \<Rightarrow> u32 \<Rightarrow> OS \<Rightarrow> (unit result \<times> OS) option" where
  "write_all fd bytes timeout_ms os =
     (if bytes = [] then return_io (Inr ()) os
      else bind_io (call (Send fd bytes)) (\<lambda>r s.
        if ret r > 0 then write_all fd (drop (nat (ret r)) bytes) timeout_ms s
        else if ret r < 0 \<and> err r = EAGAIN
        then bind_io (wait_fd fd POLLOUT (sint timeout_ms) ''write upstream'') (\<lambda>w s2.
          case w of
            Inl e \<Rightarrow> return_io (Inl e) s2
          | Inr _ \<Rightarrow> write_all fd bytes timeout_ms s2) s
        else if ret r < 0 \<and> err r = EINTR then write_all fd bytes timeout_ms s
        else return_io (Inl (from_errno (err r) ''write upstream'')) s) os)"
  by pat_completeness auto
termination
proof (relation "measure (\<lambda>(_, _, _, os). length (script os))", goal_cases)
  case (3 fd bytes timeout_ms os r s w s2)
  have "length (script s2) \<le> length (script s)"
    by (rule only_shorter [OF 3(5) only_wait_fd [of "\<lambda>_. True"]]) simp
  with 3 show ?case by (auto simp: call_eq_Some)
qed (auto simp: call_eq_Some)

declare write_all.simps [simp del]

lemma only_write_all [only_intros]:
  "(\<And>fd e t. Q (Poll fd e t)) \<Longrightarrow> (\<And>b. Q (Send fd b)) \<Longrightarrow> only Q os (write_all fd bytes timeout_ms os)"
proof (induction "length (script os)" arbitrary: bytes os rule: less_induct)
  case less
  have w: "length (script s2) \<le> length (script s)" if "wait_fd fd event t op s = Some (x, s2)" for event t op s s2 x
    by (rule only_shorter [OF that only_wait_fd [of "\<lambda>_. True"]]) simp
  show ?case
    by (subst write_all.simps)
      (intro only_intros only_bind [of Q _ "wait_fd fd POLLOUT (sint timeout_ms) ''write upstream''"] less;
        (drule call_shorter w)+; simp)
qed

section \<open>The client connection\<close>

datatype ConnState =
  TLSHandshake | ReadRequest | ConnectUpstream | SendRequest | ReadResponse | SendResponse | CDone | CError

datatype Proto = HTTP1 | HTTP2

record ClientConn =
  cc_fd :: Uniquefd
  cc_state :: ConnState
  cc_proto :: Proto
  rbuf :: RingBuffer
  wbuf :: RingBuffer
  current_req :: HttpRequest
  cc_keep_alive :: bool
  req_count :: int
  h2conn :: "H2Conn option"
  cc_upstream :: "nat option"
  up_rbuf :: RingBuffer
  up_wbuf :: RingBuffer
  connected_at_ms :: u64
  request_at_ms :: u64
  remote_addr :: string
  tls_conn :: "TLSConn option"
  tls_pending :: RingBuffer

definition new_ClientConn :: ClientConn where
  "new_ClientConn =
     \<lparr>cc_fd = -1, cc_state = ReadRequest, cc_proto = HTTP1, rbuf = new_RingBuffer 65536,
      wbuf = new_RingBuffer 65536, current_req = empty_request, cc_keep_alive = True, req_count = 0,
      h2conn = None, cc_upstream = None, up_rbuf = new_RingBuffer 65536, up_wbuf = new_RingBuffer 65536,
      connected_at_ms = 0, request_at_ms = 0, remote_addr = [], tls_conn = None,
      tls_pending = new_RingBuffer 65536\<rparr>"

definition is_would_block :: "Error \<Rightarrow> bool" where
  "is_would_block e \<longleftrightarrow> e_code e = WouldBlock"

text \<open>\<^verbatim>\<open>flush_tls_ciphertext\<close>: first what is left from before, then what the library has produced since;
  what the socket does not take is kept.\<close>

function flush_pending :: "int \<Rightarrow> RingBuffer \<Rightarrow> OS \<Rightarrow> ((unit result \<times> RingBuffer) \<times> OS) option" where
  "flush_pending fd p os =
     (if readable p > 0
      then bind_io (call (Send fd (peek (readable p) p))) (\<lambda>r s.
        if ret r > 0 then flush_pending fd (commit_read (nat (ret r)) p) s
        else if ret r < 0 \<and> err r = EINTR then flush_pending fd p s
        else if ret r < 0 \<and> err r = EAGAIN then return_io (Inl (from_code WouldBlock ''tls write''), p) s
        else return_io (Inl (from_errno (err r) ''tls write''), p) s) os
      else return_io (Inr (), p) os)"
  by pat_completeness auto
termination
  by (relation "measure (\<lambda>(_, _, os). length (script os))") (auto dest: call_shorter)

declare flush_pending.simps [simp del]

function send_cipher :: "int \<Rightarrow> bytes \<Rightarrow> RingBuffer \<Rightarrow> OS \<Rightarrow> ((unit result \<times> RingBuffer) \<times> OS) option" where
  "send_cipher fd bytes p os =
     (if bytes = [] then return_io (Inr (), p) os
      else bind_io (call (Send fd bytes)) (\<lambda>r s.
        if ret r > 0 then send_cipher fd (drop (nat (ret r)) bytes) p s
        else if ret r < 0 \<and> err r = EINTR then send_cipher fd bytes p s
        else if ret r < 0 \<and> err r = EAGAIN
        then (case append_rb bytes p of
                (Inl e, p') \<Rightarrow> return_io (Inl e, p') s
              | (Inr _, p') \<Rightarrow> return_io (Inl (from_code WouldBlock ''tls write''), p') s)
        else return_io (Inl (from_errno (err r) ''tls write''), p) s) os)"
  by pat_completeness auto
termination
  by (relation "measure (\<lambda>(_, _, _, os). length (script os))") (auto dest: call_shorter)

declare send_cipher.simps [simp del]

lemma only_flush_pending [only_intros]: "(\<And>b. Q (Send fd b)) \<Longrightarrow> only Q os (flush_pending fd p os)"
proof (induction "length (script os)" arbitrary: p os rule: less_induct)
  case less
  show ?case by (subst flush_pending.simps) (intro only_intros less; (drule call_shorter)+; simp)
qed

lemma only_send_cipher [only_intros]: "(\<And>b. Q (Send fd b)) \<Longrightarrow> only Q os (send_cipher fd bytes p os)"
proof (induction "length (script os)" arbitrary: bytes p os rule: less_induct)
  case less
  show ?case by (subst send_cipher.simps) (intro only_intros less; (drule call_shorter)+; simp)
qed

function flush_loop :: "int \<Rightarrow> TLSConn \<Rightarrow> RingBuffer \<Rightarrow> OS \<Rightarrow> ((unit result \<times> RingBuffer) \<times> OS) option" where
  "flush_loop fd t p os =
     bind_io (take_encrypted 8192 t) (\<lambda>r s.
       case r of
         Inl e \<Rightarrow> return_io (Inl e, p) s
       | Inr bytes \<Rightarrow>
           if bytes = [] then return_io (Inr (), p) s
           else bind_io (send_cipher fd bytes p) (\<lambda>q s2.
             case q of
               (Inl e, p') \<Rightarrow> return_io (Inl e, p') s2
             | (Inr _, p') \<Rightarrow> flush_loop fd t p' s2) s) os"
  by pat_completeness auto
termination
proof (relation "measure (\<lambda>(_, _, _, os). length (script os))", simp, goal_cases)
  case (1 fd t p os r s bytes q s2 x p' y)
  have "length (script s2) \<le> length (script s)"
    by (rule only_shorter [OF 1(4) only_send_cipher [of "\<lambda>_. True"]]) simp
  with 1 take_encrypted_consumes show ?case by fastforce
qed

declare flush_loop.simps [simp del]

definition flush_tls_ciphertext :: "ClientConn \<Rightarrow> int \<Rightarrow> (unit result \<times> ClientConn) io" where
  "flush_tls_ciphertext conn fd =
     (case tls_conn conn of
        None \<Rightarrow> return_io (Inr (), conn)
      | Some t \<Rightarrow>
          bind_io (flush_pending fd (tls_pending conn)) (\<lambda>q.
            case q of
              (Inl e, p) \<Rightarrow> return_io (Inl e, conn\<lparr>tls_pending := p\<rparr>)
            | (Inr _, p) \<Rightarrow>
                bind_io (flush_loop fd t p) (\<lambda>(r, p'). return_io (r, conn\<lparr>tls_pending := p'\<rparr>))))"

definition append_client_plaintext :: "ClientConn \<Rightarrow> bytes \<Rightarrow> unit result \<times> ClientConn" where
  "append_client_plaintext conn data =
     (case append_rb data (rbuf conn) of (r, b) \<Rightarrow> (r, conn\<lparr>rbuf := b\<rparr>))"

lemma only_tls [only_intros]:
  assumes "\<And>c. Q (Tls c)"
  shows "only Q os (take_encrypted n t os)" "only Q os (tls_read n t os)" "only Q os (tls_write data t os)"
    "only Q os (feed_encrypted data t os)" "only Q os (do_handshake t os)"
  unfolding take_encrypted_def tls_read_def tls_write_def feed_encrypted_def do_handshake_def Let_def
  by (intro only_intros assms)+

lemma only_flush_loop [only_intros]:
  "(\<And>c. Q (Tls c)) \<Longrightarrow> (\<And>b. Q (Send fd b)) \<Longrightarrow> only Q os (flush_loop fd t p os)"
proof (induction "length (script os)" arbitrary: p os rule: less_induct)
  case less
  have IH: "only Q s2 (flush_loop fd t p' s2)"
    if "take_encrypted 8192 t os = Some (Inr bytes, s)" "bytes \<noteq> []" "send_cipher fd bytes p s = Some (x, s2)"
    for bytes s x s2 p'
  proof (rule less.hyps)
    have "length (script s2) \<le> length (script s)"
      by (rule only_shorter [OF that(3) only_send_cipher [of "\<lambda>_. True"]]) simp
    with take_encrypted_consumes [OF that(1,2)] show "length (script s2) < length (script os)" by simp
  qed (use less.prems in auto)
  show ?case
    by (subst flush_loop.simps)
      (intro only_bind [of Q _ "take_encrypted 8192 t"] only_bind [of Q _ "send_cipher fd _ p"] only_intros less.prems;
        auto intro: IH)
qed

lemma only_flush_tls [only_intros]:
  "(\<And>c. Q (Tls c)) \<Longrightarrow> (\<And>b. Q (Send fd b)) \<Longrightarrow> only Q os (flush_tls_ciphertext conn fd os)"
  unfolding flush_tls_ciphertext_def
  by (auto split: option.split sum.split intro!: only_intros only_bind [of Q _ "flush_pending fd (tls_pending conn)"]
      only_bind [of Q _ "flush_loop fd _ _"])

lemma feed_encrypted_le: "feed_encrypted data t s = Some (x, s') \<Longrightarrow> length (script s') \<le> length (script s)"
  by (rule only_shorter [OF _ only_tls(4) [of "\<lambda>_. True"]]) simp_all

lemma flush_tls_le: "flush_tls_ciphertext conn fd s = Some (x, s') \<Longrightarrow> length (script s') \<le> length (script s)"
  by (rule only_shorter [OF _ only_flush_tls [of "\<lambda>_. True"]]) simp_all

function recv_loop :: "int \<Rightarrow> ClientConn \<Rightarrow> OS \<Rightarrow> ((bool result \<times> ClientConn) \<times> OS) option" where
  "recv_loop fd conn os =
     bind_io (call (Recv fd 8192)) (\<lambda>r s.
       if ret r > 0
       then (case tls_conn conn of
               Some t \<Rightarrow>
                 bind_io (feed_encrypted (take (nat (ret r)) (out r)) t) (\<lambda>f s2.
                   case f of
                     Inl e \<Rightarrow> return_io (Inl e, conn) s2
                   | Inr _ \<Rightarrow> recv_loop fd conn s2) s
             | None \<Rightarrow>
                 (case append_client_plaintext conn (take (nat (ret r)) (out r)) of
                    (Inl e, conn') \<Rightarrow> return_io (Inl e, conn') s
                  | (Inr _, conn') \<Rightarrow> recv_loop fd conn' s))
       else if ret r = 0 then return_io (Inr True, conn) s
       else if err r = EINTR then recv_loop fd conn s
       else if err r = EAGAIN then return_io (Inr False, conn) s
       else return_io (Inl (from_errno (err r) ''read client''), conn) s) os"
  by pat_completeness auto
termination
  by (relation "measure (\<lambda>(_, _, os). length (script os))") (auto dest!: call_shorter feed_encrypted_le)

declare recv_loop.simps [simp del]

function decrypt_loop :: "TLSConn \<Rightarrow> ClientConn \<Rightarrow> OS \<Rightarrow> ((unit result \<times> ClientConn) \<times> OS) option" where
  "decrypt_loop t conn os =
     bind_io (tls_read 8192 t) (\<lambda>r s.
       case r of
         Inl e \<Rightarrow> if is_would_block e then return_io (Inr (), conn) s else return_io (Inl e, conn) s
       | Inr bytes \<Rightarrow>
           (case append_client_plaintext conn bytes of
              (Inl e, conn') \<Rightarrow> return_io (Inl e, conn') s
            | (Inr _, conn') \<Rightarrow> decrypt_loop t conn' s)) os"
  by pat_completeness auto
termination
  by (relation "measure (\<lambda>(_, _, os). length (script os))") (auto dest: tls_read_consumes)

declare decrypt_loop.simps [simp del]

definition read_client_input :: "ClientConn \<Rightarrow> int \<Rightarrow> (bool result \<times> ClientConn) io" where
  "read_client_input conn fd =
     bind_io (recv_loop fd conn) (\<lambda>q.
       case q of
         (Inl e, conn1) \<Rightarrow> return_io (Inl e, conn1)
       | (Inr saw_eof, conn1) \<Rightarrow>
           (case tls_conn conn1 of
              None \<Rightarrow> return_io (Inr saw_eof, conn1)
            | Some t \<Rightarrow>
                bind_io (decrypt_loop t conn1) (\<lambda>d.
                  case d of
                    (Inl e, conn2) \<Rightarrow> return_io (Inl e, conn2)
                  | (Inr _, conn2) \<Rightarrow>
                      bind_io (flush_tls_ciphertext conn2 fd) (\<lambda>f.
                        case f of
                          (Inl e, conn3) \<Rightarrow>
                            if is_would_block e then return_io (Inr saw_eof, conn3) else return_io (Inl e, conn3)
                        | (Inr _, conn3) \<Rightarrow> return_io (Inr saw_eof, conn3)))))"

function write_client_output :: "ClientConn \<Rightarrow> int \<Rightarrow> OS \<Rightarrow> ((unit result \<times> ClientConn) \<times> OS) option" where
  "write_client_output conn fd os =
     (if readable (wbuf conn) > 0
      then let bytes = peek (readable (wbuf conn)) (wbuf conn)
           in case tls_conn conn of
                Some t \<Rightarrow>
                  bind_io (tls_write bytes t) (\<lambda>w s.
                    case w of
                      Inl e \<Rightarrow>
                        if is_would_block e
                        then bind_io (flush_tls_ciphertext conn fd) (\<lambda>f.
                          case f of
                            (Inl e2, conn') \<Rightarrow>
                              if is_would_block e2
                              then return_io (Inl (from_code WouldBlock ''tls write pending''), conn')
                              else return_io (Inl e2, conn')
                          | (Inr _, conn') \<Rightarrow>
                              return_io (Inl (from_code WouldBlock ''tls write pending''), conn')) s
                        else return_io (Inl e, conn) s
                    | Inr n \<Rightarrow>
                        bind_io (flush_tls_ciphertext (conn\<lparr>wbuf := commit_read n (wbuf conn)\<rparr>) fd) (\<lambda>f s2.
                          case f of
                            (Inl e, conn') \<Rightarrow> return_io (Inl e, conn') s2
                          | (Inr _, conn') \<Rightarrow> write_client_output conn' fd s2) s) os
              | None \<Rightarrow>
                  bind_io (call (Send fd bytes)) (\<lambda>r s.
                    if ret r > 0
                    then write_client_output (conn\<lparr>wbuf := commit_read (nat (ret r)) (wbuf conn)\<rparr>) fd s
                    else if ret r < 0 \<and> err r = EINTR then write_client_output conn fd s
                    else if ret r < 0 \<and> err r = EAGAIN
                    then return_io (Inl (from_code WouldBlock ''write client''), conn) s
                    else return_io (Inl (from_errno (err r) ''write client''), conn) s) os
      else case tls_conn conn of
             None \<Rightarrow> return_io (Inr (), conn) os
           | Some _ \<Rightarrow> flush_tls_ciphertext conn fd os)"
  by pat_completeness auto
termination
  by (relation "measure (\<lambda>(_, _, os). length (script os))")
    (auto dest!: call_shorter tls_write_consumes flush_tls_le)

declare write_client_output.simps [simp del]

section \<open>The response of the upstream\<close>

definition response_complete :: "RingBuffer \<Rightarrow> HttpResponse \<Rightarrow> bool \<times> HttpResponse" where
  "response_complete response parsed0 =
     (case parse_response response parsed0 of
        (status, parsed) \<Rightarrow>
          if status \<noteq> Complete then (False, parsed)
          else if resp_chunked parsed
          then let text = string_of_bytes (peek (readable response) response)
               in (find_from (CRLF @ ''0'' @ CRLF @ CRLF) (resp_header_bytes parsed) text \<noteq> None \<or>
                   find_str (CRLF @ ''0;'') text \<noteq> None, parsed)
          else if list_ex (\<lambda>h. header_name_eq (h_name h) ''content-length'') (resp_headers parsed)
          then (readable response \<ge> (resp_header_bytes parsed + unat (resp_content_length parsed)) mod 2 ^ 64, parsed)
          else (resp_status parsed = 204 \<or> resp_status parsed = 304, parsed))"

text \<open>The loop of \<^verbatim>\<open>read_response\<close>, on the bytes read so far and the last parse.\<close>

lemma wait_fd_le: "wait_fd fd event t op s = Some (x, s') \<Longrightarrow> length (script s') \<le> length (script s)"
  by (rule only_shorter [OF _ only_wait_fd [of "\<lambda>_. True"]]) simp_all

function read_loop :: "int \<Rightarrow> u32 \<Rightarrow> RingBuffer \<Rightarrow> HttpResponse \<Rightarrow> OS \<Rightarrow> (bytes result \<times> OS) option" where
  "read_loop fd timeout_ms response parsed0 os =
     (case response_complete response parsed0 of
        (complete, parsed) \<Rightarrow>
          if complete then return_io (Inr (peek (readable response) response)) os
          else if readable response \<ge> MAX_PROXY_RESPONSE_BYTES
          then return_io (Inl (from_code HttpMalformed ''upstream response too large'')) os
          else bind_io (wait_fd fd POLLIN (sint timeout_ms) ''read upstream'') (\<lambda>w s.
            case w of
              Inl e \<Rightarrow>
                if resp_header_bytes parsed > 0 \<and> resp_content_length parsed = 0 \<and> \<not> resp_chunked parsed
                then return_io (Inr (peek (readable response) response)) s
                else return_io (Inl e) s
            | Inr _ \<Rightarrow>
                bind_io (call (Recv fd 16384)) (\<lambda>r s2.
                  if ret r > 0
                  then (case append_rb (take (nat (ret r)) (out r)) response of
                          (Inl e, _) \<Rightarrow> return_io (Inl e) s2
                        | (Inr _, response') \<Rightarrow> read_loop fd timeout_ms response' parsed s2)
                  else if ret r = 0 then return_io (Inr (peek (readable response) response)) s2
                  else if err r = EAGAIN \<or> err r = EINTR then read_loop fd timeout_ms response parsed s2
                  else return_io (Inl (from_errno (err r) ''read upstream'')) s2) s) os)"
  by pat_completeness auto
termination
  by (relation "measure (\<lambda>(_, _, _, _, os). length (script os))") (auto dest!: call_shorter wait_fd_le)

declare read_loop.simps [simp del]

definition read_response :: "int \<Rightarrow> u32 \<Rightarrow> bytes result io" where
  "read_response fd timeout_ms = read_loop fd timeout_ms (new_RingBuffer 65536) empty_response"

section \<open>An exchange with an upstream\<close>

definition upstream_host :: "UpstreamEndpoint \<Rightarrow> string" where
  "upstream_host ep = ep_addr ep @ '':'' @ show_nat 10 (unat (ep_port ep))"

text \<open>One round of the retry loop of \<open>forward_http1\<close>: no connection, a failed exchange (the
  connection is dropped, and \<^verbatim>\<open>release(nullptr)\<close> does nothing), or a response.\<close>

datatype Attempt = NoConnection Error | Failed Error | Response bytes

definition drop_conn :: "PooledConn \<Rightarrow> UpstreamPool \<Rightarrow> UpstreamPool io" where
  "drop_conn conn pool = bind_io (release None pool) (\<lambda>pool'. bind_io (destroy_conn conn) (\<lambda>_. return_io pool'))"

definition forward_attempt ::
  "bytes \<Rightarrow> UpstreamEndpoint \<Rightarrow> UpstreamPool \<Rightarrow> (Attempt \<times> UpstreamEndpoint \<times> UpstreamPool) io" where
  "forward_attempt request_bytes ep pool =
     bind_io (acquire (\<lambda>p. p) ep pool) (\<lambda>(r, ep1, pool1).
       case r of
         Inl e \<Rightarrow> return_io (NoConnection e, ep1, pool1)
       | Inr conn \<Rightarrow>
           bind_io (write_all (pc_fd conn) request_bytes 5000) (\<lambda>wrote.
             case wrote of
               Inl e \<Rightarrow> bind_io (drop_conn conn pool1) (\<lambda>pool2. return_io (Failed e, ep1, pool2))
             | Inr _ \<Rightarrow>
                 bind_io (read_response (pc_fd conn) 5000) (\<lambda>response.
                   case response of
                     Inl e \<Rightarrow> bind_io (drop_conn conn pool1) (\<lambda>pool2. return_io (Failed e, ep1, pool2))
                   | Inr bytes \<Rightarrow>
                       bind_io (release (Some (conn\<lparr>pc_request_count := pc_request_count conn + 1\<rparr>)) pool1)
                         (\<lambda>pool2. return_io (Response bytes, ep1, pool2)))))"

text \<open>The loop, with the number of attempts left.\<close>

fun forward_loop ::
  "nat \<Rightarrow> bytes \<Rightarrow> UpstreamEndpoint \<Rightarrow> UpstreamPool \<Rightarrow> (bytes result \<times> UpstreamEndpoint \<times> UpstreamPool) io" where
  "forward_loop 0 request_bytes ep pool =
     return_io (Inl (from_code NoUpstream ''upstream request failed after retry''), ep, pool)"
| "forward_loop (Suc n) request_bytes ep pool =
     bind_io (forward_attempt request_bytes ep pool) (\<lambda>(a, ep1, pool1).
       case a of
         NoConnection e \<Rightarrow> return_io (Inl e, ep1, pool1)
       | Failed e \<Rightarrow> if n = 1 then forward_loop n request_bytes ep1 pool1 else return_io (Inl e, ep1, pool1)
       | Response bytes \<Rightarrow> return_io (Inr bytes, ep1, pool1))"

text \<open>The pool of the chosen endpoint's name; it connects to the endpoint it was created for.\<close>

definition forward_http1 ::
  "HttpRequest \<Rightarrow> bytes \<Rightarrow> nat \<Rightarrow> WeightedRoundRobin \<Rightarrow> PoolManager \<Rightarrow>
     (bytes result \<times> WeightedRoundRobin \<times> PoolManager) io" where
  "forward_http1 req body i lb pools =
     (let eps = endpoints lb
      in case write_request (new_RingBuffer (65536 + length body)) req (upstream_host (eps ! i)) of
           (Inl e, _) \<Rightarrow> return_io (Inl e, lb, pools)
         | (Inr _, b) \<Rightarrow>
             (case (if body \<noteq> [] then append_rb body b else (Inr (), b)) of
                (Inl e, _) \<Rightarrow> return_io (Inl e, lb, pools)
              | (Inr _, upstream_request) \<Rightarrow>
                  (case get_pool eps i pools of
                     (pool, pools1) \<Rightarrow>
                       let j = up_endpoint pool
                       in bind_io (forward_loop 2 (peek (readable upstream_request) upstream_request) (eps ! j) pool)
                            (\<lambda>(r, ep, pool').
                               return_io (r, lb\<lparr>endpoints := eps[j := ep]\<rparr>, put_pool (ep_name (eps ! i)) pool' pools1)))))"

section \<open>Calls made, and members changed\<close>

lemma only_read_loop [only_intros]:
  "(\<And>fd e t. Q (Poll fd e t)) \<Longrightarrow> (\<And>n. Q (Recv fd n)) \<Longrightarrow> only Q os (read_loop fd timeout_ms response parsed0 os)"
proof (induction "length (script os)" arbitrary: response parsed0 os rule: less_induct)
  case less
  show ?case
    by (subst read_loop.simps)
      (intro only_intros only_bind [of Q _ "wait_fd fd POLLIN (sint timeout_ms) ''read upstream''"] less;
        (drule call_shorter wait_fd_le)+; simp)
qed

lemma only_read_response [only_intros]:
  "(\<And>fd e t. Q (Poll fd e t)) \<Longrightarrow> (\<And>n. Q (Recv fd n)) \<Longrightarrow> only Q os (read_response fd timeout_ms os)"
  unfolding read_response_def by (rule only_read_loop)

lemma only_option [only_intros]:
  "(w = None \<Longrightarrow> only Q os m) \<Longrightarrow> (\<And>x. w = Some x \<Longrightarrow> only Q os (f x)) \<Longrightarrow>
     only Q os (case w of None \<Rightarrow> m | Some x \<Rightarrow> f x)"
  "(w = None \<Longrightarrow> only Q os (m' os)) \<Longrightarrow> (\<And>x. w = Some x \<Longrightarrow> only Q os (f' x os)) \<Longrightarrow>
     only Q os ((case w of None \<Rightarrow> m' | Some x \<Rightarrow> f' x) os)"
  by (cases w; simp)+

lemma only_recv_loop [only_intros]:
  "(\<And>c. Q (Tls c)) \<Longrightarrow> (\<And>n. Q (Recv fd n)) \<Longrightarrow> only Q os (recv_loop fd conn os)"
proof (induction "length (script os)" arbitrary: conn os rule: less_induct)
  case less
  show ?case
    by (subst recv_loop.simps)
      (intro only_intros only_bind [of Q _ "feed_encrypted _ _"] less; (drule call_shorter feed_encrypted_le)+; simp)
qed

lemma only_decrypt_loop [only_intros]: "(\<And>c. Q (Tls c)) \<Longrightarrow> only Q os (decrypt_loop t conn os)"
proof (induction "length (script os)" arbitrary: conn os rule: less_induct)
  case less
  show ?case
    by (subst decrypt_loop.simps)
      (intro only_intros only_bind [of Q _ "tls_read 8192 t"] less; simp?; drule tls_read_consumes; simp)
qed

lemma only_read_client_input:
  "(\<And>c. Q (Tls c)) \<Longrightarrow> (\<And>n. Q (Recv fd n)) \<Longrightarrow> (\<And>b. Q (Send fd b)) \<Longrightarrow> only Q os (read_client_input conn fd os)"
  unfolding read_client_input_def
  by (intro only_intros only_bind [of Q _ "recv_loop fd conn"] only_bind [of Q _ "decrypt_loop _ _"]
      only_bind [of Q _ "flush_tls_ciphertext _ fd"])

lemma only_write_client_output:
  "(\<And>c. Q (Tls c)) \<Longrightarrow> (\<And>b. Q (Send fd b)) \<Longrightarrow> only Q os (write_client_output conn fd os)"
proof (induction "length (script os)" arbitrary: conn os rule: less_induct)
  case less
  show ?case
    by (subst write_client_output.simps, unfold Let_def)
      (intro only_intros only_bind [of Q _ "tls_write _ _"] only_bind [of Q _ "flush_tls_ciphertext _ fd"] less;
        simp?; (drule call_shorter tls_write_consumes flush_tls_le)+; simp)
qed

text \<open>Which members of the connection an operation may change.\<close>

lemma flush_pending_inv: "rb_inv p \<Longrightarrow> gives (\<lambda>(_, p'). rb_inv p') (flush_pending fd p os)"
proof (induction "length (script os)" arbitrary: p os rule: less_induct)
  case less
  show ?case
    by (subst flush_pending.simps) (intro gives_intros less; auto dest: call_shorter intro: rb_inv_commit_read less.prems)
qed

lemma append_rb_inv: "rb_inv b \<Longrightarrow> append_rb data b = (r, b') \<Longrightarrow> rb_inv b' \<and> r = Inr ()"
  by (metis append_rb_contents Pair_inject)

lemma send_cipher_inv: "rb_inv p \<Longrightarrow> gives (\<lambda>(_, p'). rb_inv p') (send_cipher fd bytes p os)"
proof (induction "length (script os)" arbitrary: bytes p os rule: less_induct)
  case less
  show ?case
    by (subst send_cipher.simps) (intro gives_intros less; auto dest: call_shorter append_rb_inv [OF less.prems] intro: less.prems)
qed

lemma flush_loop_inv: "rb_inv p \<Longrightarrow> gives (\<lambda>(_, p'). rb_inv p') (flush_loop fd t p os)"
proof (induction "length (script os)" arbitrary: p os rule: less_induct)
  case less
  have sc: "rb_inv p'" if "send_cipher fd bytes p s = Some ((r, p'), s')" for bytes s r p' s'
    using givesD [OF send_cipher_inv [OF less.prems] that] by simp
  have sh: "length (script s2) < length (script os)"
    if "take_encrypted 8192 t os = Some (Inr bytes, s)" "bytes \<noteq> []" "send_cipher fd bytes p s = Some (x, s2)" for bytes s x s2
    using take_encrypted_consumes [OF that(1,2)] only_shorter [OF that(3) only_send_cipher [of "\<lambda>_. True"]] by simp
  show ?case
    by (subst flush_loop.simps) (intro gives_intros less.hyps; auto intro: sh sc less.prems)
qed

lemma flush_tls_frame:
  assumes "flush_tls_ciphertext conn fd os = Some ((r, conn'), os')"
  shows "\<exists>p. conn' = conn\<lparr>tls_pending := p\<rparr> \<and> (rb_inv (tls_pending conn) \<longrightarrow> rb_inv p)"
proof (cases "tls_conn conn")
  case None
  then show ?thesis using assms by (intro exI [of _ "tls_pending conn"]) (auto simp: flush_tls_ciphertext_def return_io_eq_Some)
next
  case (Some t)
  have fp: "rb_inv p'" if "rb_inv p" "flush_pending fd p s = Some ((q, p'), s')" for p s q p' s'
    using givesD [OF flush_pending_inv [OF that(1)] that(2)] by simp
  have fl: "rb_inv p'" if "rb_inv p" "flush_loop fd t p s = Some ((q, p'), s')" for p s q p' s'
    using givesD [OF flush_loop_inv [OF that(1)] that(2)] by simp
  obtain q p s where q: "flush_pending fd (tls_pending conn) os = Some ((q, p), s)"
    and k: "(case (q, p) of (Inl e, p) \<Rightarrow> return_io (Inl e, conn\<lparr>tls_pending := p\<rparr>)
      | (Inr _, p) \<Rightarrow> bind_io (flush_loop fd t p) (\<lambda>(r, p'). return_io (r, conn\<lparr>tls_pending := p'\<rparr>))) s = Some ((r, conn'), os')"
    using assms Some unfolding flush_tls_ciphertext_def by (auto simp: bind_io_eq_Some)
  show ?thesis
  proof (cases q)
    case (Inl e)
    with k fp [OF _ q] show ?thesis by (auto simp: return_io_eq_Some)
  next
    case (Inr u)
    with k obtain r' p' where "flush_loop fd t p s = Some ((r', p'), os')" "conn' = conn\<lparr>tls_pending := p'\<rparr>"
      by (auto simp: io_elims)
    with fl fp [OF _ q] show ?thesis by blast
  qed
qed

text \<open>A predicate that the elementary changes keep is kept by the loops.\<close>

lemma recv_loop_frame:
  "(\<And>c data r c'. P c \<Longrightarrow> append_client_plaintext c data = (r, c') \<Longrightarrow> P c') \<Longrightarrow> P conn \<Longrightarrow>
     gives (\<lambda>(_, conn'). P conn') (recv_loop fd conn os)"
proof (induction "length (script os)" arbitrary: conn os rule: less_induct)
  case less
  show ?case
    by (subst recv_loop.simps)
      (intro gives_intros less.hyps; (drule call_shorter feed_encrypted_le)+; auto intro: less.prems)
qed

lemma decrypt_loop_frame:
  "(\<And>c data r c'. P c \<Longrightarrow> append_client_plaintext c data = (r, c') \<Longrightarrow> P c') \<Longrightarrow> P conn \<Longrightarrow>
     gives (\<lambda>(_, conn'). P conn') (decrypt_loop t conn os)"
proof (induction "length (script os)" arbitrary: conn os rule: less_induct)
  case less
  show ?case
    by (subst decrypt_loop.simps)
      (intro gives_intros less.hyps; auto intro: less.prems dest: tls_read_consumes)
qed

lemma read_client_input_frame:
  assumes app: "\<And>c data r c'. P c \<Longrightarrow> append_client_plaintext c data = (r, c') \<Longrightarrow> P c'"
    and fl: "\<And>c s r c' s'. P c \<Longrightarrow> flush_tls_ciphertext c fd s = Some ((r, c'), s') \<Longrightarrow> P c'" and "P conn"
  shows "yields (\<lambda>(_, conn'). P conn') (read_client_input conn fd)"
proof (rule yieldsI)
  fix os
  have rl: "P c" if "recv_loop fd conn os = Some ((r, c), s)" for r c s
    using givesD [OF recv_loop_frame [of P, OF app assms(3)] that] by simp
  have dl: "P c'" if "decrypt_loop t c s = Some ((r, c'), s')" "P c" for t c c' r s s'
    using givesD [OF decrypt_loop_frame [of P, OF app that(2)] that(1)] by simp
  show "gives (\<lambda>(_, conn'). P conn') (read_client_input conn fd os)"
    unfolding read_client_input_def by (intro gives_intros) (auto dest!: rl dl intro: fl)
qed

lemma write_client_output_gives:
  "(\<And>c n. P c \<Longrightarrow> P (c\<lparr>wbuf := commit_read n (wbuf c)\<rparr>)) \<Longrightarrow>
   (\<And>c s r c' s'. P c \<Longrightarrow> flush_tls_ciphertext c fd s = Some ((r, c'), s') \<Longrightarrow> P c') \<Longrightarrow> P conn \<Longrightarrow>
     gives (\<lambda>(_, conn'). P conn') (write_client_output conn fd os)"
proof (induction "length (script os)" arbitrary: conn os rule: less_induct)
  case less
  have fl': "gives (\<lambda>(_, conn'). P conn') (flush_tls_ciphertext c fd s)" if "P c" for c s
    using less.prems(2) that unfolding gives_def by auto
  have sh: "length (script s2) < length (script os)"
    if "tls_write data t os = Some (Inr n, s)" "flush_tls_ciphertext c fd s = Some (x, s2)" for data t n s c x s2
    using tls_write_consumes [OF that(1)] flush_tls_le [OF that(2)] by simp
  show ?case
    by (subst write_client_output.simps, unfold Let_def)
      (intro gives_intros less.hyps fl'; auto intro: sh less.prems dest: call_shorter)
qed

lemma write_client_output_frame:
  assumes "\<And>c n. P c \<Longrightarrow> P (c\<lparr>wbuf := commit_read n (wbuf c)\<rparr>)"
    and "\<And>c s r c' s'. P c \<Longrightarrow> flush_tls_ciphertext c fd s = Some ((r, c'), s') \<Longrightarrow> P c'" and "P conn"
  shows "yields (\<lambda>(_, conn'). P conn') (write_client_output conn fd)"
  by (rule yieldsI, rule write_client_output_gives [OF assms])

end
