(* ===== verification/Proxy_Exchange.thy ===== *)
theory Proxy_Exchange
  imports Proxy_Io "HOL-Library.Sublist"
begin

text \<open>
  What goes over the wire in an exchange with an upstream, and what an exchange does to the pool.
  \<open>sent fd tr\<close> and \<open>recvd fd tr\<close> are the bytes that the kernel accepted and delivered on \<open>fd\<close> in the
  calls \<open>tr\<close>.
\<close>

section \<open>The wire\<close>

definition sent1 :: "int \<Rightarrow> Call \<times> Reply \<Rightarrow> bytes" where
  "sent1 fd p = (case fst p of Send f b \<Rightarrow> if f = fd then take (nat (ret (snd p))) b else [] | _ \<Rightarrow> [])"

definition recvd1 :: "int \<Rightarrow> Call \<times> Reply \<Rightarrow> bytes" where
  "recvd1 fd p = (case fst p of Recv f n \<Rightarrow> if f = fd then take (nat (ret (snd p))) (out (snd p)) else [] | _ \<Rightarrow> [])"

definition sent :: "int \<Rightarrow> (Call \<times> Reply) list \<Rightarrow> bytes" where
  "sent fd tr = concat (map (sent1 fd) tr)"

definition recvd :: "int \<Rightarrow> (Call \<times> Reply) list \<Rightarrow> bytes" where
  "recvd fd tr = concat (map (recvd1 fd) tr)"

lemma sent_simps [simp]: "sent fd [] = []" "sent fd (p # tr) = sent1 fd p @ sent fd tr" "sent fd (tr @ tr') = sent fd tr @ sent fd tr'"
  by (simp_all add: sent_def)

lemma recvd_simps [simp]:
  "recvd fd [] = []" "recvd fd (p # tr) = recvd1 fd p @ recvd fd tr"
  "recvd fd (tr @ tr') = recvd fd tr @ recvd fd tr'"
  by (simp_all add: recvd_def)

definition silent :: "Call \<Rightarrow> bool" where
  "silent c = (case c of Send _ _ \<Rightarrow> False | Recv _ _ \<Rightarrow> False | _ \<Rightarrow> True)"

lemma silent_wire: "\<forall>p\<in>set tr. silent (fst p) \<Longrightarrow> sent fd tr = [] \<and> recvd fd tr = []"
  by (induction tr) (auto simp: silent_def sent1_def recvd1_def split: Call.splits)

lemma only_silent_wire:
  assumes "only silent os res" "res = Some (x, os')"
  obtains tr where "did os tr os'" "\<And>fd. sent fd tr = []" "\<And>fd. recvd fd tr = []"
  using onlyD [OF assms] silent_wire by metis

lemma wait_fd_wire: "ensures os (wait_fd fd event t op os) (\<lambda>_ tr. \<forall>fd. sent fd tr = [] \<and> recvd fd tr = [])"
proof -
  have "only silent os (wait_fd fd event t op os)" by (intro only_intros) (simp add: silent_def)
  then show ?thesis by (rule ensures_mono [OF ensures_only]) (blast dest: silent_wire)
qed

lemma strict_prefix_take: "strict_prefix xs (drop n ys) \<Longrightarrow> strict_prefix (take n ys @ xs) ys"
  by (metis append_take_drop_id strict_prefix_def prefix_def append_assoc same_append_eq)

lemma write_all_wire:
  "ensures os (write_all fd bytes timeout_ms os) (\<lambda>r tr. recvd fd tr = [] \<and>
     (case r of Inr _ \<Rightarrow> sent fd tr = bytes | Inl _ \<Rightarrow> strict_prefix (sent fd tr) bytes))"
proof (induction "length (script os)" arbitrary: bytes os rule: less_induct)
  case less
  show ?case
  proof (subst write_all.simps, intro ensures_intros ensures_bind [of _ "wait_fd fd POLLOUT (sint timeout_ms) ''write upstream''", OF wait_fd_wire], goal_cases)
    case 1
    then show ?case by simp
  next
    case (2 r s)
    show ?case
      by (rule ensures_mono [OF less.hyps [OF call_shorter [OF 2(2)]]])
        (auto simp: sent1_def recvd1_def split: sum.splits intro: strict_prefix_take)
  next
    case (3 r s x sa tr e)
    then show ?case by (simp add: sent1_def recvd1_def strict_prefix_def)
  next
    case (4 r s x sa tr u)
    have "length (script sa) < length (script os)"
      using call_shorter [OF 4(2)] wait_fd_le [OF 4(5)] by simp
    from less.hyps [OF this] show ?case
      by (rule ensures_mono) (use 4 in \<open>auto simp: sent1_def recvd1_def split: sum.splits\<close>)
  next
    case (5 r s)
    from less.hyps [OF call_shorter [OF 5(2)]] show ?case
      by (rule ensures_mono) (use 5 in \<open>auto simp: sent1_def recvd1_def split: sum.splits\<close>)
  next
    case (6 r s)
    then show ?case by (simp add: sent1_def recvd1_def strict_prefix_def)
  qed
qed

section \<open>The response\<close>

text \<open>Whether a response is complete depends only on its bytes.\<close>

definition response_done :: "bytes \<Rightarrow> bool" where
  "response_done bs = fst (response_complete (buffer_of (string_of_bytes bs)) empty_response)"

lemma find_head_not_Complete: "find_head t \<noteq> Inl Complete"
  by (auto simp: find_head_def Let_def split: option.splits if_splits)

lemma parse_response_bytes_indep:
  "fst (parse_response_bytes t r1) = fst (parse_response_bytes t r2) \<and>
   (fst (parse_response_bytes t r1) = Complete \<longrightarrow> parse_response_bytes t r1 = parse_response_bytes t r2)"
  using find_head_not_Complete [of t]
  by (auto simp: parse_response_bytes_def Let_def split: sum.splits option.splits prod.splits if_splits)

lemma response_complete_contents:
  assumes "rb_inv b1" "rb_inv b2" "contents b1 = contents b2"
  shows "fst (response_complete b1 p1) = fst (response_complete b2 p2)"
proof -
  have p: "peek n b1 = peek n b2" "readable b1 = readable b2" for n
    using assms by (simp_all add: rbq.peek_law readable_contents)
  let ?t = "string_of_bytes (peek (min (readable b2) (HTTP1_MAX_HEADER_BYTES + 1)) b2)"
  have e: "parse_response b1 p1 = parse_response_bytes ?t p1" "parse_response b2 p2 = parse_response_bytes ?t p2"
    by (simp_all add: parse_response_def p)
  obtain s1 r1 s2 r2 where r: "parse_response_bytes ?t p1 = (s1, r1)" "parse_response_bytes ?t p2 = (s2, r2)"
    by (metis surj_pair)
  then have "s1 = s2" "s1 = Complete \<Longrightarrow> r1 = r2" using parse_response_bytes_indep [of ?t p1 p2] by auto
  then show ?thesis unfolding response_complete_def e r p by (auto simp: Let_def)
qed

lemma response_complete_done:
  "rb_inv b \<Longrightarrow> fst (response_complete b p) \<longleftrightarrow> response_done (contents b)"
  unfolding response_done_def by (rule response_complete_contents) simp_all

text \<open>Why \<open>read_response\<close> stops with a response: it is complete, or the last call found the end of the
  stream, or the last call was a wait that failed.\<close>

definition stopped :: "bytes \<Rightarrow> (Call \<times> Reply) list \<Rightarrow> bool" where
  "stopped bs tr \<longleftrightarrow> response_done bs \<or>
     (\<exists>tr0 fd n r. tr = tr0 @ [(Recv fd n, r)] \<and> ret r = 0) \<or>
     (\<exists>tr0 fd e t r. tr = tr0 @ [(Poll fd e t, r)])"

lemma stopped_append: "stopped bs tr \<Longrightarrow> stopped bs (tr' @ tr)"
  unfolding stopped_def by (metis append_assoc)

lemma stopped_Cons: "stopped bs tr \<Longrightarrow> stopped bs (p # tr)"
  using stopped_append [of bs tr "[p]"] by simp

lemma wait_fd_poll: "ensures os (wait_fd fd event t op os) (\<lambda>_ tr. \<exists>tr0 r. tr = tr0 @ [(Poll fd event t, r)])"
proof (induction "length (script os)" arbitrary: os rule: less_induct)
  case less
  show ?case
  proof (subst wait_fd.simps, intro ensures_intros, goal_cases)
    case (5 r s)
    from less.hyps [OF call_shorter [OF 5(1)]] show ?case
      by (rule ensures_mono) (metis append_Cons)
  qed (metis append_Nil)+
qed

lemma read_loop_wire:
  assumes "rb_inv response"
  shows "ensures os (read_loop fd timeout_ms response parsed os) (\<lambda>r tr. sent fd tr = [] \<and>
     (\<forall>bs. r = Inr bs \<longrightarrow> bs = contents response @ recvd fd tr \<and> stopped bs tr))"
  using assms
proof (induction "length (script os)" arbitrary: response parsed os rule: less_induct)
  case less
  let ?w = "wait_fd fd POLLIN (sint timeout_ms) ''read upstream''"
  have pk: "peek (readable response) response = contents response"
    using less.prems by (simp add: rbq.peek_law readable_contents)
  have dn: "response_complete response parsed = (True, x) \<Longrightarrow> response_done (contents response)" for x
    using response_complete_done [OF less.prems, of parsed] by simp
  have w: "ensures s (?w s) (\<lambda>_ tr. (\<forall>fd. sent fd tr = [] \<and> recvd fd tr = []) \<and> (\<exists>tr0 r. tr = tr0 @ [(Poll fd POLLIN (sint timeout_ms), r)]))" for s
    by (intro ensures_conj wait_fd_wire wait_fd_poll)
  show ?case
  proof (subst read_loop.simps, intro ensures_intros ensures_bind [of _ ?w, OF w], goal_cases)
    case (1 complete x)
    then show ?case using dn by (simp add: pk stopped_def)
  next
    case (2 complete x)
    then show ?case by simp
  next
    case (3 complete p x s tr e)
    then show ?case by (auto simp: pk stopped_def)
  next
    case (4 complete p x s tr e)
    then show ?case by auto
  next
    case (5 complete p x s tr u r s2 a b e)
    then show ?case by (auto simp: sent1_def)
  next
    case (6 complete p x s tr u r s2 a b u2)
    have l: "length (script s2) < length (script os)" using wait_fd_le [OF 6(4)] call_shorter [OF 6(7)] by simp
    obtain b' where "append_rb (take (nat (ret r)) (out r)) response = (Inr (), b')" "rb_inv b'"
      "contents b' = contents response @ take (nat (ret r)) (out r)" using append_rb_contents [OF less.prems] .
    with 6 have b: "rb_inv b" "contents b = contents response @ take (nat (ret r)) (out r)" by auto
    from less.hyps [OF l b(1)] show ?case
      by (rule ensures_mono) (use 6 b(2) in \<open>auto simp: sent1_def recvd1_def intro: stopped_append stopped_Cons\<close>)
  next
    case (7 complete p x s tr u r s2)
    then show ?case by (auto simp: pk sent1_def recvd1_def stopped_def)
  next
    case (8 complete p x s tr u r s2)
    have l: "length (script s2) < length (script os)" using wait_fd_le [OF 8(4)] call_shorter [OF 8(7)] by simp
    from less.hyps [OF l less.prems] show ?case
      by (rule ensures_mono) (use 8 in \<open>auto simp: sent1_def recvd1_def intro: stopped_append stopped_Cons\<close>)
  next
    case (9 complete p x s tr u r s2)
    then show ?case by (auto simp: sent1_def)
  qed
qed

section \<open>An exchange\<close>

lemma only_pool [only_intros]:
  assumes "\<And>c. silent c \<Longrightarrow> Q c"
  shows "only Q os (now_ms os)" "only Q os (destroy_conn c os)" "only Q os (connect_socket ep cfg fd os)"
    "only Q os (new_connection ep cfg os)" "only Q os (release conn pool os)" "only Q os (acquire others ep pool os)"
    "only Q os (drop_conn c pool os)"
proof -
  have s: "Q c" if "silent c" for c using assms that .
  have t: "only Q os (now_ms os)" for os
    unfolding now_ms_def by (intro only_intros s) (simp add: silent_def)
  have d: "only Q os (destroy_conn c os)" for c os
    unfolding destroy_conn_def by (intro only_destroy s) (simp add: silent_def)
  have k: "only Q os (connect_socket ep cfg fd os)" for ep cfg fd os
    unfolding connect_socket_def
    by (intro only_try only_bind [of Q _ "set_nodelay fd"] only_intros only_options s; simp add: silent_def)
  have n: "only Q os (new_connection ep cfg os)" for ep cfg os
    unfolding new_connection_def
    by (intro only_bind [of Q _ "connect_socket ep cfg _"] only_bind [of Q _ "destroy_fd _"] only_bind [of Q _ now_ms]
        only_intros only_destroy t s; auto simp: silent_def intro: k)
  have r: "only Q os (release conn pool os)" for conn os
    unfolding release_def Let_def
    by (auto split: option.split intro!: only_bind [of Q _ now_ms] only_bind [of Q _ "destroy_conn _"] only_intros t d)
  show "only Q os (now_ms os)" "only Q os (destroy_conn c os)" "only Q os (connect_socket ep cfg fd os)"
    "only Q os (new_connection ep cfg os)" "only Q os (release conn pool os)"
    by (rule t d k n r)+
  show "only Q os (acquire others ep pool os)"
    unfolding acquire_def
    by (auto split: option.split sum.split prod.split
        intro!: only_bind [of Q _ "new_connection ep (up_cfg pool)"] only_intros n)
  show "only Q os (drop_conn c pool os)"
    unfolding drop_conn_def by (intro only_bind [of Q _ "release None pool"] only_bind [of Q _ "destroy_conn c"] only_intros r d)
qed

lemma silent_ensures: "only silent os res \<Longrightarrow> ensures os res (\<lambda>_ tr. \<forall>fd. sent fd tr = [] \<and> recvd fd tr = [])"
  by (rule ensures_mono [OF ensures_only], assumption) (use silent_wire in metis)

lemma read_response_wire:
  "ensures os (read_response fd timeout_ms os) (\<lambda>r tr. sent fd tr = [] \<and>
     (\<forall>bs. r = Inr bs \<longrightarrow> bs = recvd fd tr \<and> stopped bs tr))"
  using read_loop_wire [of "new_RingBuffer 65536"] by (simp add: read_response_def)

text \<open>\<open>exchanged request bs tr\<close>: within the calls \<open>tr\<close>, on one descriptor exactly the request was sent
  and then exactly \<open>bs\<close> received.\<close>

definition exchanged :: "bytes \<Rightarrow> bytes \<Rightarrow> (Call \<times> Reply) list \<Rightarrow> bool" where
  "exchanged request bs tr \<longleftrightarrow> (\<exists>fd tr0 tr1 tr2 tr3. tr = tr0 @ tr1 @ tr2 @ tr3 \<and>
     sent fd tr1 = request \<and> recvd fd tr1 = [] \<and> sent fd tr2 = [] \<and> recvd fd tr2 = bs \<and> stopped bs tr2 \<and>
     (\<forall>fd. sent fd tr3 = [] \<and> recvd fd tr3 = []))"

lemma exchangedI:
  assumes "sent fd tr1 = request" "recvd fd tr1 = []" "sent fd tr2 = []" "recvd fd tr2 = bs" "stopped bs tr2"
    and "\<And>fd. sent fd tr3 = []" "\<And>fd. recvd fd tr3 = []"
  shows "exchanged request bs (tr0 @ tr1 @ tr2 @ tr3)"
  using assms unfolding exchanged_def by blast

lemma forward_attempt_wire:
  "ensures os (forward_attempt request ep pool os) (\<lambda>(a, _) tr. \<forall>bs. a = Response bs \<longrightarrow> exchanged request bs tr)"
  unfolding forward_attempt_def
  by (intro ensures_intros ensures_bind [of _ "acquire (\<lambda>p. p) ep pool", OF silent_ensures]
      ensures_bind [of _ "write_all _ _ _", OF write_all_wire]
      ensures_bind [of _ "drop_conn _ _", OF silent_ensures]
      ensures_bind [of _ "read_response _ _", OF read_response_wire]
      ensures_bind [of _ "release _ _", OF silent_ensures] only_intros; auto intro: exchangedI)

lemma exchanged_append: "exchanged request bs tr \<Longrightarrow> exchanged request bs (tr' @ tr)"
  unfolding exchanged_def by (metis append_assoc)

lemma forward_loop_wire:
  "ensures os (forward_loop n request ep pool os) (\<lambda>(r, _) tr. \<forall>bs. r = Inr bs \<longrightarrow> exchanged request bs tr)"
proof (induction n arbitrary: os ep pool)
  case 0
  show ?case by (simp add: ensures_return)
next
  case (Suc n)
  show ?case
    unfolding forward_loop.simps
  proof (rule ensures_bind [of _ "forward_attempt request ep pool", OF forward_attempt_wire], goal_cases)
    case (1 x s tr)
    obtain a ep1 pool1 where x: "x = (a, ep1, pool1)" by (cases x)
    have again: "ensures s (forward_loop n request ep1 pool1 s)
        (\<lambda>y tr'. case y of (r, _) \<Rightarrow> \<forall>bs. r = Inr bs \<longrightarrow> exchanged request bs (tr @ tr'))"
      by (rule ensures_mono [OF Suc]) (auto intro: exchanged_append)
    show ?case
      using 1(2) again unfolding x by (cases a) (auto simp: case_prod_unfold intro!: ensures_return)
  qed
qed

lemma forward_http1_wire:
  assumes "forward_http1 req body i lb pools os = Some ((Inr bs, lb', pools'), os')"
  shows "\<exists>wire tr. request_text req (upstream_host (endpoints lb ! i)) = Inr wire \<and>
    trace os' = trace os @ tr \<and> exchanged (bytes_of_string wire @ body) bs tr"
proof -
  let ?b = "new_RingBuffer (65536 + length body)"
  obtain wire where t: "request_text req (upstream_host (endpoints lb ! i)) = Inr wire"
    using assms by (cases "request_text req (upstream_host (endpoints lb ! i))")
      (auto simp: forward_http1_def write_request_def return_io_eq_Some)
  obtain b where b: "append_str wire ?b = (Inr (), b)" "rb_inv b" "contents b = bytes_of_string wire"
    using rbq.emitsD [OF emits_append_str rb_inv_new, of wire] by (metis append_Nil contents_new)
  obtain b2 where b2: "(if body \<noteq> [] then append_rb body b else (Inr (), b)) = (Inr (), b2)" "rb_inv b2"
    "contents b2 = bytes_of_string wire @ body"
  proof (cases "body = []")
    case True
    then show thesis using that [of b] b by simp
  next
    case False
    obtain b3 where "append_rb body b = (Inr (), b3)" "rb_inv b3" "contents b3 = contents b @ body"
      using append_rb_contents [OF b(2)] .
    then show thesis using that [of b3] False b by simp
  qed
  obtain pool pools1 where g: "get_pool (endpoints lb) i pools = (pool, pools1)"
    by (cases "get_pool (endpoints lb) i pools") auto
  obtain r ep pool2 s where
    f: "forward_loop 2 (peek (readable b2) b2) (endpoints lb ! up_endpoint pool) pool os = Some ((r, ep, pool2), s)"
    using assms b(1) b2(1) t g by (auto simp: forward_http1_def write_request_def Let_def bind_io_eq_Some)
  then have "r = Inr bs" "os' = s"
    using assms b(1) b2(1) t g by (auto simp: forward_http1_def write_request_def Let_def bind_io_def return_io_def)
  moreover have "peek (readable b2) b2 = bytes_of_string wire @ body"
    using b2 by (simp add: rbq.peek_law readable_contents)
  ultimately obtain tr where "did os tr os'" "exchanged (bytes_of_string wire @ body) bs tr"
    using ensuresD [OF forward_loop_wire f] by auto
  then show ?thesis using t unfolding did_def by blast
qed

section \<open>What an exchange does to the pool\<close>

text \<open>\<open>busy\<close>: the connections the pool believes to be in use.\<close>

definition busy :: "UpstreamPool \<Rightarrow> int" where
  "busy pool = int (total_count pool) - int (idle_count pool)"

lemmas busy_defs = busy_def total_count_def idle_count_def

lemma busy_reserve:
  assumes "\<not> max_conns_per_upstream (up_cfg pool) \<le> up_total pool"
  shows "busy (pool\<lparr>up_total := up_total pool + 1\<rparr>) = busy pool + 1"
proof -
  have "unat (up_total pool + 1) = unat (up_total pool) + 1" using assms by (intro unat_succ) (simp add: not_le)
  then have "int (unat (up_total pool + 1)) = int (unat (up_total pool)) + 1" by (simp only: of_nat_add of_nat_1)
  then show ?thesis by (simp add: busy_defs)
qed

lemma acquire_busy:
  assumes "acquire (\<lambda>p. p) ep pool os = Some ((r, ep', pool'), os')" "0 \<le> busy pool"
  shows "busy pool' = busy pool + (case r of Inl _ \<Rightarrow> 0 | Inr _ \<Rightarrow> 1) \<and> 0 \<le> busy pool' \<and> up_cfg pool' = up_cfg pool"
proof (cases "up_idle pool")
  case (Cons c rest)
  then show ?thesis using assms by (auto simp: acquire_def acquire_locked_def return_io_eq_Some busy_defs)
next
  case Nil
  show ?thesis
  proof (cases "max_conns_per_upstream (up_cfg pool) \<le> up_total pool")
    case True
    then show ?thesis using Nil assms by (auto simp: acquire_def acquire_locked_def return_io_eq_Some busy_defs)
  next
    case False
    note b = busy_reserve [OF this]
    obtain x s where "new_connection ep (up_cfg pool) os = Some (x, s)"
      using Nil False assms(1) by (auto simp: acquire_def acquire_locked_def bind_io_eq_Some)
    then show ?thesis
      using Nil False assms b
      by (cases x) (auto simp: acquire_def acquire_locked_def acquire_failed_def bind_io_def return_io_def)
  qed
qed

lemma release_busy:
  assumes "release (Some c) pool os = Some (pool', os')" "1 \<le> busy pool"
  shows "busy pool' = busy pool - 1"
proof -
  have "0 < unat (up_total pool)" using assms(2) unfolding busy_defs by linarith
  from unat_pred [OF this] this have "int (unat (up_total pool - 1)) = int (unat (up_total pool)) - 1" by linarith
  with release_total [OF assms(1)] show ?thesis unfolding busy_defs by auto
qed

lemma drop_conn_pool: "drop_conn c pool os = Some (pool', os') \<Longrightarrow> pool' = pool"
  by (auto simp: drop_conn_def release_def io_elims)

section \<open>An exchange on a connection that the upstream has closed\<close>

lemma stale_attempt:
  assumes "up_idle pool = c # rest" "valid_fd (pc_fd c)" "request \<noteq> []"
    and "pc_request_count c + 1 < ucast (max_keepalive (up_cfg pool))"
    and "script os = [wrote, polled, eof, now]" "ret wrote = int (length request)"
    and "ret polled = 1" "aux polled = POLLIN" "ret eof = 0"
  shows "\<exists>c' os'. forward_attempt request ep pool os =
      Some ((Response [], ep, pool\<lparr>up_idle := rest @ [c']\<rparr>), os') \<and> pc_fd c' = pc_fd c"
proof -
  let ?c = "c\<lparr>pc_in_use := True\<rparr>" and ?pool = "pool\<lparr>up_idle := rest\<rparr>"
  have acq: "acquire (\<lambda>p. p) ep pool os = Some ((Inr ?c, ep, ?pool), os)"
    using assms(1) by (simp add: acquire_def acquire_locked_def return_io_def)
  obtain s1 where w: "write_all (pc_fd c) request 5000 os = Some (Inr (), s1)" "script s1 = [polled, eof, now]"
    using assms(3,5,6) by (auto simp: write_all.simps bind_io_def call_def return_io_def)
  obtain s2 where p: "wait_fd (pc_fd c) POLLIN (sint (5000 :: u32)) ''read upstream'' s1 = Some (Inr (), s2)" "script s2 = [eof, now]"
    using assms(7,8) w(2) by (auto simp: wait_fd.simps bind_io_def call_def return_io_def)
  have "parse_response (new_RingBuffer 65536) empty_response = (Incomplete, empty_response)"
    by (simp add: parse_response_def parse_response_bytes_def find_head_def readable_contents rbq.peek_law)
  then have d: "response_complete (new_RingBuffer 65536) empty_response = (False, empty_response)"
    by (simp add: response_complete_def)
  obtain s3 where r: "read_response (pc_fd c) 5000 s1 = Some (Inr [], s3)" "script s3 = [now]"
    using assms(9) p unfolding read_response_def
    by (auto simp: read_loop.simps d bind_io_def call_def return_io_def readable_contents MAX_PROXY_RESPONSE_BYTES_def rbq.peek_law)
  have nl: "\<not> ucast (max_keepalive (up_cfg pool)) \<le> pc_request_count c + 1" using assms(4) by (simp only: not_le)
  let ?c' = "?c\<lparr>pc_request_count := pc_request_count c + 1, pc_in_use := False, pc_last_used_at_ms := word_of_int (ret now)\<rparr>"
  obtain s4 where "release (Some (?c\<lparr>pc_request_count := pc_request_count ?c + 1\<rparr>)) ?pool s3 = Some (?pool\<lparr>up_idle := rest @ [?c']\<rparr>, s4)"
    using assms(2) r(2) nl by (auto simp: release_def now_ms_def bind_io_def call_def return_io_def Let_def)
  then have "forward_attempt request ep pool os = Some ((Response [], ep, pool\<lparr>up_idle := rest @ [?c']\<rparr>), s4)"
    using acq w(1) r(1) by (simp add: forward_attempt_def bind_io_def return_io_def)
  then show ?thesis by auto
qed

definition demo_idle :: PooledConn where
  "demo_idle = demo_conn\<lparr>pc_in_use := False\<rparr>"

definition demo_pool :: UpstreamPool where
  "demo_pool = \<lparr>up_endpoint = 0, up_cfg = demo_cfg, up_idle = [demo_idle], up_total = 1\<rparr>"

definition demo_script :: "nat \<Rightarrow> OS" where
  "demo_script n = demo_os\<lparr>script := [reply (int n), (reply 1)\<lparr>aux := POLLIN\<rparr>, reply 0, reply 9]\<rparr>"

lemma demo_attempt:
  assumes "request \<noteq> []"
  shows "\<exists>c' os'. forward_attempt request ep demo_pool (demo_script (length request)) =
      Some ((Response [], ep, demo_pool\<lparr>up_idle := [c']\<rparr>), os') \<and> pc_fd c' = 5"
  using stale_attempt [of demo_pool demo_idle "[]" request "demo_script (length request)" "reply (int (length request))"
      "(reply 1)\<lparr>aux := POLLIN\<rparr>" "reply 0" "reply 9" ep] assms
  by (simp add: demo_pool_def demo_idle_def demo_conn_def demo_cfg_def demo_script_def reply_def valid_fd_def)

definition demo_lb :: WeightedRoundRobin where
  "demo_lb = new_WeightedRoundRobin [default_upstream]"

definition demo_pools :: PoolManager where
  "demo_pools = \<lparr>pm_pools = [(ep_name (endpoints demo_lb ! 0), demo_pool)], pm_cfg = demo_cfg\<rparr>"

definition demo_get :: HttpRequest where
  "demo_get = empty_request\<lparr>req_method := ''GET'', req_target := ''/'', req_version := ''HTTP/1.1''\<rparr>"

definition demo_wire :: string where
  "demo_wire = (case request_text demo_get (upstream_host (endpoints demo_lb ! 0)) of Inl _ \<Rightarrow> [] | Inr t \<Rightarrow> t)"

lemma demo_forward_run:
  "\<exists>lb pools os. forward_http1 demo_get [] 0 demo_lb demo_pools (demo_script (length demo_wire)) = Some ((Inr [], lb, pools), os)"
proof -
  have t: "request_text demo_get (upstream_host (endpoints demo_lb ! 0)) = Inr demo_wire" "demo_wire \<noteq> []"
    by (simp_all add: demo_wire_def request_text_def demo_get_def empty_request_def map_r_def)
  obtain b where b: "append_str demo_wire (new_RingBuffer 65536) = (Inr (), b)" "rb_inv b" "contents b = bytes_of_string demo_wire"
    using rbq.emitsD [OF emits_append_str rb_inv_new, of demo_wire] by (metis append_Nil contents_new)
  then have pk: "peek (readable b) b = bytes_of_string demo_wire" by (simp add: rbq.peek_law readable_contents)
  obtain c' os' where "forward_attempt (bytes_of_string demo_wire) (endpoints demo_lb ! 0) demo_pool (demo_script (length demo_wire)) =
      Some ((Response [], endpoints demo_lb ! 0, demo_pool\<lparr>up_idle := [c']\<rparr>), os')"
    using demo_attempt [of "bytes_of_string demo_wire" "endpoints demo_lb ! 0"] t(2) by (auto simp: bytes_of_string_def)
  then have "forward_loop 2 (bytes_of_string demo_wire) (endpoints demo_lb ! 0) demo_pool (demo_script (length demo_wire)) =
      Some ((Inr [], endpoints demo_lb ! 0, demo_pool\<lparr>up_idle := [c']\<rparr>), os')"
    by (simp add: numeral_2_eq_2 bind_io_def return_io_def)
  moreover have "get_pool (endpoints demo_lb) 0 demo_pools = (demo_pool, demo_pools)" "up_endpoint demo_pool = 0"
    by (simp_all add: get_pool_def demo_pools_def demo_pool_def)
  ultimately show ?thesis
    by (simp add: forward_http1_def write_request_def t(1) b(1) pk bind_io_def return_io_def Let_def)
qed

section \<open>Properties\<close>

text \<open>Forwarding: when forward_http1 returns a response, then on one upstream connection exactly
  the serialised request followed by the body was sent, and after it exactly the returned bytes
  were received; and these form a complete response, or the upstream closed the connection, or the
  wait for more failed.\<close>

lemma forward_http1_exact:
  assumes "forward_http1 req body i lb pools os = Some ((Inr bs, lb', pools'), os')"
  shows "\<exists>wire tr. request_text req (upstream_host (endpoints lb ! i)) = Inr wire \<and>
    trace os' = trace os @ tr \<and> exchanged (bytes_of_string wire @ body) bs tr"
  using assms by (rule forward_http1_wire)

lemma forward_http1_exact_witness:
  "\<exists>tr. request_text demo_get (upstream_host (endpoints demo_lb ! 0)) = Inr demo_wire \<and>
     exchanged (bytes_of_string demo_wire @ []) [] tr"
proof -
  obtain lb pools os where "forward_http1 demo_get [] 0 demo_lb demo_pools (demo_script (length demo_wire)) = Some ((Inr [], lb, pools), os)"
    using demo_forward_run by blast
  from forward_http1_exact [OF this] show ?thesis by (auto simp: demo_wire_def)
qed

text \<open>The cost of a failure: one attempt of an exchange leaves the number of connections the pool
  believes to be in use unchanged when it succeeds or finds no connection, and raises it by one
  when the write or the read fails; nobody holds that connection any more.\<close>

lemma forward_attempt_capacity:
  assumes "forward_attempt request ep pool os = Some ((a, ep', pool'), os')" "0 \<le> busy pool"
  shows "busy pool' = busy pool + (case a of Failed _ \<Rightarrow> 1 | _ \<Rightarrow> 0)"
proof -
  obtain r ep1 pool1 s where acq: "acquire (\<lambda>p. p) ep pool os = Some ((r, ep1, pool1), s)"
    using assms(1) by (auto simp: forward_attempt_def bind_io_eq_Some)
  note b = acquire_busy [OF acq assms(2)]
  show ?thesis
  proof (cases r)
    case (Inl e)
    then show ?thesis using assms(1) acq b by (auto simp: forward_attempt_def bind_io_def return_io_def)
  next
    case (Inr conn)
    then have "1 \<le> busy pool1" using b assms(2) by simp
    note rel = release_busy [OF _ this]
    obtain w s2 where w: "write_all (pc_fd conn) request 5000 s = Some (w, s2)"
      using assms(1) acq Inr by (auto simp: forward_attempt_def bind_io_eq_Some)
    show ?thesis
    proof (cases w)
      case w_err: (Inl e)
      then show ?thesis
        using assms(1) acq Inr w b by (auto simp: forward_attempt_def bind_io_def return_io_def split: option.splits dest: drop_conn_pool)
    next
      case w_ok: (Inr u)
      obtain q s3 where q: "read_response (pc_fd conn) 5000 s2 = Some (q, s3)"
        using assms(1) acq Inr w w_ok by (auto simp: forward_attempt_def bind_io_def split: option.splits)
      show ?thesis
        using assms(1) acq Inr w w_ok q b
        by (cases q) (auto simp: forward_attempt_def bind_io_def return_io_def split: option.splits dest: drop_conn_pool rel)
    qed
  qed
qed

lemma forward_attempt_capacity_witness:
  "\<exists>ep' pool' os'. forward_attempt [1, 2] demo_ep demo_pool (demo_script 2) = Some ((Response [], ep', pool'), os') \<and>
     busy pool' = busy demo_pool"
proof -
  obtain c' os' where f: "forward_attempt [1, 2] demo_ep demo_pool (demo_script 2) =
      Some ((Response [], demo_ep, demo_pool\<lparr>up_idle := [c']\<rparr>), os')"
    using demo_attempt [of "[1, 2]" demo_ep] by (auto simp: numeral_2_eq_2)
  from forward_attempt_capacity [OF f] f show ?thesis by (auto simp: busy_defs demo_pool_def)
qed

text \<open>C37. A stale connection: when the upstream has closed a pooled connection and the kernel still
  accepts the request, the attempt succeeds with an empty response, which the client gets in place
  of an error or a retry, and the dead connection goes back to the idle ones while it has requests
  left.\<close>

theorem stale_connection_empty_response:
  assumes "up_idle pool = c # rest" "valid_fd (pc_fd c)" "request \<noteq> []"
    and "pc_request_count c + 1 < ucast (max_keepalive (up_cfg pool))"
    and "script os = [wrote, polled, eof, now]" "ret wrote = int (length request)"
    and "ret polled = 1" "aux polled = POLLIN" "ret eof = 0"
  shows "\<exists>c' os'. forward_attempt request ep pool os =
      Some ((Response [], ep, pool\<lparr>up_idle := rest @ [c']\<rparr>), os') \<and> pc_fd c' = pc_fd c"
  using assms by (rule stale_attempt)

theorem stale_connection_empty_response_witness:
  "\<exists>c' os'. forward_attempt [1, 2] demo_ep demo_pool (demo_script 2) =
      Some ((Response [], demo_ep, demo_pool\<lparr>up_idle := [] @ [c']\<rparr>), os') \<and> pc_fd c' = pc_fd demo_idle"
  by (rule stale_connection_empty_response [of demo_pool demo_idle "[]" "[1, 2]" "demo_script 2" "reply 2"
        "(reply 1)\<lparr>aux := POLLIN\<rparr>" "reply 0" "reply 9"])
    (simp_all add: demo_pool_def demo_idle_def demo_conn_def demo_cfg_def demo_script_def reply_def valid_fd_def)

end
