(* ===== verification/Client_Io.thy ===== *)
theory Client_Io
  imports Proxy_Exchange
begin

text \<open>
  What a client connection carries (\<^verbatim>\<open>read_client_input\<close>, \<^verbatim>\<open>write_client_output\<close> and
  \<^verbatim>\<open>flush_tls_ciphertext\<close> of \<^verbatim>\<open>src/proxy.cpp\<close>): no byte is lost, doubled or reordered between the socket,
  the TLS library and the two buffers, however the kernel cuts the transfers.
\<close>

section \<open>The streams of a trace\<close>

text \<open>The plaintext that came in and went out: through the TLS library when there is one, otherwise on
  the socket; and the ciphertext that the library handed out.\<close>

definition plain_in1 :: "bool \<Rightarrow> int \<Rightarrow> Call \<times> Reply \<Rightarrow> bytes" where
  "plain_in1 tls fd p =
     (if tls then (case fst p of Tls (Ssl_read n) \<Rightarrow> take (nat (ret (snd p))) (out (snd p)) | _ \<Rightarrow> []) else recvd1 fd p)"

definition plain_out1 :: "bool \<Rightarrow> int \<Rightarrow> Call \<times> Reply \<Rightarrow> bytes" where
  "plain_out1 tls fd p =
     (if tls then (case fst p of Tls (Ssl_write b) \<Rightarrow> take (nat (ret (snd p))) b | _ \<Rightarrow> []) else sent1 fd p)"

definition cipher1 :: "Call \<times> Reply \<Rightarrow> bytes" where
  "cipher1 p = (case fst p of Tls (Bio_read n) \<Rightarrow> take (nat (ret (snd p))) (out (snd p)) | _ \<Rightarrow> [])"

definition plain_in :: "bool \<Rightarrow> int \<Rightarrow> (Call \<times> Reply) list \<Rightarrow> bytes" where
  "plain_in tls fd tr = concat (map (plain_in1 tls fd) tr)"

definition plain_out :: "bool \<Rightarrow> int \<Rightarrow> (Call \<times> Reply) list \<Rightarrow> bytes" where
  "plain_out tls fd tr = concat (map (plain_out1 tls fd) tr)"

definition cipher_out :: "(Call \<times> Reply) list \<Rightarrow> bytes" where
  "cipher_out tr = concat (map cipher1 tr)"

lemma plain_in_simps [simp]:
  "plain_in tls fd [] = []" "plain_in tls fd (p # tr) = plain_in1 tls fd p @ plain_in tls fd tr"
  "plain_in tls fd (tr @ tr') = plain_in tls fd tr @ plain_in tls fd tr'"
  by (simp_all add: plain_in_def)

lemma plain_out_simps [simp]:
  "plain_out tls fd [] = []" "plain_out tls fd (p # tr) = plain_out1 tls fd p @ plain_out tls fd tr"
  "plain_out tls fd (tr @ tr') = plain_out tls fd tr @ plain_out tls fd tr'"
  by (simp_all add: plain_out_def)

lemma cipher_out_simps [simp]:
  "cipher_out [] = []" "cipher_out (p # tr) = cipher1 p @ cipher_out tr" "cipher_out (tr @ tr') = cipher_out tr @ cipher_out tr'"
  by (simp_all add: cipher_out_def)

lemmas stream_defs = plain_in1_def plain_out1_def cipher1_def sent1_def recvd1_def

text \<open>No plaintext of a TLS connection moves.\<close>

definition carries :: "Call \<Rightarrow> bool" where
  "carries c = (case c of Tls (Ssl_read _) \<Rightarrow> True | Tls (Ssl_write _) \<Rightarrow> True | _ \<Rightarrow> False)"

definition quiet :: "(Call \<times> Reply) list \<Rightarrow> bool" where
  "quiet tr = list_all (\<lambda>p. \<not> carries (fst p)) tr"

lemma quiet_simps [simp]:
  "quiet []" "quiet (p # tr) \<longleftrightarrow> \<not> carries (fst p) \<and> quiet tr" "quiet (tr @ tr') \<longleftrightarrow> quiet tr \<and> quiet tr'"
  by (simp_all add: quiet_def)

lemma carries_simps [simp]:
  "\<not> carries (Send fd b)" "\<not> carries (Recv fd n)" "\<not> carries (Tls (Bio_write b))" "\<not> carries (Tls (Bio_read n))"
  "\<not> carries (Tls Bio_should_retry)"
  by (simp_all add: carries_def)

lemma quiet_streams: "quiet tr \<Longrightarrow> plain_in True fd tr = [] \<and> plain_out True fd tr = []"
  by (induction tr) (auto simp: carries_def plain_in1_def plain_out1_def split: Call.splits TlsCall.splits)

section \<open>Ciphertext\<close>

lemma append_rb_stream: "rb_inv b \<Longrightarrow> append_rb data b = (r, b') \<Longrightarrow> r = Inr () \<and> rb_inv b' \<and> contents b' = contents b @ data"
  by (metis append_rb_contents Pair_inject)

lemma empty_contents: "readable p = 0 \<Longrightarrow> contents p = []"
  by (metis readable_contents length_0_conv)

lemma flush_pending_stream:
  "rb_inv p \<Longrightarrow> ensures os (flush_pending fd p os) (\<lambda>(r, p') tr. contents p = sent fd tr @ contents p' \<and> cipher_out tr = [] \<and> quiet tr \<and>
     rb_inv p' \<and> (r = Inr () \<longrightarrow> contents p' = []))"
proof (induction "length (script os)" arbitrary: p os rule: less_induct)
  case less
  note pk = rbq.peek_all [OF less.prems]
  note z = empty_contents [of p]
  show ?case
  proof (subst flush_pending.simps, intro ensures_intros, goal_cases)
    case (1 r s)
    from less.hyps [OF call_shorter [OF 1(2)] rb_inv_commit_read [OF less.prems]] show ?case
      by (rule ensures_mono) (auto simp: stream_defs pk contents_commit_read [OF less.prems] append_eq_conv_conj simp flip: append_assoc;
        metis append_take_drop_id append_assoc)
  next
    case (2 r s)
    from less.hyps [OF call_shorter [OF 2(2)] less.prems] show ?case
      by (rule ensures_mono) (use 2 in \<open>auto simp: stream_defs\<close>)
  qed (auto simp: stream_defs less.prems dest: z)
qed

text \<open>What \<open>send_cipher\<close> cannot send it keeps, unless the connection fails.\<close>

definition alive :: "'a result \<Rightarrow> bool" where
  "alive r \<longleftrightarrow> (\<forall>e. r = Inl e \<longrightarrow> is_would_block e)"

lemma alive_simps [simp]: "alive (Inr x)" "alive (Inl e) \<longleftrightarrow> is_would_block e" "is_would_block (from_code WouldBlock m)"
  by (simp_all add: alive_def is_would_block_def from_code_def)

lemma send_cipher_stream:
  "rb_inv p \<Longrightarrow> contents p = [] \<Longrightarrow> ensures os (send_cipher fd bytes p os) (\<lambda>(r, p') tr. cipher_out tr = [] \<and> quiet tr \<and> rb_inv p' \<and>
     (alive r \<longrightarrow> sent fd tr @ contents p' = bytes) \<and> (r = Inr () \<longrightarrow> contents p' = []))"
proof (induction "length (script os)" arbitrary: bytes p os rule: less_induct)
  case less
  show ?case
  proof (subst send_cipher.simps, intro ensures_intros, goal_cases)
    case (2 r s)
    from less.hyps [OF call_shorter [OF 2(2)] less.prems] show ?case
      by (rule ensures_mono) (auto simp: stream_defs)
  next
    case (3 r s)
    from less.hyps [OF call_shorter [OF 3(2)] less.prems] show ?case
      by (rule ensures_mono) (use 3 in \<open>auto simp: stream_defs\<close>)
  qed (auto simp: stream_defs less.prems is_would_block_def from_errno_def dest!: append_rb_stream [OF less.prems(1)])
qed

lemma take_encrypted_stream:
  "ensures os (take_encrypted n t os) (\<lambda>r tr. (\<forall>bytes. r = Inr bytes \<longrightarrow> cipher_out tr = bytes) \<and> sent fd tr = [] \<and> quiet tr \<and>
     (\<forall>e. r = Inl e \<longrightarrow> \<not> is_would_block e))"
  unfolding take_encrypted_def by (intro ensures_intros) (auto simp: stream_defs is_would_block_def from_code_def)

lemma flush_loop_stream:
  "rb_inv p \<Longrightarrow> contents p = [] \<Longrightarrow> ensures os (flush_loop fd t p os) (\<lambda>(r, p') tr. quiet tr \<and> rb_inv p' \<and>
     (alive r \<longrightarrow> sent fd tr @ contents p' = cipher_out tr) \<and> (r = Inr () \<longrightarrow> contents p' = []))"
proof (induction "length (script os)" arbitrary: p os rule: less_induct)
  case less
  show ?case
  proof (subst flush_loop.simps, intro ensures_intros ensures_bind [of _ "take_encrypted 8192 t", OF take_encrypted_stream [where fd = fd]]
      ensures_bind [of _ "send_cipher fd _ p", OF send_cipher_stream [OF less.prems]], goal_cases)
    case (4 x s tr bytes xa sa tra a p' xb)
    have "length (script sa) < length (script os)"
      using take_encrypted_consumes [of 8192 t os bytes s] 4 only_shorter [OF _ only_send_cipher [of "\<lambda>_. True"]] by fastforce
    moreover have "rb_inv p'" "contents p' = []" using 4 by auto
    ultimately have "ensures sa (flush_loop fd t p' sa) (\<lambda>(r, p') tr. quiet tr \<and> rb_inv p' \<and>
     (alive r \<longrightarrow> sent fd tr @ contents p' = cipher_out tr) \<and> (r = Inr () \<longrightarrow> contents p' = []))" by (rule less.hyps)
    then show ?case by (rule ensures_mono) (use 4 in auto)
  qed (auto simp: less.prems)
qed

lemma flush_tls_stream:
  assumes "rb_inv (tls_pending c)" "tls_conn c = Some t"
  shows "ensures os (flush_tls_ciphertext c fd os) (\<lambda>(r, c') tr. \<exists>p. c' = c\<lparr>tls_pending := p\<rparr> \<and> rb_inv p \<and> quiet tr \<and>
     (alive r \<longrightarrow> sent fd tr @ contents p = contents (tls_pending c) @ cipher_out tr) \<and> (r = Inr () \<longrightarrow> contents p = []))"
  unfolding flush_tls_ciphertext_def assms(2) option.case
proof (rule ensures_bind [OF flush_pending_stream [OF assms(1)]], intro ensures_intros, goal_cases)
  case (2 x s tr q p u)
  then have p: "rb_inv p" "contents p = []" by auto
  show ?case
    by (rule ensures_bind [OF flush_loop_stream [OF p]], intro ensures_intros) (use 2 in auto)
qed auto

section \<open>Input\<close>

lemma append_client_stream:
  "rb_inv (rbuf c) \<Longrightarrow> append_client_plaintext c data = (r, c') \<Longrightarrow>
     r = Inr () \<and> (\<exists>b. c' = c\<lparr>rbuf := b\<rparr> \<and> rb_inv b \<and> contents b = contents (rbuf c) @ data)"
proof (cases "append_rb data (rbuf c)")
  case (Pair q b)
  assume "rb_inv (rbuf c)" "append_client_plaintext c data = (r, c')"
  with append_rb_stream [of "rbuf c", OF _ Pair] Pair show ?thesis
    by (intro conjI exI [of _ b]) (simp_all add: append_client_plaintext_def)
qed

lemma recv_loop_plain:
  "rb_inv (rbuf c) \<Longrightarrow> tls_conn c = None \<Longrightarrow> ensures os (recv_loop fd c os) (\<lambda>(r, c') tr. \<exists>b. c' = c\<lparr>rbuf := b\<rparr> \<and> rb_inv b \<and>
     contents b = contents (rbuf c) @ plain_in False fd tr \<and> plain_out False fd tr = [])"
proof (induction "length (script os)" arbitrary: c os rule: less_induct)
  case less
  have self: "\<exists>b. c = c\<lparr>rbuf := b\<rparr> \<and> rb_inv b \<and> contents b = contents (rbuf c)" using less.prems by (intro exI [of _ "rbuf c"]) simp
  show ?case
  proof (subst recv_loop.simps, simp only: less.prems(2) option.case, intro ensures_intros, goal_cases)
    case (1 r s x c1 e)
    then show ?case using append_client_stream [OF less.prems(1)] by fastforce
  next
    case (2 r s x c1 u)
    obtain b where b: "c1 = c\<lparr>rbuf := b\<rparr>" "rb_inv b" "contents b = contents (rbuf c) @ take (nat (ret r)) (out r)"
      using append_client_stream [OF less.prems(1)] 2 by blast
    from less.hyps [OF call_shorter [OF 2(1)], of c1] b less.prems(2) show ?case
      by (auto elim!: ensures_mono simp: stream_defs)
  next
    case (4 r s)
    from less.hyps [OF call_shorter [OF 4(1)] less.prems] show ?case
      by (rule ensures_mono) (use 4 in \<open>auto simp: stream_defs\<close>)
  qed (use self in \<open>auto simp: stream_defs\<close>)
qed

lemma recv_loop_tls:
  "tls_conn c = Some t \<Longrightarrow> ensures os (recv_loop fd c os) (\<lambda>(r, c') tr. c' = c \<and> quiet tr \<and> sent fd tr = [] \<and> cipher_out tr = [] \<and> (\<forall>e. r = Inl e \<longrightarrow> \<not> is_would_block e))"
proof (induction "length (script os)" arbitrary: os rule: less_induct)
  case less
  have f: "ensures s (feed_encrypted data t s) (\<lambda>r tr. quiet tr \<and> sent fd tr = [] \<and>
     cipher_out tr = [] \<and> (\<forall>e. r = Inl e \<longrightarrow> \<not> is_would_block e))" for data s
    unfolding feed_encrypted_def by (intro ensures_intros) (simp_all add: stream_defs is_would_block_def from_code_def)
  show ?case
  proof (subst recv_loop.simps, simp only: less.prems option.case,
      intro ensures_intros ensures_bind [of _ "feed_encrypted _ t", OF f], goal_cases)
    case (2 r s x s2 tr u)
    have "length (script s2) < length (script os)" using call_shorter [OF 2(1)] feed_encrypted_le [OF 2(3)] by simp
    from less.hyps [OF this less.prems] show ?case
      by (rule ensures_mono) (use 2 in \<open>auto simp: stream_defs\<close>)
  next
    case (4 r s)
    from less.hyps [OF call_shorter [OF 4(1)] less.prems] show ?case by (rule ensures_mono) (auto simp: stream_defs)
  qed (auto simp: stream_defs is_would_block_def from_errno_def)
qed

lemma tls_read_stream:
  "ensures os (tls_read n t os) (\<lambda>r tr. plain_in True fd tr = (case r of Inr bs \<Rightarrow> bs | Inl _ \<Rightarrow> []) \<and> plain_out True fd tr = [] \<and>
     sent fd tr = [] \<and> cipher_out tr = [])"
  unfolding tls_read_def by (intro ensures_intros) (simp_all add: stream_defs)

lemma decrypt_loop_stream:
  "rb_inv (rbuf c) \<Longrightarrow> ensures os (decrypt_loop t c os) (\<lambda>(r, c') tr. \<exists>b. c' = c\<lparr>rbuf := b\<rparr> \<and> rb_inv b \<and>
     contents b = contents (rbuf c) @ plain_in True fd tr \<and> plain_out True fd tr = [] \<and> sent fd tr = [] \<and> cipher_out tr = [] \<and>
     (\<forall>e. r = Inl e \<longrightarrow> \<not> is_would_block e))"
proof (induction "length (script os)" arbitrary: c os rule: less_induct)
  case less
  have self: "\<exists>b. c = c\<lparr>rbuf := b\<rparr> \<and> rb_inv b \<and> contents b = contents (rbuf c)" using less.prems by (intro exI [of _ "rbuf c"]) simp
  show ?case
  proof (subst decrypt_loop.simps, intro ensures_intros ensures_bind [of _ "tls_read 8192 t", OF tls_read_stream [where fd = fd]], goal_cases)
    case (3 x s tr bytes y c1 e)
    then show ?case using append_client_stream [OF less.prems(1)] by fastforce
  next
    case (4 x s tr bytes y c1 u)
    obtain b where b: "c1 = c\<lparr>rbuf := b\<rparr>" "rb_inv b" "contents b = contents (rbuf c) @ bytes"
      using append_client_stream [OF less.prems(1)] 4 by blast
    have "length (script s) < length (script os)" using 4 by (auto dest: tls_read_consumes)
    from less.hyps [OF this, of c1] b 4 show ?case by (auto elim!: ensures_mono)
  qed (use self in auto)
qed

text \<open>Ciphertext that the library handed out is sent, or kept to be sent first.\<close>

definition cipher_kept :: "int \<Rightarrow> RingBuffer \<Rightarrow> RingBuffer \<Rightarrow> (Call \<times> Reply) list \<Rightarrow> bool" where
  "cipher_kept fd p p' tr \<longleftrightarrow> sent fd tr @ contents p' = contents p @ cipher_out tr"

lemma cipher_kept_trans: "cipher_kept fd p p' tr \<Longrightarrow> cipher_kept fd p' p'' tr' \<Longrightarrow> cipher_kept fd p p'' (tr @ tr')"
  unfolding cipher_kept_def by (metis append_assoc cipher_out_simps(3) sent_simps(3))

lemma read_client_input_stream:
  assumes "rb_inv (rbuf c)" "rb_inv (tls_pending c)" "tls = (tls_conn c \<noteq> None)"
  shows "ensures os (read_client_input c fd os) (\<lambda>(r, c') tr. c' = c\<lparr>rbuf := rbuf c', tls_pending := tls_pending c'\<rparr> \<and>
     rb_inv (rbuf c') \<and> rb_inv (tls_pending c') \<and> contents (rbuf c') = contents (rbuf c) @ plain_in tls fd tr \<and> plain_out tls fd tr = [] \<and>
     (tls \<and> is_ok r \<longrightarrow> cipher_kept fd (tls_pending c) (tls_pending c') tr))"
proof (cases "tls_conn c")
  case None
  then have f: "\<not> tls" using assms(3) by simp
  show ?thesis
    unfolding read_client_input_def
  proof (rule ensures_bind [OF recv_loop_plain [OF assms(1) None]], goal_cases)
    case (1 q s tr)
    then obtain r b where q: "q = (r, c\<lparr>rbuf := b\<rparr>)" "rb_inv b" "contents b = contents (rbuf c) @ plain_in False fd tr" "plain_out False fd tr = []"
      by (cases q) auto
    with assms(2) None f show ?case by (cases r) (auto intro!: ensures_return)
  qed
next
  case (Some t)
  then have tls: "tls" using assms(3) by simp
  show ?thesis
    unfolding read_client_input_def
  proof (rule ensures_bind [OF recv_loop_tls [OF Some]], goal_cases)
    case (1 q s tr)
    then obtain r where q: "q = (r, c)" "quiet tr" "sent fd tr = []" "cipher_out tr = []" by (cases q) auto
    note st = quiet_streams [OF q(2)]
    show ?case
    proof (cases r)
      case (Inl e)
      with q st tls assms show ?thesis by (auto intro!: ensures_return)
    next
      case (Inr eof)
      show ?thesis
        unfolding q(1) Inr prod.case sum.case Some option.case
      proof (rule ensures_bind [OF decrypt_loop_stream [OF assms(1), where fd = fd]], goal_cases)
        case (1 d s2 tr2)
        then obtain r2 b where d: "d = (r2, c\<lparr>rbuf := b\<rparr>)" "rb_inv b" "contents b = contents (rbuf c) @ plain_in True fd tr2"
          "plain_out True fd tr2 = []" "sent fd tr2 = []" "cipher_out tr2 = []" by (cases d) auto
        show ?case
        proof (cases r2)
          case (Inl e)
          with q d st tls assms show ?thesis by (auto intro!: ensures_return)
        next
          case (Inr u)
          have p: "rb_inv (tls_pending (c\<lparr>rbuf := b\<rparr>))" "tls_conn (c\<lparr>rbuf := b\<rparr>) = Some t" using assms(2) Some by simp_all
          show ?thesis
            unfolding d(1) Inr prod.case sum.case
          proof (rule ensures_bind [OF flush_tls_stream [OF p]], goal_cases)
            case (1 f s3 tr3)
            then obtain r3 p where f: "f = (r3, c\<lparr>rbuf := b, tls_pending := p\<rparr>)" "rb_inv p" "quiet tr3"
              "alive r3 \<longrightarrow> sent fd tr3 @ contents p = contents (tls_pending c) @ cipher_out tr3" by (cases f) auto
            with q d st tls quiet_streams [OF f(3), of fd] show ?case
              by (cases r3) (auto simp: cipher_kept_def intro!: ensures_return)
          qed
        qed
      qed
    qed
  qed
qed

section \<open>Output\<close>

lemma tls_write_stream:
  "ensures os (tls_write data t os) (\<lambda>r tr. plain_out True fd tr = (case r of Inr n \<Rightarrow> take n data | Inl _ \<Rightarrow> []) \<and>
     plain_in True fd tr = [] \<and> sent fd tr = [] \<and> cipher_out tr = [])"
  unfolding tls_write_def by (intro ensures_intros) (simp_all add: stream_defs)

text \<open>\<open>gave fd c r c' tr\<close>: the output buffer was written in order up to what is left of it.\<close>

definition gave :: "int \<Rightarrow> ClientConn \<Rightarrow> unit result \<Rightarrow> ClientConn \<Rightarrow> (Call \<times> Reply) list \<Rightarrow> bool" where
  "gave fd c r c' tr \<longleftrightarrow> (let tls = (tls_conn c \<noteq> None) in
     c' = c\<lparr>wbuf := wbuf c', tls_pending := tls_pending c'\<rparr> \<and> rb_inv (wbuf c') \<and> rb_inv (tls_pending c') \<and>
     plain_out tls fd tr @ contents (wbuf c') = contents (wbuf c) \<and> plain_in tls fd tr = [] \<and>
     (tls \<and> alive r \<longrightarrow> cipher_kept fd (tls_pending c) (tls_pending c') tr) \<and>
     (r = Inr () \<longrightarrow> contents (wbuf c') = [] \<and> (tls \<longrightarrow> contents (tls_pending c') = [])))"

lemma gave_step:
  assumes "gave fd (c\<lparr>wbuf := commit_read n (wbuf c), tls_pending := p\<rparr>) r c' tr'" "rb_inv (wbuf c)"
    and "plain_out (tls_conn c \<noteq> None) fd tr = take n (contents (wbuf c))" "plain_in (tls_conn c \<noteq> None) fd tr = []"
    and "tls_conn c \<noteq> None \<Longrightarrow> cipher_kept fd (tls_pending c) p tr"
  shows "gave fd c r c' (tr @ tr')"
  using assms cipher_kept_trans [OF assms(5), of "tls_pending c'" tr']
  by (auto simp: gave_def Let_def contents_commit_read)

lemmas quiet_plain = quiet_streams [THEN conjunct1] quiet_streams [THEN conjunct2]

lemma flush_kept:
  assumes "rb_inv (tls_pending c)" "tls_conn c = Some t"
  shows "ensures os (flush_tls_ciphertext c fd os) (\<lambda>(r, c') tr. \<exists>p. quiet tr \<and> c' = c\<lparr>tls_pending := p\<rparr> \<and> rb_inv p \<and>
     (alive r \<longrightarrow> cipher_kept fd (tls_pending c) p tr) \<and> (r = Inr () \<longrightarrow> contents p = []))"
  by (rule ensures_mono [OF flush_tls_stream [OF assms]]) (auto simp: cipher_kept_def)

lemma write_plain_stream:
  "rb_inv (wbuf c) \<Longrightarrow> rb_inv (tls_pending c) \<Longrightarrow> tls_conn c = None \<Longrightarrow>
     ensures os (write_client_output c fd os) (\<lambda>(r, c') tr. gave fd c r c' tr)"
proof (induction "length (script os)" arbitrary: c os rule: less_induct)
  case less
  note pk = rbq.peek_all [OF less.prems(1)] and z = empty_contents [of "wbuf c"]
  show ?case
  proof (subst write_client_output.simps, unfold Let_def less.prems(3) option.case, intro ensures_intros, goal_cases)
    case (1 r s)
    let ?c = "c\<lparr>wbuf := commit_read (nat (ret r)) (wbuf c)\<rparr>"
    have "ensures s (write_client_output ?c fd s) (\<lambda>(r, c') tr. gave fd ?c r c' tr)"
      using less.hyps [OF call_shorter [OF 1(2)], of ?c] less.prems by (simp add: rb_inv_commit_read)
    then show ?case
    proof (rule ensures_mono, clarify)
      fix q c' tr' assume "gave fd ?c q c' tr'"
      then show "gave fd c q c' ((Send fd (peek (readable (wbuf c)) (wbuf c)), r) # tr')"
        using gave_step [where c = c and n = "nat (ret r)" and p = "tls_pending c" and tr = "[(Send fd (peek (readable (wbuf c)) (wbuf c)), r)]"] less.prems
        by (simp add: stream_defs pk)
    qed
  next
    case (2 r s)
    from less.hyps [OF call_shorter [OF 2(2)] less.prems] show ?case
      by (rule ensures_mono) (use 2 less.prems in \<open>auto simp: gave_def Let_def stream_defs\<close>)
  qed (use less.prems in \<open>auto simp: gave_def Let_def stream_defs dest: z\<close>)
qed

lemma write_tls_stream:
  "rb_inv (wbuf c) \<Longrightarrow> rb_inv (tls_pending c) \<Longrightarrow> tls_conn c = Some t \<Longrightarrow>
     ensures os (write_client_output c fd os) (\<lambda>(r, c') tr. gave fd c r c' tr)"
proof (induction "length (script os)" arbitrary: c os rule: less_induct)
  case less
  note pk = rbq.peek_all [OF less.prems(1)] and fl = flush_kept [OF less.prems(2,3)] and z = empty_contents [of "wbuf c"]
  show ?case
  proof (cases "readable (wbuf c) > 0")
    case False
    then show ?thesis
      by (subst write_client_output.simps, simp only: less.prems(3) option.case if_False)
        (rule ensures_mono [OF fl], use less.prems z in \<open>auto simp: gave_def Let_def quiet_plain\<close>)
  next
    case True
    show ?thesis
    proof (subst write_client_output.simps, simp only: True if_True Let_def less.prems(3) option.case,
        rule ensures_bind [OF tls_write_stream [where fd = fd]], goal_cases)
      case (1 w s tr)
      show ?case
      proof (cases w)
        case (Inl e)
        show ?thesis
          unfolding Inl sum.case
          by (intro ensures_intros ensures_bind [OF fl])
            (use 1 Inl less.prems in \<open>auto simp: gave_def Let_def cipher_kept_def quiet_plain\<close>)
      next
        case (Inr n)
        let ?c = "c\<lparr>wbuf := commit_read n (wbuf c)\<rparr>"
        have c: "rb_inv (wbuf ?c)" "rb_inv (tls_pending ?c)" "tls_conn ?c = Some t" using less.prems by (simp_all add: rb_inv_commit_read)
        show ?thesis
          unfolding Inr sum.case
        proof (rule ensures_bind [OF flush_kept [OF c(2,3)]], goal_cases)
          case f: (1 q s2 tr2)
          obtain r2 p where q: "q = (r2, ?c\<lparr>tls_pending := p\<rparr>)" and c2: "quiet tr2" "rb_inv p"
            "alive r2 \<longrightarrow> cipher_kept fd (tls_pending c) p tr2" "r2 = Inr () \<longrightarrow> contents p = []"
            using f(2) by (cases q) auto
          note st = quiet_streams [OF c2(1), of fd]
          have w: "plain_out True fd tr = take n (contents (wbuf c))" "plain_in True fd tr = []" "sent fd tr = []" "cipher_out tr = []"
            using 1 Inr pk by auto
          then have k: "cipher_kept fd (tls_pending c) p (tr @ tr2)" if "alive r2" using c2(3) that by (simp add: cipher_kept_def)
          show ?case
          proof (cases r2)
            case (Inl e)
            have "gave fd c (Inl e) (?c\<lparr>tls_pending := p\<rparr>) (tr @ tr2)"
              using c2(2) w(1,2) st k less.prems Inl by (auto simp: gave_def Let_def contents_commit_read rb_inv_commit_read)
            with q Inl show ?thesis by (auto intro!: ensures_return)
          next
            case (Inr u)
            have "length (script s2) < length (script os)"
              using tls_write_consumes [of _ t os n s] 1(1) \<open>w = Inr n\<close> flush_tls_le [OF f(1)] by fastforce
            from less.hyps [OF this, of "?c\<lparr>tls_pending := p\<rparr>"] c c2(2)
            have "ensures s2 (write_client_output (?c\<lparr>tls_pending := p\<rparr>) fd s2) (\<lambda>(r, c') tr. gave fd (?c\<lparr>tls_pending := p\<rparr>) r c' tr)" by simp
            then have "ensures s2 (write_client_output (?c\<lparr>tls_pending := p\<rparr>) fd s2) (\<lambda>(r, c') tr'. gave fd c r c' ((tr @ tr2) @ tr'))"
            proof (rule ensures_mono, clarify)
              fix r' c' tr' assume "gave fd (?c\<lparr>tls_pending := p\<rparr>) r' c' tr'"
              then show "gave fd c r' c' ((tr @ tr2) @ tr')"
                using w(1,2) st k Inr less.prems by (intro gave_step [where c = c and n = n and p = p]) simp_all
            qed
            with q Inr show ?thesis by (simp add: case_prod_unfold)
          qed
        qed
      qed
    qed
  qed
qed
lemma write_gave:
  assumes "write_client_output c fd os = Some ((r, c'), os')" "rb_inv (wbuf c)" "rb_inv (tls_pending c)"
  shows "\<exists>tr. trace os' = trace os @ tr \<and> gave fd c r c' tr"
proof -
  have "ensures os (write_client_output c fd os) (\<lambda>(r, c') tr. gave fd c r c' tr)"
    using write_plain_stream [OF assms(2,3)] write_tls_stream [OF assms(2,3)] by (cases "tls_conn c") auto
  from ensuresD [OF this assms(1)] obtain tr where "did os tr os'" "(case (r, c') of (r, c') \<Rightarrow> gave fd c r c') tr" .
  then show ?thesis by (intro exI [of _ tr]) (simp add: did_def)
qed

section \<open>Properties\<close>

definition demo_tls_client :: ClientConn where
  "demo_tls_client = new_ClientConn\<lparr>cc_fd := 7, tls_conn := Some ((new_TLSConn None True)\<lparr>t_ssl := True, handshake_done := True\<rparr>),
     wbuf := buffer_of ''ok''\<rparr>"



text \<open>C20. Client output is exact: whatever \<open>write_client_output\<close> returns, the plaintext written during the
  call, to the socket or to the TLS library, followed by what is left in the output buffer is
  exactly what the buffer held; success means that nothing is left, neither plaintext nor
  ciphertext; and unless the connection failed, ciphertext is neither lost, doubled nor reordered.
  A \<^verbatim>\<open>send\<close> that takes a part, or blocks, changes nothing of this.\<close>

theorem client_output_exact:
  assumes "write_client_output c fd os = Some ((r, c'), os')" "rb_inv (wbuf c)" "rb_inv (tls_pending c)"
  shows "\<exists>tr. trace os' = trace os @ tr \<and> c' = c\<lparr>wbuf := wbuf c', tls_pending := tls_pending c'\<rparr> \<and>
    plain_out (tls_conn c \<noteq> None) fd tr @ contents (wbuf c') = contents (wbuf c) \<and> plain_in (tls_conn c \<noteq> None) fd tr = [] \<and>
    (r = Inr () \<longrightarrow> contents (wbuf c') = [] \<and> (tls_conn c \<noteq> None \<longrightarrow> contents (tls_pending c') = [])) \<and>
    (tls_conn c \<noteq> None \<and> alive r \<longrightarrow>
       sent fd tr @ contents (tls_pending c') = contents (tls_pending c) @ cipher_out tr)"
  using write_gave [OF assms] by (auto simp: gave_def Let_def cipher_kept_def)

theorem client_output_exact_witness:
  "\<exists>c' os'. write_client_output demo_tls_client 7 (demo_os\<lparr>script := [reply 2, (reply 3)\<lparr>out := [1, 2, 3]\<rparr>, reply 1,
        (reply (- 1))\<lparr>err := EAGAIN\<rparr>]\<rparr>) = Some ((Inl (from_code WouldBlock ''tls write''), c'), os') \<and> contents (wbuf c') = [] \<and>
     [1] @ contents (tls_pending c') = [1, 2, 3]"
proof -
  let ?os = "demo_os\<lparr>script := [reply 2, (reply 3)\<lparr>out := [1, 2, 3]\<rparr>, reply 1, (reply (- 1))\<lparr>err := EAGAIN\<rparr>]\<rparr>"
  have inv: "rb_inv (wbuf demo_tls_client)" "rb_inv (tls_pending demo_tls_client)" "contents (wbuf demo_tls_client) = bytes_of_string ''ok''"
    "contents (tls_pending demo_tls_client) = []" "tls_conn demo_tls_client \<noteq> None"
    by (simp_all add: demo_tls_client_def buffer_of new_ClientConn_def)
  have e: "readable (tls_pending c) = 0" "peek (readable (wbuf c)) (wbuf c) = bytes_of_string ''ok''" "0 < readable (wbuf c)"
    if "c = demo_tls_client" for c
    using inv that rbq.peek_all [OF inv(1)] by (simp_all add: readable_contents)
  obtain p where p: "append_rb [2, 3] (tls_pending demo_tls_client) = (Inr (), p)" using append_rb_contents [OF inv(2), of "[2, 3]"] by metis
  let ?tr = "[(Tls (Ssl_write (bytes_of_string ''ok'')), reply 2), (Tls (Bio_read 8192), (reply 3)\<lparr>out := [1, 2, 3]\<rparr>),
     (Send 7 [1, 2, 3], reply 1), (Send 7 [2, 3], (reply (- 1))\<lparr>err := EAGAIN\<rparr>)]"
  obtain c' os' where r: "write_client_output demo_tls_client 7 ?os = Some ((Inl (from_code WouldBlock ''tls write''), c'), os')"
    "trace os' = trace ?os @ ?tr"
  proof -
    obtain t where t: "tls_conn demo_tls_client = Some t" "t_ssl t" "handshake_done t" by (simp add: demo_tls_client_def)
    let ?c = "demo_tls_client\<lparr>wbuf := commit_read 2 (wbuf demo_tls_client)\<rparr>"
    obtain s where s: "tls_write (bytes_of_string ''ok'') t ?os = Some (Inr 2, s)" "script s = tl (script ?os)"
      "trace s = trace ?os @ take 1 ?tr"
      using t by (simp add: tls_write_def bind_io_def call_def return_io_def reply_def)
    obtain s2 where s2: "flush_tls_ciphertext ?c 7 s = Some ((Inl (from_code WouldBlock ''tls write''), ?c\<lparr>tls_pending := p\<rparr>), s2)"
      "trace s2 = trace s @ drop 1 ?tr"
      using t s(2) p e(1) [OF refl]
      by (simp add: flush_tls_ciphertext_def flush_pending.simps flush_loop.simps send_cipher.simps take_encrypted_def
          bind_io_def call_def return_io_def reply_def)
    have "write_client_output demo_tls_client 7 ?os = Some ((Inl (from_code WouldBlock ''tls write''), ?c\<lparr>tls_pending := p\<rparr>), s2)"
      using t(1) s(1) s2(1) e(2,3) [OF refl] by (subst write_client_output.simps) (simp add: Let_def bind_io_def return_io_def)
    then show thesis using s(3) s2(2) by (intro that [of "?c\<lparr>tls_pending := p\<rparr>" s2]) simp_all
  qed
  from client_output_exact [OF r(1) inv(1,2)] r(2) inv(3-5) have "plain_out True 7 ?tr @ contents (wbuf c') = bytes_of_string ''ok''"
    "sent 7 ?tr @ contents (tls_pending c') = cipher_out ?tr" by auto
  then show ?thesis using r(1) by (auto simp: stream_defs reply_def bytes_of_string_def)
qed

end
