(* ===== verification/Event_Loop.thy ===== *)
theory Event_Loop
  imports Os "HOL-Library.Signed_Division"
begin

text \<open>
  The event loop (\<^verbatim>\<open>include/uproxy/event_loop.h\<close>) and its two implementations, on epoll
  (\<^verbatim>\<open>src/event_loop_epoll.cpp\<close>) and on kqueue (\<^verbatim>\<open>src/event_loop_kqueue.cpp\<close>).

  A callback of the source changes the objects it captures, the loop included.  \<open>poll\<close> is therefore
  a function on the state \<open>'s\<close> of the loop's owner: \<open>get\<close> and \<open>put\<close> read and replace the loop in it,
  \<open>cb\<close> is the callback for descriptors, and \<open>fn\<close> runs a timer's callback, which is a value of type
  \<open>'cb\<close>.  The hash maps are lists of pairs with distinct keys.  \<^verbatim>\<open>user_data\<close> is never read.
\<close>

unbundle bit_operations_syntax

section \<open>Events\<close>

type_synonym Event = u32

abbreviation (input) EvNone :: Event where "EvNone \<equiv> 0"
abbreviation (input) EvRead :: Event where "EvRead \<equiv> 0x1"
abbreviation (input) EvWrite :: Event where "EvWrite \<equiv> 0x2"
abbreviation (input) EvHangUp :: Event where "EvHangUp \<equiv> 0x4"
abbreviation (input) EvError :: Event where "EvError \<equiv> 0x8"

definition has :: "Event \<Rightarrow> Event \<Rightarrow> bool" where
  "has s flag \<longleftrightarrow> s AND flag \<noteq> 0"

record FiredEvent =
  fe_fd :: int
  fe_events :: Event

section \<open>The loop on epoll\<close>

abbreviation (input) EPOLLIN :: u32 where "EPOLLIN \<equiv> 0x1"
abbreviation (input) EPOLLOUT :: u32 where "EPOLLOUT \<equiv> 0x4"
abbreviation (input) EPOLLERR :: u32 where "EPOLLERR \<equiv> 0x8"
abbreviation (input) EPOLLHUP :: u32 where "EPOLLHUP \<equiv> 0x10"
abbreviation (input) EPOLLRDHUP :: u32 where "EPOLLRDHUP \<equiv> 0x2000"
abbreviation (input) EPOLLET :: u32 where "EPOLLET \<equiv> 0x80000000"

record 'cb Timer =
  t_id :: u64
  t_tfd :: Uniquefd
  t_cb :: 'cb

record 'cb EpollLoop =
  epfd :: Uniquefd
  timer_fd_to_id :: "(int \<times> u64) list"
  timers :: "(u64 \<times> 'cb Timer) list"
  next_timer_id :: u64

definition new_EpollLoop :: "'cb EpollLoop io" where
  "new_EpollLoop =
     bind_io (call (Loop Epoll_create))
       (\<lambda>r. return_io \<lparr>epfd = ret r, timer_fd_to_id = [], timers = [], next_timer_id = 1\<rparr>)"

definition to_epoll :: "Event \<Rightarrow> u32" where
  "to_epoll e =
     (let out0 = EPOLLET;
          out1 = (if has e EvRead then out0 OR (EPOLLIN OR EPOLLRDHUP) else out0)
      in if has e EvWrite then out1 OR EPOLLOUT else out1)"

definition from_epoll :: "u32 \<Rightarrow> Event" where
  "from_epoll ep =
     (let out0 = EvNone;
          out1 = (if ep AND EPOLLIN \<noteq> 0 then out0 OR EvRead else out0);
          out2 = (if ep AND EPOLLOUT \<noteq> 0 then out1 OR EvWrite else out1);
          out3 = (if ep AND (EPOLLHUP OR EPOLLRDHUP) \<noteq> 0 then out2 OR EvHangUp else out2)
      in if ep AND EPOLLERR \<noteq> 0 then out3 OR EvError else out3)"

definition add :: "int \<Rightarrow> Event \<Rightarrow> 'cb EpollLoop \<Rightarrow> unit result io" where
  "add fd events l =
     bind_io (call (Loop (Epoll_add fd (to_epoll events)))) (\<lambda>r.
       if ret r < 0 then return_io (Inl (from_errno (err r) ''epoll add'')) else return_io (Inr ()))"

definition modify :: "int \<Rightarrow> Event \<Rightarrow> 'cb EpollLoop \<Rightarrow> unit result io" where
  "modify fd events l =
     bind_io (call (Loop (Epoll_mod fd (to_epoll events)))) (\<lambda>r.
       if ret r < 0 then return_io (Inl (from_errno (err r) ''epoll mod'')) else return_io (Inr ()))"

definition remove :: "int \<Rightarrow> 'cb EpollLoop \<Rightarrow> unit result io" where
  "remove fd l =
     bind_io (call (Loop (Epoll_del fd))) (\<lambda>r.
       if ret r < 0 \<and> err r \<noteq> ENOENT then return_io (Inl (from_errno (err r) ''epoll del''))
       else return_io (Inr ()))"

definition add_timer :: "int \<Rightarrow> 'cb \<Rightarrow> 'cb EpollLoop \<Rightarrow> (u64 result \<times> 'cb EpollLoop) io" where
  "add_timer delay_ms cb l =
     bind_io (call Timerfd_create) (\<lambda>c.
       let tfd = ret c in
       if \<not> valid_fd tfd then return_io (Inl (from_errno (err c) ''timerfd_create''), l)
       else bind_io (call (Loop (Timerfd_settime tfd (delay_ms sdiv 1000) (delay_ms smod 1000 * 1000000)))) (\<lambda>s.
         if ret s < 0
         then bind_io (destroy_fd tfd) (\<lambda>_. return_io (Inl (from_errno (err s) ''timerfd_settime''), l))
         else let tid = next_timer_id l; l1 = l\<lparr>next_timer_id := tid + 1\<rparr> in
           bind_io (call (Loop (Epoll_add tfd (EPOLLIN OR EPOLLET)))) (\<lambda>e.
             if ret e < 0
             then bind_io (destroy_fd tfd) (\<lambda>_. return_io (Inl (from_errno (err e) ''epoll add timer''), l1))
             else let l2 = l1\<lparr>timer_fd_to_id := assign tfd tid (timer_fd_to_id l1)\<rparr> in
               if tid \<in> fst ` set (timers l2)
               then bind_io (destroy_fd tfd) (\<lambda>_. return_io (Inr tid, l2))
               else return_io (Inr tid, l2\<lparr>timers := timers l2 @ [(tid, \<lparr>t_id = tid, t_tfd = tfd, t_cb = cb\<rparr>)]\<rparr>))))"

definition cancel_timer :: "u64 \<Rightarrow> 'cb EpollLoop \<Rightarrow> (unit result \<times> 'cb EpollLoop) io" where
  "cancel_timer tid l =
     (case map_of (timers l) tid of
        None \<Rightarrow> return_io (Inr (), l)
      | Some t \<Rightarrow>
          bind_io (call (Loop (Epoll_del (t_tfd t)))) (\<lambda>_.
            bind_io (destroy_fd (t_tfd t)) (\<lambda>_.
              return_io (Inr (), l\<lparr>timer_fd_to_id := erase (t_tfd t) (timer_fd_to_id l), timers := erase tid (timers l)\<rparr>))))"

text \<open>One event of \<^verbatim>\<open>poll\<close>: a timer's entry is removed (\<open>fire_timer\<close>) before its callback runs.\<close>

definition fire_timer :: "int \<Rightarrow> u64 \<Rightarrow> 'cb EpollLoop \<Rightarrow> ('cb Timer \<times> 'cb EpollLoop) option" where
  "fire_timer fd tid l =
     map_option (\<lambda>t. (t, l\<lparr>timer_fd_to_id := erase fd (timer_fd_to_id l), timers := erase tid (timers l)\<rparr>))
       (map_of (timers l) tid)"

definition poll_event ::
  "('s \<Rightarrow> 'cb EpollLoop) \<Rightarrow> ('cb EpollLoop \<Rightarrow> 's \<Rightarrow> 's) \<Rightarrow> ('cb \<Rightarrow> 's \<Rightarrow> 's io) \<Rightarrow> (FiredEvent \<Rightarrow> 's \<Rightarrow> 's io) \<Rightarrow>
     int \<Rightarrow> u32 \<Rightarrow> 's \<Rightarrow> 's io" where
  "poll_event get put fn cb fd events st =
     (let l = get st in
      case map_of (timer_fd_to_id l) fd of
        Some tid \<Rightarrow>
          bind_io (call (Loop (Timer_read fd))) (\<lambda>_.
            case fire_timer fd tid l of
              Some (t, l') \<Rightarrow> bind_io (destroy_fd (t_tfd t)) (\<lambda>_. fn (t_cb t) (put l' st))
            | None \<Rightarrow> return_io st)
      | None \<Rightarrow> cb \<lparr>fe_fd = fd, fe_events = from_epoll events\<rparr> st)"

fun poll_loop ::
  "('s \<Rightarrow> 'cb EpollLoop) \<Rightarrow> ('cb EpollLoop \<Rightarrow> 's \<Rightarrow> 's) \<Rightarrow> ('cb \<Rightarrow> 's \<Rightarrow> 's io) \<Rightarrow> (FiredEvent \<Rightarrow> 's \<Rightarrow> 's io) \<Rightarrow>
     (int \<times> u32) list \<Rightarrow> 's \<Rightarrow> 's io" where
  "poll_loop get put fn cb [] st = return_io st"
| "poll_loop get put fn cb ((fd, events) # rest) st =
     bind_io (poll_event get put fn cb fd events st) (poll_loop get put fn cb rest)"

definition poll ::
  "('s \<Rightarrow> 'cb EpollLoop) \<Rightarrow> ('cb EpollLoop \<Rightarrow> 's \<Rightarrow> 's) \<Rightarrow> ('cb \<Rightarrow> 's \<Rightarrow> 's io) \<Rightarrow> (FiredEvent \<Rightarrow> 's \<Rightarrow> 's io) \<Rightarrow>
     int \<Rightarrow> 's \<Rightarrow> (unit result \<times> 's) io" where
  "poll get put fn cb timeout_ms st =
     bind_io (call (Loop (Epoll_wait timeout_ms))) (\<lambda>r.
       if ret r < 0
       then if err r = EINTR then return_io (Inr (), st)
            else return_io (Inl (from_errno (err r) ''epoll wait''), st)
       else bind_io (poll_loop get put fn cb (take (nat (ret r)) (evs r)) st) (\<lambda>st'. return_io (Inr (), st')))"

text \<open>The destructor: the timers' descriptors and the epoll descriptor are closed.\<close>

fun destroy_timers :: "(u64 \<times> 'cb Timer) list \<Rightarrow> unit io" where
  "destroy_timers [] = return_io ()"
| "destroy_timers ((_, t) # ts) = bind_io (destroy_fd (t_tfd t)) (\<lambda>_. destroy_timers ts)"

definition destroy_EpollLoop :: "'cb EpollLoop \<Rightarrow> unit io" where
  "destroy_EpollLoop l = bind_io (destroy_timers (timers l)) (\<lambda>_. destroy_fd (epfd l))"

section \<open>The loop on kqueue\<close>

abbreviation (input) EVFILT_READ :: int where "EVFILT_READ \<equiv> -1"
abbreviation (input) EVFILT_WRITE :: int where "EVFILT_WRITE \<equiv> -2"
abbreviation (input) EVFILT_TIMER :: int where "EVFILT_TIMER \<equiv> -7"
abbreviation (input) EV_ADD :: u16 where "EV_ADD \<equiv> 0x1"
abbreviation (input) EV_DELETE :: u16 where "EV_DELETE \<equiv> 0x2"
abbreviation (input) EV_ENABLE :: u16 where "EV_ENABLE \<equiv> 0x4"
abbreviation (input) EV_ONESHOT :: u16 where "EV_ONESHOT \<equiv> 0x10"
abbreviation (input) EV_CLEAR :: u16 where "EV_CLEAR \<equiv> 0x20"
abbreviation (input) EV_ERROR :: u16 where "EV_ERROR \<equiv> 0x4000"
abbreviation (input) EV_EOF :: u16 where "EV_EOF \<equiv> 0x8000"

record 'cb KqueueLoop =
  kqfd :: Uniquefd
  kq_timers :: "(u64 \<times> 'cb) list"
  kq_next_timer_id :: u64
  registered :: "(int \<times> u32) list"

definition new_KqueueLoop :: "'cb KqueueLoop io" where
  "new_KqueueLoop =
     bind_io (call (Loop Kq_create)) (\<lambda>r. return_io \<lparr>kqfd = ret r, kq_timers = [], kq_next_timer_id = 1, registered = []\<rparr>)"

text \<open>One filter in \<^verbatim>\<open>apply\<close>: set it when it is wanted, delete it when it is not and was set.\<close>

definition kq_filter :: "int \<Rightarrow> bool \<Rightarrow> int \<Rightarrow> u32 \<Rightarrow> u16 \<Rightarrow> string \<Rightarrow> u32 \<Rightarrow> u32 result io" where
  "kq_filter fd wanted flt flag flags op cur =
     (if wanted
      then bind_io (call (Loop (Kq_change [(word_of_int fd, flt, flags, 0)]))) (\<lambda>r.
        if ret r < 0 then return_io (Inl (from_errno (err r) op)) else return_io (Inr (cur OR flag)))
      else if cur AND flag \<noteq> 0
      then bind_io (call (Loop (Kq_change [(word_of_int fd, flt, EV_DELETE, 0)]))) (\<lambda>_. return_io (Inr (cur AND NOT flag)))
      else return_io (Inr cur))"

definition kq_apply :: "int \<Rightarrow> Event \<Rightarrow> u16 \<Rightarrow> 'cb KqueueLoop \<Rightarrow> (unit result \<times> 'cb KqueueLoop) io" where
  "kq_apply fd events flags l =
     (let cur = (case map_of (registered l) fd of None \<Rightarrow> 0 | Some c \<Rightarrow> c);
          l1 = l\<lparr>registered := assign fd cur (registered l)\<rparr>
      in bind_io (kq_filter fd (has events EvRead) EVFILT_READ 1 flags ''kevent add read'' cur) (\<lambda>r.
           case r of
             Inl e \<Rightarrow> return_io (Inl e, l1)
           | Inr cur1 \<Rightarrow>
               bind_io (kq_filter fd (has events EvWrite) EVFILT_WRITE 2 flags ''kevent add write'' cur1) (\<lambda>w.
                 case w of
                   Inl e \<Rightarrow> return_io (Inl e, l1)
                 | Inr cur2 \<Rightarrow> return_io (Inr (), l1\<lparr>registered := assign fd cur2 (registered l1)\<rparr>))))"

definition kq_add :: "int \<Rightarrow> Event \<Rightarrow> 'cb KqueueLoop \<Rightarrow> (unit result \<times> 'cb KqueueLoop) io" where
  "kq_add fd events l = kq_apply fd events (EV_ADD OR EV_ENABLE OR EV_CLEAR) l"

definition kq_modify :: "int \<Rightarrow> Event \<Rightarrow> 'cb KqueueLoop \<Rightarrow> (unit result \<times> 'cb KqueueLoop) io" where
  "kq_modify fd events l = kq_apply fd events (EV_ADD OR EV_ENABLE OR EV_CLEAR) l"

definition kq_remove :: "int \<Rightarrow> 'cb KqueueLoop \<Rightarrow> unit result io" where
  "kq_remove fd l =
     bind_io (call (Loop (Kq_change [(word_of_int fd, EVFILT_READ, EV_DELETE, 0), (word_of_int fd, EVFILT_WRITE, EV_DELETE, 0)])))
       (\<lambda>r. if ret r < 0 \<and> err r \<noteq> ENOENT then return_io (Inl (from_errno (err r) ''kevent delete''))
            else return_io (Inr ()))"

definition kq_add_timer :: "int \<Rightarrow> 'cb \<Rightarrow> 'cb KqueueLoop \<Rightarrow> (u64 result \<times> 'cb KqueueLoop) io" where
  "kq_add_timer delay_ms cb l =
     (let tid = kq_next_timer_id l; l1 = l\<lparr>kq_next_timer_id := tid + 1\<rparr> in
      bind_io (call (Loop (Kq_change [(tid, EVFILT_TIMER, EV_ADD OR EV_ENABLE OR EV_ONESHOT, delay_ms)]))) (\<lambda>r.
        if ret r < 0 then return_io (Inl (from_errno (err r) ''kevent timer add''), l1)
        else return_io (Inr tid,
          if tid \<in> fst ` set (kq_timers l1) then l1 else l1\<lparr>kq_timers := kq_timers l1 @ [(tid, cb)]\<rparr>)))"

definition kq_cancel_timer :: "u64 \<Rightarrow> 'cb KqueueLoop \<Rightarrow> (unit result \<times> 'cb KqueueLoop) io" where
  "kq_cancel_timer tid l =
     bind_io (call (Loop (Kq_change [(tid, EVFILT_TIMER, EV_DELETE, 0)]))) (\<lambda>r.
       if ret r < 0 \<and> err r \<noteq> ENOENT then return_io (Inl (from_errno (err r) ''kevent timer delete''), l)
       else return_io (Inr (), l\<lparr>kq_timers := erase tid (kq_timers l)\<rparr>))"

definition from_kevent :: "int \<Rightarrow> u16 \<Rightarrow> Event" where
  "from_kevent flt flags =
     (let e0 = EvNone;
          e1 = (if flt = EVFILT_READ then e0 OR EvRead else e0);
          e2 = (if flt = EVFILT_WRITE then e1 OR EvWrite else e1);
          e3 = (if flags AND EV_EOF \<noteq> 0 then e2 OR EvHangUp else e2)
      in if flags AND EV_ERROR \<noteq> 0 then e3 OR EvError else e3)"

definition kq_fire_timer :: "u64 \<Rightarrow> 'cb KqueueLoop \<Rightarrow> ('cb \<times> 'cb KqueueLoop) option" where
  "kq_fire_timer tid l =
     map_option (\<lambda>c. (c, l\<lparr>kq_timers := erase tid (kq_timers l)\<rparr>)) (map_of (kq_timers l) tid)"

definition kq_poll_event ::
  "('s \<Rightarrow> 'cb KqueueLoop) \<Rightarrow> ('cb KqueueLoop \<Rightarrow> 's \<Rightarrow> 's) \<Rightarrow> ('cb \<Rightarrow> 's \<Rightarrow> 's io) \<Rightarrow> (FiredEvent \<Rightarrow> 's \<Rightarrow> 's io) \<Rightarrow>
     u64 \<times> int \<times> u16 \<Rightarrow> 's \<Rightarrow> 's io" where
  "kq_poll_event get put fn cb ev st =
     (case ev of
        (ident, flt, flags) \<Rightarrow>
          if flt = EVFILT_TIMER
          then case kq_fire_timer ident (get st) of
                 Some (c, l') \<Rightarrow> fn c (put l' st)
               | None \<Rightarrow> return_io st
          else cb \<lparr>fe_fd = sint (ucast ident :: u32), fe_events = from_kevent flt flags\<rparr> st)"

fun kq_poll_loop ::
  "('s \<Rightarrow> 'cb KqueueLoop) \<Rightarrow> ('cb KqueueLoop \<Rightarrow> 's \<Rightarrow> 's) \<Rightarrow> ('cb \<Rightarrow> 's \<Rightarrow> 's io) \<Rightarrow> (FiredEvent \<Rightarrow> 's \<Rightarrow> 's io) \<Rightarrow>
     (u64 \<times> int \<times> u16) list \<Rightarrow> 's \<Rightarrow> 's io" where
  "kq_poll_loop get put fn cb [] st = return_io st"
| "kq_poll_loop get put fn cb (ev # rest) st =
     bind_io (kq_poll_event get put fn cb ev st) (kq_poll_loop get put fn cb rest)"

definition kq_poll ::
  "('s \<Rightarrow> 'cb KqueueLoop) \<Rightarrow> ('cb KqueueLoop \<Rightarrow> 's \<Rightarrow> 's) \<Rightarrow> ('cb \<Rightarrow> 's \<Rightarrow> 's io) \<Rightarrow> (FiredEvent \<Rightarrow> 's \<Rightarrow> 's io) \<Rightarrow>
     int \<Rightarrow> 's \<Rightarrow> (unit result \<times> 's) io" where
  "kq_poll get put fn cb timeout_ms st =
     bind_io (call (Loop (Kq_wait (if timeout_ms \<ge> 0 then Some (timeout_ms sdiv 1000, timeout_ms smod 1000 * 1000000) else None)))) (\<lambda>r.
       if ret r < 0
       then if err r = EINTR then return_io (Inr (), st)
            else return_io (Inl (from_errno (err r) ''kevent poll''), st)
       else bind_io (kq_poll_loop get put fn cb (take (nat (ret r)) (kevs r)) st) (\<lambda>st'. return_io (Inr (), st')))"

section \<open>Timers\<close>

text \<open>The history of a loop's timers.  \<open>live tid cb h\<close>: the timer was armed, and neither cancelled
  nor fired since.\<close>

datatype 'cb TimerEvent = Armed u64 'cb | ArmFailed | Cancelled u64 | Fired u64 'cb

definition live :: "u64 \<Rightarrow> 'cb \<Rightarrow> 'cb TimerEvent list \<Rightarrow> bool" where
  "live tid cb h \<longleftrightarrow>
     (\<exists>us vs. h = us @ Armed tid cb # vs \<and> Cancelled tid \<notin> set vs \<and> (\<forall>c. Fired tid c \<notin> set vs))"

inductive timer_run ::
  "(int \<Rightarrow> 'cb \<Rightarrow> 'l \<Rightarrow> (u64 result \<times> 'l) io) \<Rightarrow> (u64 \<Rightarrow> 'l \<Rightarrow> (unit result \<times> 'l) io) \<Rightarrow>
     ('ev \<Rightarrow> 'l \<Rightarrow> (u64 \<times> 'cb \<times> 'l) option) \<Rightarrow> 'l \<Rightarrow> 'cb TimerEvent list \<Rightarrow> 'l \<Rightarrow> bool"
  for arm cancel fire l0 where
  start: "timer_run arm cancel fire l0 [] l0"
| armed: "timer_run arm cancel fire l0 h l \<Longrightarrow> arm d cb l os = Some ((Inr tid, l'), os') \<Longrightarrow>
    timer_run arm cancel fire l0 (h @ [Armed tid cb]) l'"
| arm_failed: "timer_run arm cancel fire l0 h l \<Longrightarrow> arm d cb l os = Some ((Inl e, l'), os') \<Longrightarrow>
    timer_run arm cancel fire l0 (h @ [ArmFailed]) l'"
| cancelled: "timer_run arm cancel fire l0 h l \<Longrightarrow> cancel tid l os = Some ((Inr (), l'), os') \<Longrightarrow>
    timer_run arm cancel fire l0 (h @ [Cancelled tid]) l'"
| cancel_failed: "timer_run arm cancel fire l0 h l \<Longrightarrow> cancel tid l os = Some ((Inl e, l'), os') \<Longrightarrow>
    timer_run arm cancel fire l0 h l'"
| fired: "timer_run arm cancel fire l0 h l \<Longrightarrow> fire ev l = Some (tid, cb, l') \<Longrightarrow>
    timer_run arm cancel fire l0 (h @ [Fired tid cb]) l'"

lemma live_Nil [simp]: "\<not> live tid cb []"
  by (simp add: live_def)

lemma live_snoc [simp]:
  "live tid cb (h @ [x]) \<longleftrightarrow>
     x = Armed tid cb \<or> live tid cb h \<and> x \<noteq> Cancelled tid \<and> (\<forall>c. x \<noteq> Fired tid c)"
proof
  assume "live tid cb (h @ [x])"
  then obtain us vs where "h @ [x] = us @ Armed tid cb # vs" "Cancelled tid \<notin> set vs" "\<forall>c. Fired tid c \<notin> set vs"
    unfolding live_def by blast
  then show "x = Armed tid cb \<or> live tid cb h \<and> x \<noteq> Cancelled tid \<and> (\<forall>c. x \<noteq> Fired tid c)"
    unfolding live_def by (cases vs rule: rev_cases) auto
next
  assume "x = Armed tid cb \<or> live tid cb h \<and> x \<noteq> Cancelled tid \<and> (\<forall>c. x \<noteq> Fired tid c)"
  then show "live tid cb (h @ [x])"
  proof
    assume "live tid cb h \<and> x \<noteq> Cancelled tid \<and> (\<forall>c. x \<noteq> Fired tid c)"
    then obtain us vs where "h = us @ Armed tid cb # vs" "Cancelled tid \<notin> set vs" "\<forall>c. Fired tid c \<notin> set vs"
      "x \<noteq> Cancelled tid" "\<forall>c. x \<noteq> Fired tid c"
      unfolding live_def by blast
    then show ?thesis unfolding live_def by (intro exI [of _ us] exI [of _ "vs @ [x]"]) auto
  qed (force simp: live_def)
qed

text \<open>What the owner of a loop may rely on: \<open>pend l\<close> are the callbacks still to come.\<close>

locale timer_service =
  fixes pend :: "'l \<Rightarrow> u64 \<Rightarrow> 'cb option" and nid :: "'l \<Rightarrow> u64" and ok :: "'l \<Rightarrow> bool"
    and arm :: "int \<Rightarrow> 'cb \<Rightarrow> 'l \<Rightarrow> (u64 result \<times> 'l) io" and cancel :: "u64 \<Rightarrow> 'l \<Rightarrow> (unit result \<times> 'l) io"
    and fire :: "'ev \<Rightarrow> 'l \<Rightarrow> (u64 \<times> 'cb \<times> 'l) option"
  assumes pend_bound: "ok l \<Longrightarrow> pend l tid = Some cb \<Longrightarrow> unat tid < unat (nid l)"
    and arm_law: "ok l \<Longrightarrow> unat (nid l) + 1 < 2 ^ 64 \<Longrightarrow> arm d cb l os = Some ((r, l'), os') \<Longrightarrow>
      ok l' \<and> unat (nid l') \<le> unat (nid l) + 1 \<and>
      (case r of Inl _ \<Rightarrow> pend l' = pend l | Inr tid \<Rightarrow> tid = nid l \<and> pend l' = (pend l)(tid \<mapsto> cb))"
    and cancel_law: "ok l \<Longrightarrow> cancel tid l os = Some ((q, l'), os') \<Longrightarrow>
      ok l' \<and> nid l' = nid l \<and> pend l' = (case q of Inl _ \<Rightarrow> pend l | Inr _ \<Rightarrow> (pend l)(tid := None))"
    and fire_law: "ok l \<Longrightarrow> fire ev l = Some (tid, cb, l') \<Longrightarrow>
      ok l' \<and> nid l' = nid l \<and> pend l tid = Some cb \<and> pend l' = (pend l)(tid := None)"
begin

lemma run_exact:
  assumes "timer_run arm cancel fire l0 h l" "ok l0" "pend l0 = Map.empty" "unat (nid l0) + length h < 2 ^ 64"
  shows "ok l \<and> unat (nid l) \<le> unat (nid l0) + length h \<and> (\<forall>tid cb. pend l tid = Some cb \<longleftrightarrow> live tid cb h)"
  using assms
proof (induction rule: timer_run.induct)
  case (armed h l d cb os tid l' os')
  then have IH: "ok l" "unat (nid l) \<le> unat (nid l0) + length h" "\<And>tid cb. pend l tid = Some cb \<longleftrightarrow> live tid cb h" by auto
  have "unat (nid l) + 1 < 2 ^ 64" using IH(2) armed.prems(3) by simp
  note law = arm_law [OF IH(1) this armed.hyps(2)]
  have "\<not> live (nid l) c h" for c using pend_bound [OF IH(1), of "nid l" c] IH(3) by auto
  with law IH show ?case by auto
next
  case (arm_failed h l d cb os e l' os')
  then have IH: "ok l" "unat (nid l) \<le> unat (nid l0) + length h" "\<And>tid cb. pend l tid = Some cb \<longleftrightarrow> live tid cb h" by auto
  have "unat (nid l) + 1 < 2 ^ 64" using IH(2) arm_failed.prems(3) by simp
  from arm_law [OF IH(1) this arm_failed.hyps(2)] IH show ?case by auto
next
  case (cancelled h l tid os l' os')
  then have IH: "ok l" "unat (nid l) \<le> unat (nid l0) + length h" "\<And>tid cb. pend l tid = Some cb \<longleftrightarrow> live tid cb h" by auto
  from cancel_law [OF IH(1) cancelled.hyps(2)] IH show ?case by auto
next
  case (cancel_failed h l tid os e l' os')
  then show ?case using cancel_law [of l tid os "Inl e" l' os'] by auto
next
  case (fired h l ev tid cb l')
  then have IH: "ok l" "unat (nid l) \<le> unat (nid l0) + length h" "\<And>tid cb. pend l tid = Some cb \<longleftrightarrow> live tid cb h" by auto
  from fire_law [OF IH(1) fired.hyps(2)] IH show ?case by auto
qed simp_all

text \<open>So an event runs a callback exactly when its timer is live.\<close>

lemma fires_live:
  assumes "timer_run arm cancel fire l0 h l" "ok l0" "pend l0 = Map.empty" "unat (nid l0) + length h < 2 ^ 64"
    and "fire ev l = Some (tid, cb, l')"
  shows "live tid cb h"
  using run_exact [OF assms(1-4)] fire_law [OF _ assms(5)] by blast

end

definition epoll_fire :: "int \<Rightarrow> 'cb EpollLoop \<Rightarrow> (u64 \<times> 'cb \<times> 'cb EpollLoop) option" where
  "epoll_fire fd l =
     Option.bind (map_of (timer_fd_to_id l) fd) (\<lambda>tid. map_option (\<lambda>(t, l'). (tid, t_cb t, l')) (fire_timer fd tid l))"

definition kq_fire :: "u64 \<Rightarrow> 'cb KqueueLoop \<Rightarrow> (u64 \<times> 'cb \<times> 'cb KqueueLoop) option" where
  "kq_fire tid l = map_option (\<lambda>(c, l'). (tid, c, l')) (kq_fire_timer tid l)"

definition timers_ok :: "(u64 \<times> 'v) list \<Rightarrow> u64 \<Rightarrow> bool" where
  "timers_ok ts n \<longleftrightarrow> distinct (map fst ts) \<and> (\<forall>tid \<in> fst ` set ts. unat tid < unat n)"

lemma unat_next: "unat (n :: u64) + 1 < 2 ^ 64 \<Longrightarrow> unat (n + 1) = unat n + 1"
  by (simp add: unat_word_ariths)

lemma timers_ok_next: "timers_ok ts n \<Longrightarrow> unat n + 1 < 2 ^ 64 \<Longrightarrow> timers_ok ts (n + 1)"
  unfolding timers_ok_def by (auto simp: unat_next intro: less_SucI)

lemma timers_ok_new: "timers_ok ts n \<Longrightarrow> n \<notin> fst ` set ts"
  unfolding timers_ok_def by auto

lemma timers_ok_snoc: "timers_ok ts n \<Longrightarrow> unat n + 1 < 2 ^ 64 \<Longrightarrow> timers_ok (ts @ [(n, v)]) (n + 1)"
  using timers_ok_next [of ts n] timers_ok_new [of ts n] by (auto simp: timers_ok_def unat_next)

lemma timers_ok_erase: "timers_ok ts n \<Longrightarrow> timers_ok (erase tid ts) n"
  unfolding timers_ok_def by (auto simp: distinct_erase dest: set_erase [THEN subsetD])

lemma map_of_snoc_new: "n \<notin> fst ` set ts \<Longrightarrow> map_of (ts @ [(n, v)]) = (map_of ts)(n \<mapsto> v)"
  by (auto simp: fun_eq_iff map_add_def split: option.splits) (metis map_of_eq_None_iff option.distinct(1))

interpretation ept: timer_service
  "\<lambda>l tid. map_option t_cb (map_of (timers l) tid)" next_timer_id "\<lambda>l. timers_ok (timers l) (next_timer_id l)"
  add_timer cancel_timer epoll_fire
proof unfold_locales
  fix l :: "'a EpollLoop" and tid :: u64 and cb :: 'a
  show "timers_ok (timers l) (next_timer_id l) \<Longrightarrow> map_option t_cb (map_of (timers l) tid) = Some cb \<Longrightarrow>
      unat tid < unat (next_timer_id l)"
    by (force simp: timers_ok_def dest: map_of_SomeD)
next
  fix l l' :: "'a EpollLoop" and d cb os r os'
  assume ok: "timers_ok (timers l) (next_timer_id l)" and n: "unat (next_timer_id l) + 1 < 2 ^ 64"
    and arm: "add_timer d cb l os = Some ((r, l'), os')"
  note new = timers_ok_new [OF ok] map_of_snoc_new [OF timers_ok_new [OF ok]] timers_ok_snoc [OF ok n] timers_ok_next [OF ok n]
  show "timers_ok (timers l') (next_timer_id l') \<and> unat (next_timer_id l') \<le> unat (next_timer_id l) + 1 \<and>
      (case r of Inl _ \<Rightarrow> (\<lambda>tid. map_option t_cb (map_of (timers l') tid)) = (\<lambda>tid. map_option t_cb (map_of (timers l) tid))
       | Inr tid \<Rightarrow> tid = next_timer_id l \<and>
           (\<lambda>tid. map_option t_cb (map_of (timers l') tid)) = (\<lambda>tid. map_option t_cb (map_of (timers l) tid))(tid \<mapsto> cb))"
    using arm ok new by (auto simp: add_timer_def io_elims Let_def unat_next [OF n] fun_eq_iff split: if_splits)
next
  fix l l' :: "'a EpollLoop" and tid os r os'
  assume "timers_ok (timers l) (next_timer_id l)" "cancel_timer tid l os = Some ((r, l'), os')"
  then show "timers_ok (timers l') (next_timer_id l') \<and> next_timer_id l' = next_timer_id l \<and>
      (\<lambda>tid. map_option t_cb (map_of (timers l') tid)) =
        (case r of Inl _ \<Rightarrow> \<lambda>tid. map_option t_cb (map_of (timers l) tid)
         | Inr _ \<Rightarrow> (\<lambda>tid. map_option t_cb (map_of (timers l) tid))(tid := None))"
    by (auto simp: cancel_timer_def io_elims timers_ok_erase map_of_erase timers_ok_def [THEN iffD1] fun_eq_iff split: option.splits)
next
  fix l l' :: "'a EpollLoop" and ev tid cb
  assume "timers_ok (timers l) (next_timer_id l)" "epoll_fire ev l = Some (tid, cb, l')"
  then show "timers_ok (timers l') (next_timer_id l') \<and> next_timer_id l' = next_timer_id l \<and>
      map_option t_cb (map_of (timers l) tid) = Some cb \<and>
      (\<lambda>tid. map_option t_cb (map_of (timers l') tid)) = (\<lambda>tid. map_option t_cb (map_of (timers l) tid))(tid := None)"
    by (auto simp: epoll_fire_def fire_timer_def timers_ok_erase map_of_erase timers_ok_def [THEN iffD1] fun_eq_iff
        split: option.splits bind_splits)
qed

interpretation kqt: timer_service
  "\<lambda>l. map_of (kq_timers l)" kq_next_timer_id "\<lambda>l. timers_ok (kq_timers l) (kq_next_timer_id l)"
  kq_add_timer kq_cancel_timer kq_fire
proof unfold_locales
  fix l :: "'a KqueueLoop" and tid :: u64 and cb :: 'a
  show "timers_ok (kq_timers l) (kq_next_timer_id l) \<Longrightarrow> map_of (kq_timers l) tid = Some cb \<Longrightarrow>
      unat tid < unat (kq_next_timer_id l)"
    by (force simp: timers_ok_def dest: map_of_SomeD)
next
  fix l l' :: "'a KqueueLoop" and d cb os r os'
  assume ok: "timers_ok (kq_timers l) (kq_next_timer_id l)" and n: "unat (kq_next_timer_id l) + 1 < 2 ^ 64"
    and arm: "kq_add_timer d cb l os = Some ((r, l'), os')"
  note new = timers_ok_new [OF ok] map_of_snoc_new [OF timers_ok_new [OF ok]] timers_ok_snoc [OF ok n] timers_ok_next [OF ok n]
  show "timers_ok (kq_timers l') (kq_next_timer_id l') \<and> unat (kq_next_timer_id l') \<le> unat (kq_next_timer_id l) + 1 \<and>
      (case r of Inl _ \<Rightarrow> map_of (kq_timers l') = map_of (kq_timers l)
       | Inr tid \<Rightarrow> tid = kq_next_timer_id l \<and> map_of (kq_timers l') = (map_of (kq_timers l))(tid \<mapsto> cb))"
    using arm ok new by (auto simp: kq_add_timer_def io_elims Let_def unat_next [OF n] split: if_splits)
next
  fix l l' :: "'a KqueueLoop" and tid os r os'
  assume "timers_ok (kq_timers l) (kq_next_timer_id l)" "kq_cancel_timer tid l os = Some ((r, l'), os')"
  then show "timers_ok (kq_timers l') (kq_next_timer_id l') \<and> kq_next_timer_id l' = kq_next_timer_id l \<and>
      map_of (kq_timers l') = (case r of Inl _ \<Rightarrow> map_of (kq_timers l) | Inr _ \<Rightarrow> (map_of (kq_timers l))(tid := None))"
    by (auto simp: kq_cancel_timer_def io_elims timers_ok_erase map_of_erase timers_ok_def [THEN iffD1] split: if_splits)
next
  fix l l' :: "'a KqueueLoop" and ev tid cb
  assume "timers_ok (kq_timers l) (kq_next_timer_id l)" "kq_fire ev l = Some (tid, cb, l')"
  then show "timers_ok (kq_timers l') (kq_next_timer_id l') \<and> kq_next_timer_id l' = kq_next_timer_id l \<and>
      map_of (kq_timers l) tid = Some cb \<and> map_of (kq_timers l') = (map_of (kq_timers l))(tid := None)"
    by (auto simp: kq_fire_def kq_fire_timer_def timers_ok_erase map_of_erase timers_ok_def [THEN iffD1])
qed

section \<open>Descriptors\<close>

definition loop_fds :: "'cb EpollLoop \<Rightarrow> int multiset" where
  "loop_fds l = owned (epfd l) + total_of (\<lambda>t. owned (t_tfd t)) (timers l)"

lemma loop_fds_updates [simp]:
  "loop_fds (l\<lparr>next_timer_id := n\<rparr>) = loop_fds l" "loop_fds (l\<lparr>timer_fd_to_id := m\<rparr>) = loop_fds l"
  by (simp_all add: loop_fds_def)

lemma moves_loop [simp]:
  "moves old (\<lambda>_. old) (add fd ev l)" "moves old (\<lambda>_. old) (modify fd ev l)" "moves old (\<lambda>_. old) (remove fd l)"
  unfolding add_def modify_def remove_def
  by (intro moves_call_bind moves_if moves_return; simp add: neutral_def)+

lemma moves_open:
  assumes "opens c" "\<And>r. closed1 (c, r) = {#}" "\<And>r. moves (old + owned (ret r)) new (f r)"
  shows "moves old new (bind_io (call c) f)"
proof (rule moves_bind)
  show "moves old (\<lambda>r. old + owned (ret r)) (call c)"
    unfolding moves_def using assms(1,2) by (intro runs_call) (simp add: owned_def valid_fd_def del: opens_def closed1_def)
qed (rule assms)

lemma moves_destroy': "moves (old + owned fd) (\<lambda>_. old) (destroy_fd fd)"
  using moves_frame [OF moves_destroy [of fd], of old] by (simp add: add.commute)

lemma moves_new_EpollLoop: "moves {#} loop_fds new_EpollLoop"
  unfolding new_EpollLoop_def by (intro moves_open moves_return) (simp_all add: loop_fds_def)

lemma moves_add_timer: "moves (loop_fds l) (\<lambda>(_, l'). loop_fds l') (add_timer delay cb l)"
  unfolding add_timer_def Let_def
  by (intro moves_open moves_call_bind moves_if moves_bind [OF moves_destroy'] moves_return)
    (simp_all add: neutral_def owned_invalid, simp_all add: loop_fds_def)

lemma loop_fds_erase:
  "map_of (timers l) tid = Some t \<Longrightarrow>
     loop_fds l = loop_fds (l\<lparr>timer_fd_to_id := m, timers := erase tid (timers l)\<rparr>) + owned (t_tfd t)"
  using total_of_erase [of "timers l" tid t "\<lambda>t. owned (t_tfd t)"] by (simp add: loop_fds_def)

lemma moves_cancel_timer: "moves (loop_fds l) (\<lambda>(_, l'). loop_fds l') (cancel_timer tid l)"
proof (cases "map_of (timers l) tid")
  case (Some t)
  show ?thesis
    unfolding cancel_timer_def Some option.case loop_fds_erase [OF Some, of "erase (t_tfd t) (timer_fd_to_id l)"]
    by (intro moves_call_bind moves_bind [OF moves_destroy'] moves_return) (simp_all add: neutral_def)
qed (simp add: cancel_timer_def moves_return)

lemma moves_destroy_timers: "moves (total_of (\<lambda>t. owned (t_tfd t)) ts) (\<lambda>_. {#}) (destroy_timers ts)"
proof (induction ts rule: destroy_timers.induct)
  case (2 k t ts)
  have "moves (owned (t_tfd t) + total_of (\<lambda>t. owned (t_tfd t)) ts) (\<lambda>_. total_of (\<lambda>t. owned (t_tfd t)) ts) (destroy_fd (t_tfd t))"
    using moves_destroy' [of "total_of (\<lambda>t. owned (t_tfd t)) ts" "t_tfd t"] by (simp only: add.commute)
  then show ?case by (auto intro: moves_bind 2)
qed (simp add: moves_return)

lemma moves_destroy_EpollLoop: "moves (loop_fds l) (\<lambda>_. {#}) (destroy_EpollLoop l)"
proof -
  have "moves (loop_fds l) (\<lambda>_. owned (epfd l)) (destroy_timers (timers l))"
    using moves_frame [OF moves_destroy_timers, of "timers l" "owned (epfd l)"] by (simp add: loop_fds_def add.commute)
  then show ?thesis unfolding destroy_EpollLoop_def by (rule moves_bind) (rule moves_destroy)
qed

text \<open>The owner of a loop: when its callbacks account for the descriptors it holds (\<open>fds\<close>), so does
  a whole \<open>poll\<close>.\<close>

locale loop_owner =
  fixes get :: "'s \<Rightarrow> 'cb EpollLoop" and put :: "'cb EpollLoop \<Rightarrow> 's \<Rightarrow> 's"
    and fn :: "'cb \<Rightarrow> 's \<Rightarrow> 's io" and cb :: "FiredEvent \<Rightarrow> 's \<Rightarrow> 's io" and fds :: "'s \<Rightarrow> int multiset"
  assumes put_law: "fds (put l st) + loop_fds (get st) = fds st + loop_fds l"
    and fn_law: "moves (fds st) fds (fn c st)"
    and cb_law: "moves (fds st) fds (cb ev st)"
begin

lemma moves_poll_event: "moves (fds st) fds (poll_event get put fn cb fd events st)"
proof (cases "map_of (timer_fd_to_id (get st)) fd")
  case None
  then show ?thesis by (simp add: poll_event_def cb_law)
next
  case (Some tid)
  have "moves (fds st) fds (case fire_timer fd tid (get st) of
      Some (t, l') \<Rightarrow> bind_io (destroy_fd (t_tfd t)) (\<lambda>_. fn (t_cb t) (put l' st)) | None \<Rightarrow> return_io st)"
  proof (cases "map_of (timers (get st)) tid")
    case None
    then show ?thesis by (simp add: fire_timer_def moves_return)
  next
    case t: (Some t)
    let ?l = "get st" and ?l' = "(get st)\<lparr>timer_fd_to_id := erase fd (timer_fd_to_id (get st)), timers := erase tid (timers (get st))\<rparr>"
    have "fds st + loop_fds ?l' = fds (put ?l' st) + (loop_fds ?l' + owned (t_tfd t))"
      using put_law [of ?l' st] loop_fds_erase [OF t, of "erase fd (timer_fd_to_id ?l)"] by simp
    then have "fds st + loop_fds ?l' = (fds (put ?l' st) + owned (t_tfd t)) + loop_fds ?l'"
      by (simp only: ac_simps)
    then have "fds st = fds (put ?l' st) + owned (t_tfd t)" by (simp only: add_right_cancel)
    then show ?thesis
      by (auto simp: fire_timer_def t intro!: moves_bind [OF moves_destroy'] fn_law)
  qed
  then show ?thesis
    unfolding poll_event_def Let_def Some option.case by (intro moves_call_bind) (simp_all add: neutral_def)
qed

lemma moves_poll_loop: "moves (fds st) fds (poll_loop get put fn cb evts st)"
proof (induction evts arbitrary: st)
  case (Cons e evts)
  obtain fd ev where "e = (fd, ev)" by (cases e)
  with Cons show ?case by (auto intro: moves_bind [OF moves_poll_event])
qed (simp add: moves_return)

lemma moves_poll: "moves (fds st) (\<lambda>(_, st'). fds st') (poll get put fn cb timeout st)"
  unfolding poll_def
  by (intro moves_call_bind moves_if moves_bind [OF moves_poll_loop] moves_return) (simp_all add: neutral_def)

end

section \<open>Properties\<close>

text \<open>C19. Timers: in every history of arming, cancelling and firing, on epoll and on kqueue and
  whatever the kernel answers, the callbacks a loop still holds are exactly those of the timers that
  were armed and have neither fired nor been cancelled since; so an event that runs a callback runs
  that of such a timer, and no timer fires twice or after it was cancelled.  (Up to 2^64 - 2 timers,
  when identifiers would repeat.)\<close>

theorem timers_exact:
  "(timers l0 = [] \<and> next_timer_id l0 = 1 \<and> timer_run add_timer cancel_timer epoll_fire l0 h l \<and> length h < 2 ^ 64 - 1 \<longrightarrow>
      (\<forall>tid cb. map_option t_cb (map_of (timers l) tid) = Some cb \<longleftrightarrow> live tid cb h) \<and>
      (\<forall>fd tid cb l'. epoll_fire fd l = Some (tid, cb, l') \<longrightarrow> live tid cb h \<and> \<not> live tid cb (h @ [Fired tid cb]))) \<and>
   (kq_timers k0 = [] \<and> kq_next_timer_id k0 = 1 \<and> timer_run kq_add_timer kq_cancel_timer kq_fire k0 h k \<and> length h < 2 ^ 64 - 1 \<longrightarrow>
      (\<forall>tid cb. map_of (kq_timers k) tid = Some cb \<longleftrightarrow> live tid cb h) \<and>
      (\<forall>ident tid cb k'. kq_fire ident k = Some (tid, cb, k') \<longrightarrow> live tid cb h \<and> \<not> live tid cb (h @ [Fired tid cb])))"
proof (intro conjI impI; elim conjE)
  assume l: "timers l0 = []" "next_timer_id l0 = 1" "timer_run add_timer cancel_timer epoll_fire l0 h l" "length h < 2 ^ 64 - 1"
  have "timers_ok (timers l0) (next_timer_id l0)" "unat (next_timer_id l0) + length h < 2 ^ 64"
    using l by (simp_all add: timers_ok_def)
  note ept.run_exact [OF l(3) this(1) _ this(2)] ept.fires_live [OF l(3) this(1) _ this(2)]
  then show "\<forall>tid cb. map_option t_cb (map_of (timers l) tid) = Some cb \<longleftrightarrow> live tid cb h"
    "\<forall>fd tid cb l'. epoll_fire fd l = Some (tid, cb, l') \<longrightarrow> live tid cb h \<and> \<not> live tid cb (h @ [Fired tid cb])"
    using l(1) by (simp_all add: fun_eq_iff)
next
  assume k: "kq_timers k0 = []" "kq_next_timer_id k0 = 1" "timer_run kq_add_timer kq_cancel_timer kq_fire k0 h k" "length h < 2 ^ 64 - 1"
  have "timers_ok (kq_timers k0) (kq_next_timer_id k0)" "unat (kq_next_timer_id k0) + length h < 2 ^ 64"
    using k by (simp_all add: timers_ok_def)
  note kqt.run_exact [OF k(3) this(1) _ this(2)] kqt.fires_live [OF k(3) this(1) _ this(2)]
  then show "\<forall>tid cb. map_of (kq_timers k) tid = Some cb \<longleftrightarrow> live tid cb h"
    "\<forall>ident tid cb k'. kq_fire ident k = Some (tid, cb, k') \<longrightarrow> live tid cb h \<and> \<not> live tid cb (h @ [Fired tid cb])"
    using k(1) by (simp_all add: fun_eq_iff)
qed

definition demo_loop_os :: OS where
  "demo_loop_os = \<lparr>script = map reply [7, 0, 0], trace = [], os_logger = None, os_log = [],
     os_strerror = (\<lambda>_. []), os_stderr = []\<rparr>"

theorem timers_exact_witness:
  "\<exists>l k. timer_run add_timer cancel_timer epoll_fire \<lparr>epfd = 3, timer_fd_to_id = [], timers = [], next_timer_id = 1\<rparr> [Armed 1 (7 :: nat)] l \<and>
     timer_run kq_add_timer kq_cancel_timer kq_fire \<lparr>kqfd = 3, kq_timers = [], kq_next_timer_id = 1, registered = []\<rparr> [Armed 1 (7 :: nat)] k \<and>
     map_option t_cb (map_of (timers l) 1) = Some 7 \<and> map_of (kq_timers k) 1 = Some 7"
proof -
  let ?l0 = "\<lparr>epfd = 3, timer_fd_to_id = [], timers = [], next_timer_id = 1\<rparr> :: nat EpollLoop"
  let ?k0 = "\<lparr>kqfd = 3, kq_timers = [], kq_next_timer_id = 1, registered = []\<rparr> :: nat KqueueLoop"
  obtain l os where "add_timer 1000 7 ?l0 demo_loop_os = Some ((Inr 1, l), os)"
    by (simp add: add_timer_def demo_loop_os_def reply_def bind_io_def call_def return_io_def Let_def valid_fd_def)
  from armed [where arm = add_timer and cancel = cancel_timer and fire = epoll_fire, OF start this] have l: "timer_run add_timer cancel_timer epoll_fire ?l0 [Armed 1 (7 :: nat)] l" by simp
  obtain k os' where "kq_add_timer 1000 7 ?k0 demo_loop_os = Some ((Inr 1, k), os')"
    by (simp add: kq_add_timer_def demo_loop_os_def reply_def bind_io_def call_def return_io_def Let_def)
  from armed [where arm = kq_add_timer and cancel = kq_cancel_timer and fire = kq_fire, OF start this] have k: "timer_run kq_add_timer kq_cancel_timer kq_fire ?k0 [Armed 1 (7 :: nat)] k" by simp
  have "live 1 7 [Armed 1 (7 :: nat)]" using live_snoc [of 1 "7 :: nat" "[]" "Armed 1 (7 :: nat)"] by simp
  with timers_exact [of ?l0 "[Armed 1 (7 :: nat)]" l ?k0 k] l k
  have "map_option t_cb (map_of (timers l) 1) = Some 7" "map_of (kq_timers k) 1 = Some 7" by auto
  with l k show ?thesis by blast
qed

end
