(* ===== verification/Proxy_Server.thy ===== *)
theory Proxy_Server
  imports Proxy_Io Event_Loop
begin

text \<open>
  The server (\<^verbatim>\<open>ProxyServer\<close> of \<^verbatim>\<open>include/uproxy/proxy.h\<close> and \<^verbatim>\<open>src/proxy.cpp\<close>): listeners, accepting,
  the events of a client connection, HTTP/1.1 and HTTP/2 requests, the tick, and the main loop.

  Every member function is a function on the record \<open>ProxyServer\<close>.  A reference to a connection of
  the source is its value here, stored back with \<open>put_conn\<close> before anything else can look it up.
  Handlers that may return before their end give a flag that says whether the caller goes on.
  The loop is the one on epoll; its only timer callback is \<^verbatim>\<open>on_tick\<close>.
\<close>

section \<open>State\<close>

datatype TimerFn = OnTick

record ProxyServer =
  sv_cfg :: ProxyConfig
  sv_loop :: "TimerFn EpollLoop"
  listen_fd :: Uniquefd
  tls_listen_fd :: Uniquefd
  tls_ctx :: "TLSContextImpl option"
  sv_lb :: WeightedRoundRobin
  sv_pools :: PoolManager
  sv_conns :: "(int \<times> ClientConn) list"

definition new_ProxyServer :: "ProxyConfig \<Rightarrow> ProxyServer io" where
  "new_ProxyServer cfg =
     bind_io new_EpollLoop (\<lambda>l. return_io
       \<lparr>sv_cfg = cfg, sv_loop = l, listen_fd = -1, tls_listen_fd = -1, tls_ctx = None,
        sv_lb = new_WeightedRoundRobin (upstreams cfg), sv_pools = new_PoolManager (cfg_pool cfg), sv_conns = []\<rparr>)"

definition put_conn :: "int \<Rightarrow> ClientConn \<Rightarrow> ProxyServer \<Rightarrow> ProxyServer" where
  "put_conn fd conn srv = srv\<lparr>sv_conns := assign fd conn (sv_conns srv)\<rparr>"

definition put_loop :: "TimerFn EpollLoop \<Rightarrow> ProxyServer \<Rightarrow> ProxyServer" where
  "put_loop l srv = srv\<lparr>sv_loop := l\<rparr>"

definition destroy_client :: "ClientConn \<Rightarrow> unit io" where
  "destroy_client conn = destroy_fd (cc_fd conn)"

section \<open>Listeners\<close>

text \<open>What \<^verbatim>\<open>setup_listeners\<close> does, twice, with a socket it has opened; the texts differ.\<close>

record ListenTexts =
  lt_log :: string
  lt_addr :: string
  lt_bind :: string
  lt_listen :: string

definition plain_texts :: ListenTexts where
  "plain_texts = \<lparr>lt_log = ''invalid listen_addr, inet_pton failed'', lt_addr = ''invalid listen address: '',
     lt_bind = ''bind listen'', lt_listen = ''listen''\<rparr>"

definition tls_texts :: ListenTexts where
  "tls_texts = \<lparr>lt_log = ''invalid listen_addr for TLS, inet_pton failed'', lt_addr = ''invalid TLS listen address: '',
     lt_bind = ''bind tls listen'', lt_listen = ''listen tls''\<rparr>"

definition listen_on :: "ListenTexts \<Rightarrow> Uniquefd \<Rightarrow> u16 \<Rightarrow> ProxyServer \<Rightarrow> unit result io" where
  "listen_on tx fd port srv =
     (let addr = listen_addr (sv_cfg srv) in
      try_io (set_reuse fd) (\<lambda>_.
        try_io (set_nonblocking fd) (\<lambda>_.
          bind_io (call (Inet_pton addr)) (\<lambda>p.
            if ret p \<noteq> 1
            then bind_io (log_error_io (lt_log tx) [(''addr'', addr)])
                   (\<lambda>_. return_io (Inl (from_code SysError (lt_addr tx @ addr))))
            else bind_io (call (Bind fd addr port)) (\<lambda>b.
              if ret b < 0 then return_io (Inl (from_errno (err b) (lt_bind tx)))
              else bind_io (call (Listen fd)) (\<lambda>l.
                if ret l < 0 then return_io (Inl (from_errno (err l) (lt_listen tx)))
                else add fd EvRead (sv_loop srv)))))))"

definition setup_listeners :: "ProxyServer \<Rightarrow> (unit result \<times> ProxyServer) io" where
  "setup_listeners srv =
     bind_io (call Socket) (\<lambda>s.
       bind_io (reset_fd (listen_fd srv) (ret s)) (\<lambda>fd.
         let srv1 = srv\<lparr>listen_fd := fd\<rparr> in
         if \<not> valid_fd fd then return_io (Inl (from_errno (err s) ''socket listen''), srv1)
         else bind_io (listen_on plain_texts fd (listen_port (sv_cfg srv1)) srv1) (\<lambda>r.
           if is_err r \<or> \<not> tls_enabled (cfg_tls (sv_cfg srv1)) then return_io (r, srv1)
           else bind_io (call Socket) (\<lambda>s2.
             bind_io (reset_fd (tls_listen_fd srv1) (ret s2)) (\<lambda>fd2.
               let srv2 = srv1\<lparr>tls_listen_fd := fd2\<rparr> in
               if \<not> valid_fd fd2 then return_io (Inl (from_errno (err s2) ''socket tls listen''), srv2)
               else bind_io (listen_on tls_texts fd2 (tls_port (sv_cfg srv2)) srv2) (\<lambda>r2. return_io (r2, srv2)))))))"

section \<open>Closing and accepting\<close>

definition close_conn :: "int \<Rightarrow> string \<Rightarrow> ProxyServer \<Rightarrow> ProxyServer io" where
  "close_conn fd reason srv =
     bind_io (remove fd (sv_loop srv)) (\<lambda>_.
       case map_of (sv_conns srv) fd of
         None \<Rightarrow> return_io srv
       | Some conn \<Rightarrow>
           bind_io (log_info_io ''connection closed'' [(''fd'', show_int fd), (''reason'', reason)]) (\<lambda>_.
             bind_io (destroy_client conn) (\<lambda>_. return_io (srv\<lparr>sv_conns := erase fd (sv_conns srv)\<rparr>))))"

text \<open>Closing with a reason that ends in an error's text.\<close>

definition close_error :: "int \<Rightarrow> string \<Rightarrow> Error \<Rightarrow> ProxyServer \<Rightarrow> ProxyServer io" where
  "close_error fd what e srv = bind_io (error_text e) (\<lambda>t. close_conn fd (what @ t) srv)"

definition accepted_conn :: "bool \<Rightarrow> int \<Rightarrow> u64 \<Rightarrow> Reply \<Rightarrow> ProxyServer \<Rightarrow> ClientConn" where
  "accepted_conn tls fd t ntop srv =
     (let c0 = new_ClientConn\<lparr>cc_fd := fd\<rparr>;
          c1 = (if tls then c0\<lparr>cc_state := TLSHandshake, tls_conn := Some (new_TLSConn (tls_ctx srv) True)\<rparr>
                else c0\<lparr>cc_state := ReadRequest\<rparr>);
          c2 = c1\<lparr>connected_at_ms := t\<rparr>
      in if ret ntop \<noteq> 0 then c2\<lparr>remote_addr := string_of_bytes (out ntop)\<rparr> else c2)"

text \<open>One round of \<^verbatim>\<open>on_accept\<close>, and what it does with the answer of \<^verbatim>\<open>accept\<close>; the flag says whether
  the loop goes on.\<close>

definition accepted :: "bool \<Rightarrow> Reply \<Rightarrow> ProxyServer \<Rightarrow> (bool \<times> ProxyServer) io" where
  "accepted tls a srv =
     (let fd = ret a in
      if \<not> valid_fd fd
      then if err a = EAGAIN then return_io (False, srv)
           else bind_io (strerror_io (err a)) (\<lambda>t.
             bind_io (log_warn_io ''accept failed'' [(''error'', t)]) (\<lambda>_. return_io (False, srv)))
      else bind_io (set_nonblocking fd) (\<lambda>_.
        bind_io now_ms (\<lambda>t.
          bind_io (call Inet_ntop) (\<lambda>n.
            let conn = accepted_conn tls fd t n srv in
            bind_io (add fd EvRead (sv_loop srv)) (\<lambda>r.
              case r of
                Inl e \<Rightarrow>
                  bind_io (error_text e) (\<lambda>tx.
                    bind_io (log_warn_io ''event add failed'' [(''error'', tx)]) (\<lambda>_.
                      bind_io (destroy_client conn) (\<lambda>_. return_io (True, srv))))
              | Inr _ \<Rightarrow>
                  if fd \<in> fst ` set (sv_conns srv)
                  then bind_io (destroy_client conn) (\<lambda>_. return_io (True, srv))
                  else return_io (True, srv\<lparr>sv_conns := sv_conns srv @ [(fd, conn)]\<rparr>))))))"

definition accept_one :: "int \<Rightarrow> bool \<Rightarrow> ProxyServer \<Rightarrow> (bool \<times> ProxyServer) io" where
  "accept_one lfd tls srv = bind_io (call (Accept lfd)) (\<lambda>a. accepted tls a srv)"

section \<open>The TLS handshake\<close>

text \<open>The receive loop: the reason to close, if it ends in one.\<close>

function handshake_recv :: "int \<Rightarrow> TLSConn \<Rightarrow> OS \<Rightarrow> (string option \<times> OS) option" where
  "handshake_recv fd t os =
     bind_io (call (Recv fd 8192)) (\<lambda>r s.
       if ret r > 0 then bind_io (feed_encrypted (take (nat (ret r)) (out r)) t) (\<lambda>_ s2. handshake_recv fd t s2) s
       else if ret r = 0 then return_io (Some ''eof in handshake'') s
       else if err r = EAGAIN then return_io None s
       else return_io (Some ''recv error in handshake'') s) os"
  by pat_completeness auto
termination
  by (relation "measure (\<lambda>(_, _, os). length (script os))") (auto dest!: call_shorter feed_encrypted_le)

declare handshake_recv.simps [simp del]

definition handshake_done_conn :: "TLSConn \<Rightarrow> ClientConn \<Rightarrow> ClientConn" where
  "handshake_done_conn t conn =
     conn\<lparr>cc_state := ReadRequest, cc_proto := (if alpn_protocol t = ''h2'' then HTTP2 else HTTP1)\<rparr>"

definition finish_handshake :: "int \<Rightarrow> TLSConn \<Rightarrow> ClientConn \<Rightarrow> ProxyServer \<Rightarrow> ProxyServer io" where
  "finish_handshake fd t conn srv =
     bind_io (do_handshake t) (\<lambda>(state_res, t1).
       bind_io (flush_tls_ciphertext (conn\<lparr>tls_conn := Some t1\<rparr>) fd) (\<lambda>(flushed, conn1).
         let srv1 = put_conn fd conn1 srv in
         case (case flushed of Inl e \<Rightarrow> if is_would_block e then None else Some e | Inr _ \<Rightarrow> None) of
           Some e \<Rightarrow> close_error fd ''send error in handshake: '' e srv1
         | None \<Rightarrow>
             (case state_res of
                Inl e \<Rightarrow> close_error fd ''tls handshake error: '' e srv1
              | Inr Done \<Rightarrow>
                  let srv2 = put_conn fd (handshake_done_conn t1 conn1) srv1
                  in bind_io (modify fd (EvRead OR EvWrite) (sv_loop srv2)) (\<lambda>_. return_io srv2)
              | Inr Pending \<Rightarrow> return_io srv1)))"

text \<open>A connection in the handshake state has a \<^verbatim>\<open>tls_conn\<close>; without one nothing happens here.\<close>

definition on_handshake :: "int \<Rightarrow> Event \<Rightarrow> ClientConn \<Rightarrow> ProxyServer \<Rightarrow> ProxyServer io" where
  "on_handshake fd events conn srv =
     (case tls_conn conn of
        None \<Rightarrow> return_io srv
      | Some t \<Rightarrow>
          bind_io (if has events EvRead then handshake_recv fd t else return_io None) (\<lambda>stop.
            case stop of
              Some reason \<Rightarrow> close_conn fd reason srv
            | None \<Rightarrow> finish_handshake fd t conn srv))"

section \<open>HTTP/1.1 requests\<close>

definition response_501 :: string where
  "response_501 = ''HTTP/1.1 501 Not Implemented'' @ CRLF @ ''Content-Length: 0'' @ CRLF @ ''Connection: close'' @ CRLF @ CRLF"

definition response_503 :: string where
  "response_503 = ''HTTP/1.1 503 Service Unavailable'' @ CRLF @ ''Content-Length: 0'' @ CRLF @ ''Connection: close'' @ CRLF @ CRLF"

definition response_502 :: string where
  "response_502 = ''HTTP/1.1 502 Bad Gateway'' @ CRLF @ ''Content-Length: 0'' @ CRLF @ ''Connection: close'' @ CRLF @ CRLF"

text \<open>An answer of the proxy itself, after which the connection is closed.\<close>

definition refuse :: "string \<Rightarrow> ClientConn \<Rightarrow> ClientConn" where
  "refuse answer conn = conn\<lparr>wbuf := snd (append_str answer (wbuf conn)), cc_keep_alive := False\<rparr>"

definition forward_request ::
  "HttpRequest \<Rightarrow> bytes \<Rightarrow> ClientConn \<Rightarrow> WeightedRoundRobin \<Rightarrow> PoolManager \<Rightarrow>
     (ClientConn \<times> WeightedRoundRobin \<times> PoolManager) io" where
  "forward_request req body conn lb0 pools =
     (case next_lb lb0 of
        (None, lb) \<Rightarrow> return_io (refuse response_503 conn, lb, pools)
      | (Some i, lb) \<Rightarrow>
          let conn1 = conn\<lparr>cc_upstream := Some i\<rparr> in
          bind_io (forward_http1 req body i lb pools) (\<lambda>(response, lb1, pools1).
            case response of
              Inl e \<Rightarrow>
                let lb2 = add_failed i lb1 in
                bind_io (error_text e) (\<lambda>t.
                  bind_io (log_warn_io ''upstream request failed'' [(''upstream'', ep_name (endpoints lb2 ! i)), (''error'', t)])
                    (\<lambda>_. return_io (refuse response_502 conn1, lb2, pools1)))
            | Inr bytes \<Rightarrow> return_io (conn1\<lparr>wbuf := snd (append_rb bytes (wbuf conn1))\<rparr>, lb1, pools1)))"

definition serve_request :: "int \<Rightarrow> HttpRequest \<Rightarrow> ClientConn \<Rightarrow> ProxyServer \<Rightarrow> ProxyServer io" where
  "serve_request fd req conn srv =
     (let rb1 = commit_read (req_header_bytes req) (rbuf conn);
          body = peek (unat (req_content_length req)) rb1;
          rb2 = commit_read (unat (req_content_length req)) rb1;
          conn1 = conn\<lparr>rbuf := rb2, cc_keep_alive := req_keep_alive req\<rparr>
      in bind_io (forward_request req body conn1 (sv_lb srv) (sv_pools srv)) (\<lambda>(conn2, lb, pools).
           let srv1 = put_conn fd (conn2\<lparr>req_count := req_count conn2 + 1\<rparr>) (srv\<lparr>sv_lb := lb, sv_pools := pools\<rparr>)
           in bind_io (modify fd (EvRead OR EvWrite) (sv_loop srv1)) (\<lambda>_. return_io srv1)))"

definition on_h1_input :: "int \<Rightarrow> ClientConn \<Rightarrow> ProxyServer \<Rightarrow> (bool \<times> ProxyServer) io" where
  "on_h1_input fd conn srv =
     (case parse_request (rbuf conn) empty_request of
        (PError, _) \<Rightarrow> bind_io (close_conn fd ''bad request'' srv) (\<lambda>srv1. return_io (False, srv1))
      | (Incomplete, _) \<Rightarrow> return_io (True, srv)
      | (Complete, req) \<Rightarrow>
          if req_chunked req
          then let conn1 = refuse response_501 conn;
                   srv1 = put_conn fd (conn1\<lparr>rbuf := commit_read (req_header_bytes req) (rbuf conn1)\<rparr>) srv
               in bind_io (modify fd (EvRead OR EvWrite) (sv_loop srv1)) (\<lambda>_. return_io (False, srv1))
          else let buffered_body = (if readable (rbuf conn) > req_header_bytes req
                                    then readable (rbuf conn) - req_header_bytes req else 0)
               in if unat (req_content_length req) > buffered_body then return_io (False, srv)
                  else bind_io (serve_request fd req conn srv) (\<lambda>srv1. return_io (True, srv1)))"

section \<open>HTTP/2 requests\<close>

text \<open>The loop over the header fields of a stream.\<close>

record H2Fields =
  hf_method :: string
  hf_path :: string
  hf_authority :: string
  hf_headers :: "HttpHeader list"

definition h2_field :: "HpackHeader \<Rightarrow> H2Fields \<Rightarrow> H2Fields" where
  "h2_field h f =
     (if hp_name h = '':method'' then f\<lparr>hf_method := hp_value h\<rparr>
      else if hp_name h = '':path'' then f\<lparr>hf_path := hp_value h\<rparr>
      else if hp_name h = '':authority'' then f\<lparr>hf_authority := hp_value h\<rparr>
      else if hp_name h \<noteq> [] \<and> hd (hp_name h) \<noteq> CHR '':''
      then f\<lparr>hf_headers := hf_headers f @ [\<lparr>h_name = hp_name h, h_value = hp_value h\<rparr>]\<rparr>
      else f)"

definition h2_request :: "HpackHeader list \<Rightarrow> bytes \<Rightarrow> HttpRequest" where
  "h2_request headers body =
     (let f = fold h2_field headers \<lparr>hf_method = [], hf_path = [], hf_authority = [], hf_headers = []\<rparr>
      in empty_request\<lparr>req_headers := hf_headers f, req_method := hf_method f, req_target := hf_path f,
           req_version := ''HTTP/1.1'', req_keep_alive := True, req_content_length := word_of_nat (length body)\<rparr>)"

definition plain_header :: "string \<Rightarrow> string \<Rightarrow> HpackHeader" where
  "plain_header name val = \<lparr>hp_name = name, hp_value = val, hp_sensitive = False\<rparr>"

definition h2_refusal :: "string \<Rightarrow> HpackHeader list" where
  "h2_refusal status = [plain_header '':status'' status, plain_header ''content-length'' ''0'']"

definition hop_by_hop :: "HttpHeader \<Rightarrow> bool" where
  "hop_by_hop h \<longleftrightarrow> lower (h_name h) \<in> {''connection'', ''keep-alive'', ''transfer-encoding'', ''upgrade''}"

text \<open>The header list and body that \<^verbatim>\<open>handle_h2_client\<close> makes of the upstream's bytes.\<close>

definition h2_response :: "bytes \<Rightarrow> HpackHeader list \<times> bytes" where
  "h2_response resp_bytes =
     (let resp_buf = snd (append_rb resp_bytes (new_RingBuffer (length resp_bytes)))
      in case parse_response resp_buf empty_response of
           (Complete, resp) \<Rightarrow>
             (plain_header '':status'' (show_int (resp_status resp)) #
                map (\<lambda>h. plain_header (h_name h) (h_value h)) (filter (\<lambda>h. \<not> hop_by_hop h) (resp_headers resp)),
              drop (resp_header_bytes resp) resp_bytes)
         | _ \<Rightarrow> (h2_refusal ''502'', []))"

definition h2_answer :: "u32 \<Rightarrow> HpackHeader list \<times> bytes \<Rightarrow> H2Conn \<Rightarrow> H2Conn" where
  "h2_answer sid answer h2 = snd (send_response sid (fst answer) (snd answer) True h2)"

text \<open>One stream that \<open>process\<close> reported.  Such a stream is in the table; one that is not would make
  \<^verbatim>\<open>streams_.at\<close> throw, and has no effect here.\<close>

definition h2_stream ::
  "u32 \<Rightarrow> ClientConn \<Rightarrow> H2Conn \<Rightarrow> WeightedRoundRobin \<Rightarrow> PoolManager \<Rightarrow>
     (ClientConn \<times> H2Conn \<times> WeightedRoundRobin \<times> PoolManager) io" where
  "h2_stream sid conn h2 lb0 pools =
     (case (stream_headers sid h2, stream_body sid h2) of
        (Some headers, Some body) \<Rightarrow>
          let finish = (\<lambda>h. case consume_body sid (length body) h of None \<Rightarrow> h | Some h' \<Rightarrow> h') in
          (case next_lb lb0 of
             (None, lb) \<Rightarrow> return_io (conn, finish (h2_answer sid (h2_refusal ''503'', []) h2), lb, pools)
           | (Some i, lb) \<Rightarrow>
               let conn1 = conn\<lparr>cc_upstream := Some i\<rparr> in
               bind_io (forward_http1 (h2_request headers body) body i lb pools) (\<lambda>(response, lb1, pools1).
                 case response of
                   Inl e \<Rightarrow>
                     let lb2 = add_failed i lb1 in
                     bind_io (error_text e) (\<lambda>t.
                       bind_io (log_warn_io ''h2 upstream failed'' [(''upstream'', ep_name (endpoints lb2 ! i)), (''error'', t)])
                         (\<lambda>_. return_io (conn1, finish (h2_answer sid (h2_refusal ''502'', []) h2), lb2, pools1)))
                 | Inr resp_bytes \<Rightarrow>
                     return_io (conn1, finish (h2_answer sid (h2_response resp_bytes) h2), lb1, pools1)))
      | _ \<Rightarrow> return_io (conn, h2, lb0, pools))"

fun h2_streams ::
  "u32 list \<Rightarrow> ClientConn \<Rightarrow> H2Conn \<Rightarrow> WeightedRoundRobin \<Rightarrow> PoolManager \<Rightarrow>
     (ClientConn \<times> H2Conn \<times> WeightedRoundRobin \<times> PoolManager) io" where
  "h2_streams [] conn h2 lb pools = return_io (conn, h2, lb, pools)"
| "h2_streams (sid # sids) conn h2 lb pools =
     bind_io (h2_stream sid conn h2 lb pools) (\<lambda>(conn1, h21, lb1, pools1). h2_streams sids conn1 h21 lb1 pools1)"

text \<open>Handing the output over to the client's buffer, and closing a connection that is done.\<close>

definition h2_flush :: "int \<Rightarrow> ClientConn \<Rightarrow> H2Conn \<Rightarrow> ProxyServer \<Rightarrow> ProxyServer io" where
  "h2_flush fd conn h2 srv =
     (let output = pending_output h2 in
      bind_io
        (if output \<noteq> []
         then let h21 = consume_output (length output) h2;
                  srv1 = put_conn fd (conn\<lparr>wbuf := snd (append_rb output (wbuf conn)), h2conn := Some h21\<rparr>) srv
              in bind_io (modify fd (EvRead OR EvWrite) (sv_loop srv1)) (\<lambda>_. return_io srv1)
         else return_io (put_conn fd (conn\<lparr>h2conn := Some h2\<rparr>) srv))
        (\<lambda>srv1. if is_done h2 then close_conn fd ''h2 done'' srv1 else return_io srv1))"

definition h2_feed :: "ClientConn \<Rightarrow> H2Conn \<Rightarrow> unit result \<times> ClientConn \<times> H2Conn" where
  "h2_feed conn h2 =
     (if readable (rbuf conn) > 0
      then let data = peek (readable (rbuf conn)) (rbuf conn)
           in case feed data h2 of
                (Inl e, h21) \<Rightarrow> (Inl e, conn, h21)
              | (Inr _, h21) \<Rightarrow> (Inr (), conn\<lparr>rbuf := commit_read (length data) (rbuf conn)\<rparr>, h21)
      else (Inr (), conn, h2))"

definition handle_h2_client :: "ClientConn \<Rightarrow> int \<Rightarrow> ProxyServer \<Rightarrow> ProxyServer io" where
  "handle_h2_client conn fd srv =
     (let h20 = (case h2conn conn of None \<Rightarrow> new_H2Conn True | Some h \<Rightarrow> h) in
      case h2_feed conn h20 of
        (Inl e, conn1, h21) \<Rightarrow> close_error fd ''h2 feed error: '' e (put_conn fd (conn1\<lparr>h2conn := Some h21\<rparr>) srv)
      | (Inr _, conn1, h21) \<Rightarrow>
          (case process h21 of
             (Inl e, h22) \<Rightarrow> close_error fd ''h2 process error: '' e (put_conn fd (conn1\<lparr>h2conn := Some h22\<rparr>) srv)
           | (Inr ready, h22) \<Rightarrow>
               bind_io (h2_streams ready conn1 h22 (sv_lb srv) (sv_pools srv)) (\<lambda>(conn2, h23, lb, pools).
                 h2_flush fd conn2 h23 (srv\<lparr>sv_lb := lb, sv_pools := pools\<rparr>))))"

section \<open>Events\<close>

definition on_client_read :: "int \<Rightarrow> ClientConn \<Rightarrow> ProxyServer \<Rightarrow> (bool \<times> ProxyServer) io" where
  "on_client_read fd conn srv =
     bind_io (read_client_input conn fd) (\<lambda>(r, conn1).
       let srv1 = put_conn fd conn1 srv in
       case r of
         Inl e \<Rightarrow> bind_io (close_error fd ''recv error: '' e srv1) (\<lambda>srv2. return_io (False, srv2))
       | Inr eof \<Rightarrow>
           if eof then bind_io (close_conn fd ''eof'' srv1) (\<lambda>srv2. return_io (False, srv2))
           else if cc_proto conn1 = HTTP2
           then bind_io (handle_h2_client conn1 fd srv1) (\<lambda>srv2. return_io (False, srv2))
           else on_h1_input fd conn1 srv1)"

definition on_client_write :: "int \<Rightarrow> ClientConn \<Rightarrow> ProxyServer \<Rightarrow> ProxyServer io" where
  "on_client_write fd conn srv =
     bind_io (write_client_output conn fd) (\<lambda>(r, conn1).
       let srv1 = put_conn fd conn1 srv in
       case r of
         Inl e \<Rightarrow> if is_would_block e then return_io srv1 else close_error fd ''send error: '' e srv1
       | Inr _ \<Rightarrow>
           if \<not> cc_keep_alive conn1 then close_conn fd ''response complete'' srv1
           else bind_io (modify fd EvRead (sv_loop srv1)) (\<lambda>_. return_io srv1))"

definition on_client_event :: "int \<Rightarrow> Event \<Rightarrow> ProxyServer \<Rightarrow> ProxyServer io" where
  "on_client_event fd events srv =
     (case map_of (sv_conns srv) fd of
        None \<Rightarrow> return_io srv
      | Some conn \<Rightarrow>
          if has events EvHangUp \<or> has events EvError then close_conn fd ''peer closed'' srv
          else if cc_state conn = TLSHandshake then on_handshake fd events conn srv
          else bind_io (if has events EvRead then on_client_read fd conn srv else return_io (True, srv)) (\<lambda>(go, srv1).
            case map_of (sv_conns srv1) fd of
              Some conn1 \<Rightarrow> if go \<and> has events EvWrite then on_client_write fd conn1 srv1 else return_io srv1
            | None \<Rightarrow> return_io srv1))"

definition on_tick :: "ProxyServer \<Rightarrow> ProxyServer io" where
  "on_tick srv =
     bind_io now_ms (\<lambda>t.
       bind_io (tick t (sv_pools srv)) (\<lambda>pools.
         let srv1 = srv\<lparr>sv_pools := pools\<rparr> in
         bind_io (call (Loop Shutdown_flag)) (\<lambda>f.
           if ret f = 0
           then bind_io (add_timer 1000 OnTick (sv_loop srv1)) (\<lambda>(_, l). return_io (put_loop l srv1))
           else return_io srv1)))"

section \<open>Descriptors\<close>

text \<open>What the server holds.  \<open>held fd conn srv\<close>: \<open>conn\<close> may stand for the connection stored under
  \<open>fd\<close>, since it has the same descriptor.\<close>

definition client_fds :: "ClientConn \<Rightarrow> int multiset" where
  "client_fds conn = owned (cc_fd conn)"

definition server_fds :: "ProxyServer \<Rightarrow> int multiset" where
  "server_fds srv =
     total_of client_fds (sv_conns srv) + mgr_fds (sv_pools srv) + owned (tls_listen_fd srv) + owned (listen_fd srv) +
     loop_fds (sv_loop srv)"

definition held :: "int \<Rightarrow> ClientConn \<Rightarrow> ProxyServer \<Rightarrow> bool" where
  "held fd conn srv \<longleftrightarrow> (\<exists>c. map_of (sv_conns srv) fd = Some c \<and> cc_fd c = cc_fd conn)"

lemma server_fds_lb [simp]: "server_fds (srv\<lparr>sv_lb := lb\<rparr>) = server_fds srv"
  by (simp add: server_fds_def)

lemma held_put [simp]: "held fd conn (put_conn fd conn srv)"
  by (simp add: held_def put_conn_def)

lemma held_updates [simp]: "held fd conn (srv\<lparr>sv_lb := lb, sv_pools := pools\<rparr>) = held fd conn srv"
  by (simp add: held_def)

lemma held_same: "held fd conn srv \<Longrightarrow> cc_fd conn' = cc_fd conn \<Longrightarrow> held fd conn' srv"
  by (auto simp: held_def)

lemma server_fds_put: "held fd conn srv \<Longrightarrow> server_fds (put_conn fd conn srv) = server_fds srv"
  using total_of_erase [of "sv_conns srv" fd _ client_fds] total_of_assign [of "sv_conns srv" fd _ client_fds conn]
  by (auto simp: held_def server_fds_def put_conn_def client_fds_def)

lemma moves_neutral: "(\<And>os. only neutral os (m os)) \<Longrightarrow> (\<And>x. P x \<Longrightarrow> moves old new (f x)) \<Longrightarrow> yields P m \<Longrightarrow> moves old new (bind_io m f)"
  by (rule moves_bind_yields [OF only_moves])

lemma moves_close_conn: "moves (server_fds srv) server_fds (close_conn fd reason srv)"
proof (cases "map_of (sv_conns srv) fd")
  case None
  then show ?thesis unfolding close_conn_def by (intro moves_bind [OF moves_loop(3)]) (simp add: moves_return)
next
  case (Some conn)
  let ?srv = "srv\<lparr>sv_conns := erase fd (sv_conns srv)\<rparr>"
  have "server_fds srv = server_fds ?srv + owned (cc_fd conn)"
    using total_of_erase [OF Some, of client_fds] by (simp add: server_fds_def client_fds_def ac_simps)
  then show ?thesis
    unfolding close_conn_def Some option.case destroy_client_def
    by (intro moves_bind [OF moves_loop(3)] moves_bind [OF moves_log(1)]) (simp add: moves_bind [OF moves_destroy'] moves_return)
qed

lemma moves_close_error: "moves (server_fds srv) server_fds (close_error fd what e srv)"
  unfolding close_error_def by (rule moves_bind [OF moves_log(4) moves_close_conn])

lemma moves_accepted: "moves (server_fds srv + owned (ret a)) (\<lambda>(_, srv'). server_fds srv') (accepted tls a srv)"
proof -
  have c: "cc_fd (accepted_conn tls fd t n srv) = fd" for fd t n by (simp add: accepted_conn_def Let_def)
  have d: "moves (server_fds srv + owned fd) (\<lambda>(_, srv'). server_fds srv')
     (bind_io (destroy_client (accepted_conn tls fd t n srv)) (\<lambda>_. return_io (True, srv)))" for fd t n
    unfolding destroy_client_def c by (rule moves_bind [OF moves_destroy']) (simp add: moves_return)
  have a: "server_fds (srv\<lparr>sv_conns := sv_conns srv @ [(k, conn)]\<rparr>) = server_fds srv + owned (cc_fd conn)" for k conn
    by (simp add: server_fds_def client_fds_def ac_simps)
  show ?thesis
    unfolding accepted_def Let_def
    by (intro moves_if moves_return moves_bind [OF moves_log(5)] moves_bind [OF moves_log(2)]
        moves_bind [OF moves_options(1)] moves_bind [OF moves_now_ms] moves_call_bind moves_bind [OF moves_loop(1)])
      (auto simp: owned_invalid neutral_def a c split: sum.split
        intro!: moves_if moves_return moves_bind [OF moves_log(4)] moves_bind [OF moves_log(2)] d)
qed

lemma moves_accept_one: "moves (server_fds srv) (\<lambda>(_, srv'). server_fds srv') (accept_one lfd tls srv)"
  unfolding accept_one_def by (rule moves_open [OF _ _ moves_accepted]) simp_all

lemma moves_shorter: "moves old new m \<Longrightarrow> m os = Some (x, os') \<Longrightarrow> length (script os') \<le> length (script os)"
  unfolding moves_def by (rule runs_shorter)

lemma accept_one_shorter: "accept_one lfd tls srv os = Some (x, os') \<Longrightarrow> length (script os') < length (script os)"
  by (auto simp: accept_one_def bind_io_eq_Some dest!: call_shorter moves_shorter [OF moves_accepted])

section \<open>Accepting\<close>

function on_accept :: "int \<Rightarrow> bool \<Rightarrow> ProxyServer \<Rightarrow> OS \<Rightarrow> (ProxyServer \<times> OS) option" where
  "on_accept lfd tls srv os =
     bind_io (accept_one lfd tls srv)
       (\<lambda>p s. case p of (go, srv1) \<Rightarrow> if go then on_accept lfd tls srv1 s else return_io srv1 s) os"
  by pat_completeness auto
termination
  by (relation "measure (\<lambda>(_, _, _, os). length (script os))") (auto dest: accept_one_shorter)

declare on_accept.simps [simp del]

text \<open>A loop whose body says whether to go on and with which state.\<close>

lemma moves_loop_rec:
  assumes body: "\<And>st. moves (fds st) (\<lambda>(_, x). fds (nxt x)) (body st)"
    and shorter: "\<And>st os x os'. body st os = Some (x, os') \<Longrightarrow> length (script os') < length (script os)"
    and rec: "\<And>st os. loop st os = bind_io (body st) (\<lambda>p s. case p of (go, x) \<Rightarrow> if go then loop (nxt x) s else return_io x s) os"
  shows "moves (fds st) (\<lambda>x. fds (nxt x)) (loop st)"
  unfolding moves_def
proof (rule runsI)
  fix os x os' assume "loop st os = Some (x, os')"
  then show "\<exists>tr. did os tr os' \<and> fds st + opened tr = closed tr + fds (nxt x)"
  proof (induction "length (script os)" arbitrary: st os rule: less_induct)
    case less
    obtain go y s where b: "body st os = Some ((go, y), s)"
      and k: "(if go then loop (nxt y) s else return_io y s) = Some (x, os')"
      using less.prems unfolding rec [of st os] by (auto simp: bind_io_eq_Some)
    obtain tr where tr: "did os tr s" "fds st + opened tr = closed tr + fds (nxt y)"
      using runsD [OF body [unfolded moves_def] b] by (auto simp: moves_def)
    show ?case
    proof (cases go)
      case True
      then obtain tr' where tr': "did s tr' os'" "fds (nxt y) + opened tr' = closed tr' + fds (nxt x)"
        using less.hyps [OF shorter [OF b], of "nxt y"] k by auto
      from balance_trans [OF tr(2) tr'(2)] did_trans [OF tr(1) tr'(1)] show ?thesis
        by (intro exI [of _ "tr @ tr'"]) (simp add: add.assoc)
    qed (use k tr in \<open>auto simp: return_io_eq_Some\<close>)
  qed
qed

lemma moves_on_accept: "moves (server_fds srv) server_fds (on_accept lfd tls srv)"
  by (rule moves_loop_rec [where nxt = "\<lambda>x. x" and loop = "on_accept lfd tls",
        OF moves_accept_one accept_one_shorter on_accept.simps])

section \<open>Descriptors of the handlers\<close>

lemma neutral_calls [simp]:
  "neutral (Poll fd ev t)" "neutral (Send fd b)" "neutral (Recv fd n)" "neutral (Tls c)" "neutral Clock"
  by (simp_all add: neutral_def)

lemma moves_forward_attempt:
  "moves (pool_fds pool) (\<lambda>(_, _, pool'). pool_fds pool') (forward_attempt request ep pool)"
proof -
  have w: "moves old (\<lambda>_. old) (write_all fd request t)" "moves old (\<lambda>_. old) (read_response fd t)" for old fd t
    by (rule only_moves, intro only_intros; simp)+
  have k: "moves (conn_fds c + pool_fds p) (\<lambda>_. pool_fds p) (destroy_conn c)" for c p
    using moves_frame [OF moves_destroy_conn, of c "pool_fds p"] by simp
  have d: "moves (conn_fds c + pool_fds p) pool_fds (drop_conn c p)" for c p
    unfolding drop_conn_def release_def option.case
    by (intro moves_bind [OF moves_return [where new = "\<lambda>p. conn_fds c + pool_fds p"]] moves_bind [OF k] moves_return) simp_all
  have r: "moves (conn_fds c + pool_fds p) pool_fds (release (Some (c\<lparr>pc_request_count := n\<rparr>)) p)" for c p n
    using moves_release [of "Some (c\<lparr>pc_request_count := n\<rparr>)" p] by (simp add: conn_fds_def)
  show ?thesis
    unfolding forward_attempt_def
    by (rule moves_bind [OF moves_acquire])
      (auto simp: acquired_fds_def split: sum.split
        intro!: moves_return moves_bind [OF w(1)] moves_bind [OF w(2)] moves_bind [OF d] moves_bind [OF r])
qed

lemma moves_forward_loop:
  "moves (pool_fds pool) (\<lambda>(_, _, pool'). pool_fds pool') (forward_loop n request ep pool)"
proof (induction n arbitrary: ep pool)
  case (Suc n)
  have "moves (pool_fds p) (\<lambda>(_, _, pool'). pool_fds pool')
     (case a of NoConnection e \<Rightarrow> return_io (Inl e, ep', p)
      | Failed e \<Rightarrow> if n = 1 then forward_loop n request ep' p else return_io (Inl e, ep', p)
      | Response bytes \<Rightarrow> return_io (Inr bytes, ep', p))" for a ep' p
    using Suc [of p ep'] by (cases a) (auto simp: moves_return simp del: forward_loop.simps)
  then show ?case
    unfolding forward_loop.simps by (intro moves_bind [OF moves_forward_attempt]) (simp split: prod.split)
qed (simp add: moves_return)

lemma moves_forward_http1:
  "moves (mgr_fds pools) (\<lambda>(_, _, pools'). mgr_fds pools') (forward_http1 req body i lb pools)"
proof -
  obtain pool pools1 where g: "get_pool (endpoints lb) i pools = (pool, pools1)" by force
  let ?k = "total_of pool_fds (erase (ep_name (endpoints lb ! i)) (pm_pools pools1))"
  note fds = get_pool_fds [OF g, THEN conjunct1] get_pool_fds [OF g, THEN conjunct2]
  have l: "moves (pool_fds pool + ?k) (\<lambda>p. pool_fds (snd (snd p)) + ?k) (forward_loop 2 rq ep pool)" for rq ep
    using moves_frame [OF moves_forward_loop, of pool ?k 2 rq ep] by (simp add: case_prod_unfold)
  have "moves (mgr_fds pools) (\<lambda>(_, _, pools'). mgr_fds pools')
     (bind_io (forward_loop 2 rq ep pool) (\<lambda>(r, ep', pool').
        return_io (r, lb' ep', put_pool (ep_name (endpoints lb ! i)) pool' pools1)))" for rq ep lb'
    unfolding fds(1) by (rule moves_bind [OF l]) (auto intro!: moves_return simp: fds(2))
  then show ?thesis
    unfolding forward_http1_def Let_def g prod.case by (auto split: prod.split sum.split intro!: moves_return)
qed

text \<open>The connection that an operation returns is still that of its descriptor.\<close>

lemma yields_fd:
  "yields (\<lambda>(_, c). cc_fd c = cc_fd conn) (flush_tls_ciphertext conn fd)"
  "yields (\<lambda>(_, c). cc_fd c = cc_fd conn) (read_client_input conn fd)"
  "yields (\<lambda>(_, c). cc_fd c = cc_fd conn) (write_client_output conn fd)"
  "yields (\<lambda>(c, _, _). cc_fd c = cc_fd conn) (forward_request req body conn lb pools)"
proof -
  show "yields (\<lambda>(_, c). cc_fd c = cc_fd conn) (flush_tls_ciphertext conn fd)"
    by (rule yieldsI) (auto simp: gives_def dest!: flush_tls_frame)
  have fl: "flush_tls_ciphertext c fd s = Some ((r, c'), s') \<Longrightarrow> cc_fd c' = cc_fd c" for c s r c' s'
    by (auto dest!: flush_tls_frame)
  show "yields (\<lambda>(_, c). cc_fd c = cc_fd conn) (read_client_input conn fd)"
    by (rule read_client_input_frame) (auto simp: append_client_plaintext_def fl split: prod.splits)
  show "yields (\<lambda>(_, c). cc_fd c = cc_fd conn) (write_client_output conn fd)"
    by (rule write_client_output_frame) (auto simp: fl)
  show "yields (\<lambda>(c, _, _). cc_fd c = cc_fd conn) (forward_request req body conn lb pools)"
    unfolding forward_request_def Let_def
    by (rule yieldsI, intro gives_intros) (auto simp: refuse_def split: option.split intro!: gives_intros)
qed

lemma yields_h2_stream: "yields (\<lambda>(c, _, _, _). cc_fd c = cc_fd conn) (h2_stream sid conn h2 lb pools)"
  unfolding h2_stream_def Let_def
  by (rule yieldsI) (auto split: option.split intro!: gives_intros)

lemma yields_h2_streams: "yields (\<lambda>(c, _, _, _). cc_fd c = cc_fd conn) (h2_streams sids conn h2 lb pools)"
proof (induction sids arbitrary: conn h2 lb pools)
  case Nil
  show ?case by (rule yieldsI) (simp add: gives_return)
next
  case (Cons sid sids)
  show ?case
    unfolding h2_streams.simps
    by (rule yields_bind [OF yields_h2_stream]) (auto intro: yields_mono [OF Cons])
qed

lemma only_handshake_recv: "(\<And>c. Q (Tls c)) \<Longrightarrow> (\<And>n. Q (Recv fd n)) \<Longrightarrow> only Q os (handshake_recv fd t os)"
proof (induction "length (script os)" arbitrary: os rule: less_induct)
  case less
  show ?case
    by (subst handshake_recv.simps)
      (intro only_intros only_bind [of Q _ "feed_encrypted _ _"] less; (drule call_shorter feed_encrypted_le)+; simp)
qed

lemma moves_client_io:
  "moves old (\<lambda>_. old) (flush_tls_ciphertext conn fd)" "moves old (\<lambda>_. old) (read_client_input conn fd)"
  "moves old (\<lambda>_. old) (write_client_output conn fd)" "moves old (\<lambda>_. old) (handshake_recv fd t)"
  "moves old (\<lambda>_. old) (do_handshake t)"
  by (rule only_moves, intro only_intros only_read_client_input only_write_client_output only_handshake_recv; simp)+

lemma moves_modify:
  "moves (server_fds srv) server_fds (bind_io (modify fd ev l) (\<lambda>_. return_io srv))"
  "moves (server_fds srv) (\<lambda>(_, s). server_fds s) (bind_io (modify fd ev l) (\<lambda>_. return_io (b, srv)))"
  by (rule moves_bind [OF moves_loop(2)], simp add: moves_return)+

lemma moves_flag: "moves old server_fds m \<Longrightarrow> moves old (\<lambda>(_, s). server_fds s) (bind_io m (\<lambda>s. return_io (b, s)))"
  by (erule moves_bind) (simp add: moves_return)

lemma moves_put: "held fd conn srv \<Longrightarrow> moves (server_fds (put_conn fd conn srv)) new m \<Longrightarrow> moves (server_fds srv) new m"
  by (simp add: server_fds_put)

lemma moves_finish_handshake:
  assumes "held fd conn srv"
  shows "moves (server_fds srv) server_fds (finish_handshake fd t conn srv)"
  unfolding finish_handshake_def Let_def
proof (rule moves_bind [OF moves_client_io(5)], clarify, rule moves_bind_yields [OF moves_client_io(1) yields_fd(1)], clarsimp)
  fix state_res t1 flushed and conn1 :: ClientConn
  assume "cc_fd conn1 = cc_fd conn"
  then have h: "held fd conn1 srv" using assms by (auto intro: held_same)
  moreover have "held fd (handshake_done_conn t1 conn1) (put_conn fd conn1 srv)"
    by (rule held_same [OF held_put]) (simp add: handshake_done_conn_def)
  note server_fds_put [OF this]
  ultimately show "moves (server_fds srv) server_fds
     (case case flushed of Inl e \<Rightarrow> if is_would_block e then None else Some e | Inr _ \<Rightarrow> None of
        None \<Rightarrow> (case state_res of
            Inl e \<Rightarrow> close_error fd ''tls handshake error: '' e (put_conn fd conn1 srv)
          | Inr Pending \<Rightarrow> return_io (put_conn fd conn1 srv)
          | Inr Done \<Rightarrow> bind_io (modify fd (EvRead OR EvWrite) (sv_loop (put_conn fd (handshake_done_conn t1 conn1) (put_conn fd conn1 srv))))
              (\<lambda>_. return_io (put_conn fd (handshake_done_conn t1 conn1) (put_conn fd conn1 srv))))
      | Some e \<Rightarrow> close_error fd ''send error in handshake: '' e (put_conn fd conn1 srv))"
    using moves_modify(1) [of "put_conn fd (handshake_done_conn t1 conn1) (put_conn fd conn1 srv)"]
      moves_close_error [of "put_conn fd conn1 srv"]
    by (auto simp: server_fds_put split: option.split sum.split TLSHandshakeState.split intro!: moves_return)
qed

lemma moves_on_handshake:
  assumes "held fd conn srv"
  shows "moves (server_fds srv) server_fds (on_handshake fd events conn srv)"
proof (cases "tls_conn conn")
  case (Some t)
  have "moves (server_fds srv) (\<lambda>_. server_fds srv) (if has events EvRead then handshake_recv fd t else return_io None)"
    by (simp add: moves_client_io moves_return)
  then show ?thesis
    unfolding on_handshake_def Some option.case
    by (rule moves_bind) (auto split: option.split intro: moves_close_conn moves_finish_handshake [OF assms])
qed (simp add: on_handshake_def moves_return)

lemma moves_forward_request:
  "moves (mgr_fds pools) (\<lambda>(_, _, pools'). mgr_fds pools') (forward_request req body conn lb pools)"
  unfolding forward_request_def Let_def
  by (auto split: prod.split option.split sum.split intro!: moves_return moves_bind [OF moves_forward_http1]
      moves_bind [OF moves_log(4)] moves_bind [OF moves_log(2)])

text \<open>Everything but the pools, for a step that changes only these.\<close>

definition fds_but_pools :: "ProxyServer \<Rightarrow> int multiset" where
  "fds_but_pools srv =
     total_of client_fds (sv_conns srv) + owned (tls_listen_fd srv) + owned (listen_fd srv) + loop_fds (sv_loop srv)"

lemma server_fds_split: "server_fds srv = mgr_fds (sv_pools srv) + fds_but_pools srv"
  by (simp add: server_fds_def fds_but_pools_def ac_simps)

lemma server_fds_pools [simp]: "server_fds (srv\<lparr>sv_lb := lb, sv_pools := pools\<rparr>) = mgr_fds pools + fds_but_pools srv"
  by (simp add: server_fds_split) (simp add: fds_but_pools_def)

lemma moves_serve_request:
  assumes "held fd conn srv"
  shows "moves (server_fds srv) server_fds (serve_request fd req conn srv)"
  unfolding serve_request_def Let_def server_fds_split [of srv]
proof (rule moves_bind_yields [OF moves_frame [OF moves_forward_request] yields_fd(4)], goal_cases)
  case (1 q)
  obtain conn2 lb pools where q: "q = (conn2, lb, pools)" by (cases q)
  let ?srv = "srv\<lparr>sv_lb := lb, sv_pools := pools\<rparr>"
  have "held fd (conn2\<lparr>req_count := req_count conn2 + 1\<rparr>) ?srv" using assms 1 by (auto simp: q intro: held_same)
  from moves_put [OF this moves_modify(1)] show ?case by (simp add: q)
qed

lemma moves_on_h1_input:
  assumes "held fd conn srv"
  shows "moves (server_fds srv) (\<lambda>(_, s). server_fds s) (on_h1_input fd conn srv)"
proof -
  have "moves (server_fds srv) (\<lambda>(_, s). server_fds s)
     (bind_io (modify fd ev l) (\<lambda>_. return_io (False, put_conn fd ((refuse answer conn)\<lparr>rbuf := b\<rparr>) srv)))" for ev l answer b
    by (rule moves_put [OF held_same [OF assms] moves_modify(2)]) (simp add: refuse_def)
  then show ?thesis
    unfolding on_h1_input_def Let_def
    by (auto split: prod.split ParseResult.split intro!: moves_flag moves_close_conn moves_return moves_serve_request [OF assms])
qed

lemma moves_h2_stream:
  "moves (mgr_fds pools) (\<lambda>(_, _, _, pools'). mgr_fds pools') (h2_stream sid conn h2 lb pools)"
  unfolding h2_stream_def Let_def
  by (auto split: prod.split option.split sum.split intro!: moves_return moves_bind [OF moves_forward_http1]
      moves_bind [OF moves_log(4)] moves_bind [OF moves_log(2)])

lemma moves_h2_streams:
  "moves (mgr_fds pools) (\<lambda>(_, _, _, pools'). mgr_fds pools') (h2_streams sids conn h2 lb pools)"
proof (induction sids arbitrary: conn h2 lb pools)
  case (Cons sid sids)
  show ?case unfolding h2_streams.simps by (rule moves_bind [OF moves_h2_stream]) (auto intro: Cons)
qed (simp add: moves_return)

lemma moves_h2_flush:
  assumes "held fd conn srv"
  shows "moves (server_fds srv) server_fds (h2_flush fd conn h2 srv)"
proof -
  have p: "server_fds (put_conn fd (conn\<lparr>wbuf := b, h2conn := h\<rparr>) srv) = server_fds srv"
    "server_fds (put_conn fd (conn\<lparr>h2conn := h\<rparr>) srv) = server_fds srv" for b h
    by (rule server_fds_put, rule held_same [OF assms], simp)+
  show ?thesis
    unfolding h2_flush_def Let_def
  proof (rule moves_bind [where mid = server_fds])
    show "moves (server_fds srv) server_fds
       (if pending_output h2 \<noteq> []
        then bind_io (modify fd (EvRead OR EvWrite) (sv_loop (put_conn fd (conn\<lparr>wbuf := snd (append_rb (pending_output h2) (wbuf conn)),
               h2conn := Some (consume_output (length (pending_output h2)) h2)\<rparr>) srv)))
               (\<lambda>_. return_io (put_conn fd (conn\<lparr>wbuf := snd (append_rb (pending_output h2) (wbuf conn)),
                 h2conn := Some (consume_output (length (pending_output h2)) h2)\<rparr>) srv))
        else return_io (put_conn fd (conn\<lparr>h2conn := Some h2\<rparr>) srv))"
      by (intro moves_if moves_bind [OF moves_loop(2)] moves_return) (simp_all add: p)
  qed (simp add: moves_close_conn moves_return)
qed

lemma moves_handle_h2_client:
  assumes "held fd conn srv"
  shows "moves (server_fds srv) server_fds (handle_h2_client conn fd srv)"
proof -
  obtain h20 where h20: "(case h2conn conn of None \<Rightarrow> new_H2Conn True | Some h \<Rightarrow> h) = h20" by simp
  obtain r conn1 h21 where f: "h2_feed conn h20 = (r, conn1, h21)" by (cases "h2_feed conn h20")
  then have c: "cc_fd conn1 = cc_fd conn"
    by (auto simp: h2_feed_def Let_def split: if_splits prod.splits sum.splits)
  have e: "moves (server_fds srv) server_fds (close_error fd w e (put_conn fd (conn1\<lparr>h2conn := h\<rparr>) srv))" for w e h
    by (rule moves_put [OF held_same [OF assms] moves_close_error]) (simp add: c)
  have "moves (server_fds srv) server_fds
     (bind_io (h2_streams ready conn1 h22 (sv_lb srv) (sv_pools srv)) (\<lambda>(conn2, h23, lb, pools).
        h2_flush fd conn2 h23 (srv\<lparr>sv_lb := lb, sv_pools := pools\<rparr>)))" for ready h22
    unfolding server_fds_split [of srv]
  proof (rule moves_bind_yields [OF moves_frame [OF moves_h2_streams] yields_h2_streams], goal_cases)
    case (1 q)
    obtain conn2 h23 lb pools where q: "q = (conn2, h23, lb, pools)" by (cases q)
    have "held fd conn2 (srv\<lparr>sv_lb := lb, sv_pools := pools\<rparr>)" using assms c 1 by (auto simp: q intro: held_same)
    from moves_h2_flush [OF this] show ?case by (simp add: q)
  qed
  then show ?thesis
    unfolding handle_h2_client_def Let_def h20 f prod.case by (auto split: sum.split prod.split intro: e)
qed

lemma moves_on_client_read:
  assumes "held fd conn srv"
  shows "moves (server_fds srv) (\<lambda>(_, s). server_fds s) (on_client_read fd conn srv)"
  unfolding on_client_read_def Let_def
proof (rule moves_bind_yields [OF moves_client_io(2) yields_fd(2)], clarify)
  fix r and conn1 :: ClientConn assume "cc_fd conn1 = cc_fd conn"
  then have "held fd conn1 srv" using assms by (auto intro: held_same)
  then show "moves (server_fds srv) (\<lambda>(_, s). server_fds s)
     (case r of
        Inl e \<Rightarrow> bind_io (close_error fd ''recv error: '' e (put_conn fd conn1 srv)) (\<lambda>srv2. return_io (False, srv2))
      | Inr eof \<Rightarrow>
          if eof then bind_io (close_conn fd ''eof'' (put_conn fd conn1 srv)) (\<lambda>srv2. return_io (False, srv2))
          else if cc_proto conn1 = HTTP2
          then bind_io (handle_h2_client conn1 fd (put_conn fd conn1 srv)) (\<lambda>srv2. return_io (False, srv2))
          else on_h1_input fd conn1 (put_conn fd conn1 srv))"
    by (rule moves_put) (auto split: sum.split intro!: moves_flag moves_close_error moves_close_conn moves_handle_h2_client moves_on_h1_input)
qed

lemma moves_on_client_write:
  assumes "held fd conn srv"
  shows "moves (server_fds srv) server_fds (on_client_write fd conn srv)"
  unfolding on_client_write_def Let_def
proof (rule moves_bind_yields [OF moves_client_io(3) yields_fd(3)], clarify)
  fix r and conn1 :: ClientConn assume "cc_fd conn1 = cc_fd conn"
  then have "held fd conn1 srv" using assms by (auto intro: held_same)
  then show "moves (server_fds srv) server_fds
     (case r of
        Inl e \<Rightarrow> if is_would_block e then return_io (put_conn fd conn1 srv)
                 else close_error fd ''send error: '' e (put_conn fd conn1 srv)
      | Inr _ \<Rightarrow>
          if \<not> cc_keep_alive conn1 then close_conn fd ''response complete'' (put_conn fd conn1 srv)
          else bind_io (modify fd EvRead (sv_loop (put_conn fd conn1 srv))) (\<lambda>_. return_io (put_conn fd conn1 srv)))"
    by (rule moves_put) (auto split: sum.split intro!: moves_return moves_close_error moves_close_conn moves_modify)
qed

lemma held_found: "map_of (sv_conns srv) fd = Some conn \<Longrightarrow> held fd conn srv"
  by (simp add: held_def)

lemma moves_on_client_event: "moves (server_fds srv) server_fds (on_client_event fd events srv)"
proof (cases "map_of (sv_conns srv) fd")
  case (Some conn)
  have "moves (server_fds srv) (\<lambda>(_, s). server_fds s) (if has events EvRead then on_client_read fd conn srv else return_io (True, srv))"
    by (simp add: moves_on_client_read held_found [OF Some] moves_return)
  then show ?thesis
    unfolding on_client_event_def Some option.case
    by (intro moves_if moves_close_conn moves_on_handshake held_found Some, elim moves_bind)
      (auto split: option.split intro!: moves_return moves_on_client_write held_found)
qed (simp add: on_client_event_def moves_return)

definition fds_but_loop :: "ProxyServer \<Rightarrow> int multiset" where
  "fds_but_loop srv =
     total_of client_fds (sv_conns srv) + mgr_fds (sv_pools srv) + owned (tls_listen_fd srv) + owned (listen_fd srv)"

lemma server_fds_loop: "server_fds srv = loop_fds (sv_loop srv) + fds_but_loop srv"
  "server_fds (put_loop l srv) = loop_fds l + fds_but_loop srv"
  by (simp_all add: server_fds_def fds_but_loop_def put_loop_def)

lemma moves_server_timer:
  "moves (server_fds srv) (\<lambda>(_, l). server_fds (put_loop l srv)) (add_timer delay cb (sv_loop srv))"
  using moves_frame [OF moves_add_timer, of "sv_loop srv" "fds_but_loop srv" delay cb]
  by (simp only: server_fds_loop(1) [of srv] server_fds_loop(2) case_prod_unfold)

lemma moves_on_tick: "moves (server_fds srv) server_fds (on_tick srv)"
proof -
  have t: "moves (server_fds srv) (\<lambda>pools. server_fds (srv\<lparr>sv_pools := pools\<rparr>)) (tick ts (sv_pools srv))" for ts
    using moves_frame [OF moves_tick, of "sv_pools srv" "fds_but_pools srv" ts]
    by (simp add: server_fds_split) (simp add: fds_but_pools_def)
  show ?thesis
    unfolding on_tick_def Let_def
    by (intro moves_bind [OF moves_now_ms] moves_bind [OF t] moves_call_bind moves_if moves_bind [OF moves_server_timer] moves_return)
      (auto simp: neutral_def intro!: moves_return)
qed

section \<open>The main loop\<close>

definition run_timer :: "TimerFn \<Rightarrow> ProxyServer \<Rightarrow> ProxyServer io" where
  "run_timer fn srv = (case fn of OnTick \<Rightarrow> on_tick srv)"

definition dispatch :: "FiredEvent \<Rightarrow> ProxyServer \<Rightarrow> ProxyServer io" where
  "dispatch ev srv =
     (if fe_fd ev = listen_fd srv then on_accept (fe_fd ev) False srv
      else if fe_fd ev = tls_listen_fd srv then on_accept (fe_fd ev) True srv
      else on_client_event (fe_fd ev) (fe_events ev) srv)"

interpretation svl: loop_owner sv_loop put_loop run_timer dispatch server_fds
proof unfold_locales
  show "server_fds (put_loop l srv) + loop_fds (sv_loop srv) = server_fds srv + loop_fds l" for l srv
    by (simp add: server_fds_loop(1) [of srv] server_fds_loop(2) ac_simps)
  show "moves (server_fds srv) server_fds (run_timer fn srv)" for fn srv
    by (cases fn) (simp add: run_timer_def moves_on_tick)
  show "moves (server_fds srv) server_fds (dispatch ev srv)" for ev srv
    by (simp add: dispatch_def moves_on_accept moves_on_client_event)
qed

text \<open>One round of the loop of \<^verbatim>\<open>run\<close>: it ends when the flag is set or \<open>poll\<close> fails.\<close>

definition poll_round :: "ProxyServer \<Rightarrow> (bool \<times> unit result \<times> ProxyServer) io" where
  "poll_round srv =
     bind_io (call (Loop Shutdown_flag)) (\<lambda>f.
       if ret f \<noteq> 0 then return_io (False, Inr (), srv)
       else bind_io (poll sv_loop put_loop run_timer dispatch 1000 srv) (\<lambda>(polled, srv1). return_io (is_ok polled, polled, srv1)))"

lemma moves_poll_round: "moves (server_fds srv) (\<lambda>(_, x). server_fds (snd x)) (poll_round srv)"
  unfolding poll_round_def
  by (intro moves_call_bind moves_if moves_return moves_bind [OF svl.moves_poll]) (auto simp: neutral_def intro!: moves_return)

lemma poll_round_shorter: "poll_round srv os = Some (x, os') \<Longrightarrow> length (script os') < length (script os)"
  by (auto simp: poll_round_def io_elims dest!: moves_shorter [OF svl.moves_poll] split: if_splits)

function run_loop :: "ProxyServer \<Rightarrow> OS \<Rightarrow> ((unit result \<times> ProxyServer) \<times> OS) option" where
  "run_loop srv os =
     bind_io (poll_round srv) (\<lambda>p s. case p of (go, x) \<Rightarrow> if go then run_loop (snd x) s else return_io x s) os"
  by pat_completeness auto
termination
  by (relation "measure (\<lambda>(_, os). length (script os))") (auto dest: poll_round_shorter)

declare run_loop.simps [simp del]

fun close_all :: "int list \<Rightarrow> ProxyServer \<Rightarrow> ProxyServer io" where
  "close_all [] srv = return_io srv"
| "close_all (fd # fds) srv = bind_io (close_conn fd ''shutdown'' srv) (close_all fds)"

text \<open>An early return of an error, on the state.\<close>

definition try_st :: "('a result \<times> 's) io \<Rightarrow> ('a \<Rightarrow> 's \<Rightarrow> ('b result \<times> 's) io) \<Rightarrow> ('b result \<times> 's) io" where
  "try_st m f = bind_io m (\<lambda>(r, s). case r of Inl e \<Rightarrow> return_io (Inl e, s) | Inr x \<Rightarrow> f x s)"

definition load_tls :: "ProxyServer \<Rightarrow> (unit result \<times> ProxyServer) io" where
  "load_tls srv =
     (if tls_enabled (cfg_tls (sv_cfg srv))
      then bind_io (tls_context_server (cfg_tls (sv_cfg srv))) (\<lambda>t.
        case t of Inl e \<Rightarrow> return_io (Inl e, srv) | Inr c \<Rightarrow> return_io (Inr (), srv\<lparr>tls_ctx := Some c\<rparr>))
      else return_io (Inr (), srv))"

definition start_timer :: "ProxyServer \<Rightarrow> (u64 result \<times> ProxyServer) io" where
  "start_timer srv = bind_io (add_timer 1000 OnTick (sv_loop srv)) (\<lambda>(r, l). return_io (r, put_loop l srv))"

definition run :: "ProxyServer \<Rightarrow> (unit result \<times> ProxyServer) io" where
  "run srv =
     try_st (load_tls srv) (\<lambda>_ srv1.
       try_st (setup_listeners srv1) (\<lambda>_ srv2.
         try_st (start_timer srv2) (\<lambda>_ srv3.
           try_st (run_loop srv3) (\<lambda>_ srv4.
             bind_io (close_all (map fst (sv_conns srv4)) srv4) (\<lambda>srv5. return_io (Inr (), srv5))))))"

text \<open>The destructor, member by member from the last to the first.\<close>

fun destroy_clients :: "(int \<times> ClientConn) list \<Rightarrow> unit io" where
  "destroy_clients [] = return_io ()"
| "destroy_clients ((_, conn) # rest) = bind_io (destroy_client conn) (\<lambda>_. destroy_clients rest)"

fun destroy_pools :: "(string \<times> UpstreamPool) list \<Rightarrow> unit io" where
  "destroy_pools [] = return_io ()"
| "destroy_pools ((_, pool) # rest) = bind_io (destroy_conns (up_idle pool)) (\<lambda>_. destroy_pools rest)"

definition destroy_server :: "ProxyServer \<Rightarrow> unit io" where
  "destroy_server srv =
     bind_io (destroy_clients (sv_conns srv)) (\<lambda>_.
       bind_io (destroy_pools (pm_pools (sv_pools srv))) (\<lambda>_.
         bind_io (destroy_fd (tls_listen_fd srv)) (\<lambda>_.
           bind_io (destroy_fd (listen_fd srv)) (\<lambda>_. destroy_EpollLoop (sv_loop srv)))))"

end
