(* ===== verification/Server_Life.thy ===== *)
theory Server_Life
  imports Proxy_Server Config_Properties
begin

text \<open>
  The life of the server: \<^verbatim>\<open>main\<close> (\<^verbatim>\<open>src/main.cpp\<close>) and what holds from the construction of the server to
  its destruction.  Signal handlers only set the shutdown flag, which the loop reads.  The file
  system that the configuration is read from is the two arguments of \<open>load_config\<close>.
\<close>

section \<open>The program\<close>

definition stderr_io :: "string \<Rightarrow> unit io" where
  "stderr_io t os = Some ((), os\<lparr>os_stderr := os_stderr os @ t\<rparr>)"

definition set_logger :: "Logger \<Rightarrow> unit io" where
  "set_logger lg os = Some ((), os\<lparr>os_logger := Some lg\<rparr>)"

abbreviation (input) NL :: string where "NL \<equiv> [CHR 0x0A]"

text \<open>Opening the log: none after an error, otherwise whether it is a file of its own.\<close>

definition open_log :: "LogConfig \<Rightarrow> bool option io" where
  "open_log cfg =
     (if log_file cfg = [] then return_io (Some False)
      else bind_io (call (Loop (Open_log (log_file cfg)))) (\<lambda>f.
        if ret f < 0
        then bind_io (stderr_io (''Log error: cannot open '' @ c_str (log_file cfg) @ NL)) (\<lambda>_. return_io None)
        else bind_io (call (Loop (Fdopen (ret f)))) (\<lambda>d.
          if ret d = 0
          then bind_io (call (Close (ret f))) (\<lambda>_.
            bind_io (stderr_io (''Log error: fdopen failed for '' @ c_str (log_file cfg) @ NL)) (\<lambda>_. return_io None))
          else return_io (Some True))))"

definition serve :: "bool \<Rightarrow> ProxyConfig \<Rightarrow> int io" where
  "serve own_log cfg =
     bind_io (new_ProxyServer cfg) (\<lambda>srv.
       bind_io (run srv) (\<lambda>(r, srv1).
         case r of
           Inl e \<Rightarrow>
             bind_io (error_text e) (\<lambda>t.
               bind_io (log_error_io ''fatal error'' [(''msg'', t)]) (\<lambda>_.
                 bind_io (destroy_server srv1) (\<lambda>_. return_io 1)))
         | Inr _ \<Rightarrow>
             bind_io (log_info_io ''uproxy stopped cleanly'' []) (\<lambda>_.
               bind_io (if own_log then bind_io (call (Loop Fclose)) (\<lambda>_. return_io ()) else return_io ()) (\<lambda>_.
                 bind_io (destroy_server srv1) (\<lambda>_. return_io 0)))))"

definition main :: "(string \<Rightarrow> string option) \<Rightarrow> (string \<Rightarrow> bool) \<Rightarrow> string list \<Rightarrow> int io" where
  "main read_file is_reg args =
     (case load_config read_file is_reg args of
        Inl e \<Rightarrow> bind_io (error_text e) (\<lambda>t. bind_io (stderr_io (''Config error: '' @ c_str t @ NL)) (\<lambda>_. return_io 1))
      | Inr cfg \<Rightarrow>
          bind_io (open_log (cfg_log cfg)) (\<lambda>lo.
            case lo of
              None \<Rightarrow> return_io 1
            | Some own_log \<Rightarrow>
                bind_io (set_logger (new_Logger (parse_log_level (log_level (cfg_log cfg))) (log_format (cfg_log cfg) = ''json''))) (\<lambda>_.
                  bind_io (log_info_io ''uproxy starting''
                      [(''listen'', show_nat 10 (unat (listen_port cfg))), (''upstreams'', show_nat 10 (length (upstreams cfg)))])
                    (\<lambda>_. serve own_log cfg))))"

section \<open>Descriptors\<close>

lemma moves_reset: "moves (k + owned old + owned new) (\<lambda>fd. k + owned fd) (reset_fd old new)"
proof -
  have "moves (owned old) (\<lambda>_. {#}) (if old \<ge> 0 then close_loop old else return_io ())"
    using runs_mono [OF runs_close_loop [of old]]
    by (auto simp: moves_def owned_def valid_fd_def intro!: runs_return)
  from moves_frame [OF this, of "k + owned new"] show ?thesis
    unfolding reset_fd_def by (intro moves_bind) (auto simp: ac_simps intro!: moves_return)
qed

text \<open>Moving a \<^verbatim>\<open>Uniquefd\<close> hands its descriptor over: the source is left empty, and what the target held
  before is closed.\<close>

lemma moves_assign_fd:
  "moves (k + owned this + owned other) (\<lambda>(a, b). k + owned a + owned b) (assign_fd False this other)"
  "move_fd other = (other, -1)" "owned (-1) = {#}"
proof -
  show e: "owned (-1) = {#}" by (simp add: owned_def valid_fd_def)
  show "move_fd other = (other, -1)" by (simp add: move_fd_def release_fd_def new_Uniquefd_def)
  show "moves (k + owned this + owned other) (\<lambda>(a, b). k + owned a + owned b) (assign_fd False this other)"
    unfolding assign_fd_def release_fd_def by (simp, rule moves_bind [OF moves_reset]) (simp add: moves_return e)
qed

lemma moves_listen_on: "moves old (\<lambda>_. old) (listen_on tx fd port srv)"
  unfolding listen_on_def Let_def
  by (intro moves_try [OF moves_options(2)] moves_try [OF moves_options(1)] moves_call_bind moves_if
      moves_bind [OF moves_log(3)] moves_return moves_loop) (simp_all add: neutral_def)

definition but_listen :: "ProxyServer \<Rightarrow> int multiset" where
  "but_listen srv =
     total_of client_fds (sv_conns srv) + mgr_fds (sv_pools srv) + owned (tls_listen_fd srv) + loop_fds (sv_loop srv)"

definition but_tls_listen :: "ProxyServer \<Rightarrow> int multiset" where
  "but_tls_listen srv =
     total_of client_fds (sv_conns srv) + mgr_fds (sv_pools srv) + owned (listen_fd srv) + loop_fds (sv_loop srv)"

lemma server_fds_listen:
  "server_fds (srv\<lparr>listen_fd := fd\<rparr>) = but_listen srv + owned fd" "server_fds srv = but_listen srv + owned (listen_fd srv)"
  "server_fds (srv\<lparr>tls_listen_fd := fd\<rparr>) = but_tls_listen srv + owned fd"
  "server_fds srv = but_tls_listen srv + owned (tls_listen_fd srv)"
  by (simp_all add: server_fds_def but_listen_def but_tls_listen_def ac_simps)

lemma moves_reset_listen:
  "moves (server_fds srv + owned new) (\<lambda>fd. server_fds (srv\<lparr>listen_fd := fd\<rparr>)) (reset_fd (listen_fd srv) new)"
  "moves (server_fds srv + owned new) (\<lambda>fd. server_fds (srv\<lparr>tls_listen_fd := fd\<rparr>)) (reset_fd (tls_listen_fd srv) new)"
  using moves_reset [of "but_listen srv" "listen_fd srv" new] moves_reset [of "but_tls_listen srv" "tls_listen_fd srv" new]
  by (simp_all only: server_fds_listen(2) [of srv, symmetric] server_fds_listen(4) [of srv, symmetric] server_fds_listen(1,3))

lemma moves_setup_listeners: "moves (server_fds srv) (\<lambda>(_, s). server_fds s) (setup_listeners srv)"
proof -
  have t: "moves (server_fds (srv\<lparr>listen_fd := x\<rparr>) + owned new) (\<lambda>fd. server_fds (srv\<lparr>listen_fd := x, tls_listen_fd := fd\<rparr>))
     (reset_fd (tls_listen_fd srv) new)" for x new
    using moves_reset_listen(2) [of "srv\<lparr>listen_fd := x\<rparr>" new] by simp
  show ?thesis
    unfolding setup_listeners_def Let_def
    by (rule moves_open, simp, simp, intro moves_bind [OF moves_reset_listen(1)] moves_if moves_bind [OF moves_listen_on])
      (auto intro!: moves_return moves_open moves_bind [OF t] moves_if moves_bind [OF moves_listen_on])
qed

lemma moves_try_st:
  assumes "moves old (\<lambda>(_, s). fds s) m" "\<And>x s. moves (fds s) (\<lambda>(_, s). fds s) (f x s)"
  shows "moves old (\<lambda>(_, s). fds s) (try_st m f)"
  unfolding try_st_def by (rule moves_bind [OF assms(1)]) (auto split: sum.split intro!: moves_return assms(2))

lemma moves_close_all: "moves (server_fds srv) server_fds (close_all fds srv)"
  by (induction fds arbitrary: srv) (auto simp: moves_return intro: moves_bind [OF moves_close_conn])

lemma moves_run_loop: "moves (server_fds srv) (\<lambda>(_, s). server_fds s) (run_loop srv)"
  using moves_loop_rec [where fds = server_fds and nxt = snd and loop = run_loop, OF moves_poll_round poll_round_shorter run_loop.simps]
  by (simp add: case_prod_unfold)

lemma moves_load_tls: "moves (server_fds srv) (\<lambda>(_, s). server_fds s) (load_tls srv)"
proof -
  have "moves old (\<lambda>_. old) (tls_context_server cfg)" for old cfg
    by (rule only_moves) (auto simp: tls_context_server_def intro!: only_intros)
  then show ?thesis
    unfolding load_tls_def
    by (intro moves_if moves_return) (auto split: sum.split simp: server_fds_def intro!: moves_bind moves_return)
qed

lemma moves_start_timer: "moves (server_fds srv) (\<lambda>(_, s). server_fds s) (start_timer srv)"
  unfolding start_timer_def by (rule moves_bind [OF moves_server_timer]) (auto intro!: moves_return)

lemma moves_run: "moves (server_fds srv) (\<lambda>(_, s). server_fds s) (run srv)"
  unfolding run_def
  by (intro moves_try_st moves_load_tls moves_setup_listeners moves_start_timer moves_run_loop moves_bind [OF moves_close_all])
    (auto intro: moves_return)

lemma moves_new_ProxyServer: "moves {#} server_fds (new_ProxyServer cfg)"
  unfolding new_ProxyServer_def
  by (rule moves_bind [OF moves_new_EpollLoop])
    (auto simp: server_fds_def mgr_fds_def new_PoolManager_def owned_def valid_fd_def intro!: moves_return)

lemma moves_destroy_clients: "moves (total_of client_fds cs + k) (\<lambda>_. k) (destroy_clients cs)"
proof (induction cs rule: destroy_clients.induct)
  case (2 fd conn rest)
  have "moves (client_fds conn + (total_of client_fds rest + k)) (\<lambda>_. total_of client_fds rest + k) (destroy_client conn)"
    using moves_destroy' [of "total_of client_fds rest + k" "cc_fd conn"]
    by (simp add: destroy_client_def client_fds_def ac_simps)
  then show ?case by (auto simp: add.assoc intro: moves_bind 2)
qed (simp add: moves_return)

lemma moves_destroy_pools: "moves (total_of pool_fds ps + k) (\<lambda>_. k) (destroy_pools ps)"
proof (induction ps rule: destroy_pools.induct)
  case (2 key pool rest)
  have "moves (pool_fds pool + (total_of pool_fds rest + k)) (\<lambda>_. total_of pool_fds rest + k) (destroy_conns (up_idle pool))"
    using moves_frame [OF moves_destroy_conns, of "up_idle pool" "total_of pool_fds rest + k"] by (simp add: pool_fds_def)
  then show ?case by (auto simp: add.assoc intro: moves_bind 2)
qed (simp add: moves_return)

lemma moves_destroy_server: "moves (server_fds srv) (\<lambda>_. {#}) (destroy_server srv)"
proof -
  have "server_fds srv = total_of client_fds (sv_conns srv) + (total_of pool_fds (pm_pools (sv_pools srv)) +
      ((loop_fds (sv_loop srv) + owned (listen_fd srv)) + owned (tls_listen_fd srv)))"
    by (simp add: server_fds_def mgr_fds_def ac_simps)
  then show ?thesis
    unfolding destroy_server_def
    by (simp only:) (intro moves_bind [OF moves_destroy_clients] moves_bind [OF moves_destroy_pools]
        moves_bind [OF moves_destroy'] moves_destroy_EpollLoop)
qed

end
