(* ===== verification/Server_Invariant.thy ===== *)
theory Server_Invariant
  imports Server_Life Http2_Streams
begin

text \<open>
  The well-formedness of the server, kept by every event.  \<open>server_reach cfg srv\<close>: the states of a
  server constructed with the configuration \<open>cfg\<close>, between any two steps of its life: loading the
  TLS context, opening the listeners, arming the first timer, any event that \<open>poll\<close> delivers (whatever
  descriptor and flags), closing a connection.  Nothing is assumed about the replies of the kernel
  and the TLS library.
\<close>

section \<open>The invariant\<close>

definition client_ok :: "ClientConn \<Rightarrow> bool" where
  "client_ok c \<longleftrightarrow> rb_inv (rbuf c) \<and> rb_inv (wbuf c) \<and> rb_inv (tls_pending c) \<and>
     (cc_state c = TLSHandshake \<and> tls_conn c \<noteq> None \<or> cc_state c = ReadRequest) \<and>
     (\<forall>h. h2conn c = Some h \<longrightarrow> conn_inv h)"

definition conns_ok :: "(int \<times> ClientConn) list \<Rightarrow> bool" where
  "conns_ok cs \<longleftrightarrow> distinct (map fst cs) \<and> (\<forall>(fd, c) \<in> set cs. 0 \<le> fd \<and> cc_fd c = fd \<and> client_ok c)"

definition lb_ok :: "UpstreamConfig list \<Rightarrow> WeightedRoundRobin \<Rightarrow> bool" where
  "lb_ok cfgs lb \<longleftrightarrow> lb_wf lb \<and> shape lb = shape (new_WeightedRoundRobin cfgs) \<and>
     map ep_name (endpoints lb) = map ep_name (endpoints (new_WeightedRoundRobin cfgs))"

definition server_inv :: "ProxyConfig \<Rightarrow> ProxyServer \<Rightarrow> bool" where
  "server_inv cfg srv \<longleftrightarrow> sv_cfg srv = cfg \<and> conns_ok (sv_conns srv) \<and> lb_ok (upstreams cfg) (sv_lb srv) \<and>
     length (timers (sv_loop srv)) \<le> 1"

inductive server_reach :: "ProxyConfig \<Rightarrow> ProxyServer \<Rightarrow> bool" for cfg where
  constructed: "new_ProxyServer cfg os = Some (srv, os') \<Longrightarrow> server_reach cfg srv"
| tls_loaded: "server_reach cfg srv \<Longrightarrow> load_tls srv os = Some ((r, srv'), os') \<Longrightarrow> server_reach cfg srv'"
| listening: "server_reach cfg srv \<Longrightarrow> setup_listeners srv os = Some ((r, srv'), os') \<Longrightarrow> server_reach cfg srv'"
| timer_armed: "server_reach cfg srv \<Longrightarrow> timers (sv_loop srv) = [] \<Longrightarrow> start_timer srv os = Some ((t, srv'), os') \<Longrightarrow>
    server_reach cfg srv'"
| event: "server_reach cfg srv \<Longrightarrow>
    poll_event sv_loop put_loop run_timer dispatch fd events srv os = Some (srv', os') \<Longrightarrow> server_reach cfg srv'"
| closing: "server_reach cfg srv \<Longrightarrow> close_conn fd reason srv os = Some (srv', os') \<Longrightarrow> server_reach cfg srv'"

section \<open>Connections\<close>

definition stands :: "int \<Rightarrow> ClientConn \<Rightarrow> ProxyServer \<Rightarrow> bool" where
  "stands fd c srv \<longleftrightarrow> fd \<in> fst ` set (sv_conns srv) \<and> cc_fd c = fd \<and> client_ok c"

lemma set_assign: "set (assign k v m) \<subseteq> insert (k, v) (set m)"
  by (induction k v m rule: assign.induct) auto

lemma conns_okD: "conns_ok cs \<Longrightarrow> map_of cs fd = Some c \<Longrightarrow> 0 \<le> fd \<and> cc_fd c = fd \<and> client_ok c"
  unfolding conns_ok_def by (auto dest!: map_of_SomeD)

lemma conns_ok_assign:
  assumes "conns_ok cs" "fd \<in> fst ` set cs" "cc_fd c = fd" "client_ok c"
  shows "conns_ok (assign fd c cs)"
proof -
  have "0 \<le> fd" using assms(1,2) by (auto simp: conns_ok_def)
  with assms show ?thesis using set_assign [of fd c cs] by (fastforce simp: conns_ok_def)
qed

lemma conns_ok_erase: "conns_ok cs \<Longrightarrow> conns_ok (erase fd cs)"
  using set_erase [of fd cs] by (auto simp: conns_ok_def distinct_erase)

lemma stands_found: "server_inv cfg srv \<Longrightarrow> map_of (sv_conns srv) fd = Some c \<Longrightarrow> stands fd c srv"
  by (force simp: server_inv_def stands_def dest: conns_okD map_of_SomeD)

lemma stands_same: "stands fd c srv \<Longrightarrow> cc_fd c' = cc_fd c \<Longrightarrow> client_ok c' \<Longrightarrow> stands fd c' srv"
  by (simp add: stands_def)

lemma stands_put [simp]: "stands fd c (put_conn fd' c' srv) \<longleftrightarrow> stands fd c srv \<or> fd = fd' \<and> cc_fd c = fd \<and> client_ok c"
  by (auto simp: stands_def put_conn_def)

lemma stands_updates [simp]: "stands fd c (srv\<lparr>sv_lb := lb, sv_pools := pools\<rparr>) \<longleftrightarrow> stands fd c srv"
  by (simp add: stands_def)

lemma server_inv_put: "server_inv cfg srv \<Longrightarrow> stands fd c srv \<Longrightarrow> server_inv cfg (put_conn fd c srv)"
  by (simp add: server_inv_def put_conn_def stands_def conns_ok_assign)

lemma client_ok_io:
  "append_client_plaintext c data = (r, c') \<Longrightarrow> client_ok c \<Longrightarrow> client_ok c'"
  "flush_tls_ciphertext c fd s = Some ((q, c'), s') \<Longrightarrow> client_ok c \<Longrightarrow> client_ok c'"
  "client_ok c \<Longrightarrow> client_ok (c\<lparr>wbuf := commit_read n (wbuf c)\<rparr>)"
proof -
  show "client_ok c'" if "append_client_plaintext c data = (r, c')" "client_ok c"
    using that append_rb_inv [of "rbuf c" data]
    by (auto simp: append_client_plaintext_def client_ok_def split: prod.splits)
  show "client_ok c'" if "flush_tls_ciphertext c fd s = Some ((q, c'), s')" "client_ok c"
    using flush_tls_frame [OF that(1)] that(2) by (auto simp: client_ok_def)
  show "client_ok (c\<lparr>wbuf := commit_read n (wbuf c)\<rparr>)" if "client_ok c"
    using that by (simp add: client_ok_def rb_inv_commit_read)
qed

lemma client_ok_read: "read_client_input c fd os = Some ((r, c'), os') \<Longrightarrow> client_ok c \<Longrightarrow> client_ok c' \<and> cc_fd c' = cc_fd c"
  using yieldsD [OF read_client_input_frame [of client_ok, OF client_ok_io(1) client_ok_io(2)]]
    yieldsD [OF yields_fd(2)] by fastforce

lemma client_ok_write: "write_client_output c fd os = Some ((r, c'), os') \<Longrightarrow> client_ok c \<Longrightarrow> client_ok c' \<and> cc_fd c' = cc_fd c"
  using yieldsD [OF write_client_output_frame [of client_ok, OF client_ok_io(3) client_ok_io(2)]]
    yieldsD [OF yields_fd(3)] by fastforce

lemma rb_inv_append: "rb_inv b \<Longrightarrow> rb_inv (snd (append_rb data b))" "rb_inv b \<Longrightarrow> rb_inv (snd (append_str t b))"
  by (metis append_rb_contents snd_conv) (metis emits_append_str rbq.emitsD snd_conv)

lemma client_ok_refuse: "client_ok c \<Longrightarrow> client_ok (refuse t c)"
  by (simp add: client_ok_def refuse_def rb_inv_append)

section \<open>The balancer\<close>

definition same_ep :: "UpstreamEndpoint \<Rightarrow> UpstreamEndpoint \<Rightarrow> bool" where
  "same_ep ep ep0 \<longleftrightarrow> ep_weight ep = ep_weight ep0 \<and> ep_healthy ep = ep_healthy ep0 \<and> ep_name ep = ep_name ep0"

lemma same_ep_refl [simp]: "same_ep ep ep"
  by (simp add: same_ep_def)

lemma same_ep_trans: "same_ep a b \<Longrightarrow> same_ep b c \<Longrightarrow> same_ep a c"
  by (simp add: same_ep_def)

lemma lb_ok_new: "lb_ok cfgs (new_WeightedRoundRobin cfgs)"
  by (simp add: lb_ok_def lb_inv_wf lb_inv_new)

lemma lb_ok_next: "lb_ok cfgs lb \<Longrightarrow> next_lb lb = (r, lb') \<Longrightarrow> lb_ok cfgs lb'"
  unfolding lb_ok_def using next_lb_cases(1,2,3) by metis

lemma lb_ok_update:
  assumes "lb_ok cfgs lb" "same_ep ep (endpoints lb ! j)"
  shows "lb_ok cfgs (lb\<lparr>endpoints := (endpoints lb)[j := ep]\<rparr>)"
proof (cases "j < length (endpoints lb)")
  case True
  let ?lb = "lb\<lparr>endpoints := (endpoints lb)[j := ep]\<rparr>"
  have "shape ?lb = shape lb" "map ep_name (endpoints ?lb) = map ep_name (endpoints lb)"
    using assms(2) True by (auto simp: shape_def same_ep_def map_update intro!: list_update_same_conv [THEN iffD2])
  with assms(1) lb_wf_shape [of lb ?lb] show ?thesis by (auto simp: lb_ok_def)
qed (use assms in \<open>simp add: list_update_beyond\<close>)

lemma lb_ok_failed: "lb_ok cfgs lb \<Longrightarrow> lb_ok cfgs (add_failed i lb)"
  unfolding add_failed_def Let_def by (rule lb_ok_update) (simp_all add: same_ep_def)

lemma acquire_ep: "acquire others ep pool os = Some ((r, ep', pool'), os') \<Longrightarrow> same_ep ep' ep"
proof -
  have "gives (\<lambda>(_, ep', _). same_ep ep' ep) (acquire others ep pool os)"
    unfolding acquire_def by (intro gives_intros) (auto simp: acquire_failed_def same_ep_def)
  then show "acquire others ep pool os = Some ((r, ep', pool'), os') \<Longrightarrow> same_ep ep' ep" by (auto dest: givesD)
qed

lemma forward_attempt_ep: "forward_attempt request ep pool os = Some ((a, ep', pool'), os') \<Longrightarrow> same_ep ep' ep"
proof -
  have "gives (\<lambda>(_, ep', _). same_ep ep' ep) (forward_attempt request ep pool os)"
    unfolding forward_attempt_def by (intro gives_intros) (auto dest: acquire_ep)
  then show "forward_attempt request ep pool os = Some ((a, ep', pool'), os') \<Longrightarrow> same_ep ep' ep" by (auto dest: givesD)
qed

lemma forward_loop_ep: "forward_loop n request ep pool os = Some ((r, ep', pool'), os') \<Longrightarrow> same_ep ep' ep"
proof (induction n arbitrary: ep pool os)
  case (Suc n)
  from Suc.prems obtain a ep1 pool1 s where a: "forward_attempt request ep pool os = Some ((a, ep1, pool1), s)"
    and k: "(case a of NoConnection e \<Rightarrow> return_io (Inl e, ep1, pool1)
      | Failed e \<Rightarrow> if n = 1 then forward_loop n request ep1 pool1 else return_io (Inl e, ep1, pool1)
      | Response bytes \<Rightarrow> return_io (Inr bytes, ep1, pool1)) s = Some ((r, ep', pool'), os')"
    by (auto simp: bind_io_eq_Some)
  have "same_ep ep' ep1" using k Suc.IH [of ep1 pool1 s] by (cases a; cases "n = 1") (auto simp: return_io_eq_Some)
  with forward_attempt_ep [OF a] show ?case by (blast intro: same_ep_trans)
qed (simp add: return_io_eq_Some)

lemma forward_http1_lb:
  assumes "forward_http1 req body i lb pools os = Some ((r, lb', pools'), os')" "lb_ok cfgs lb"
  shows "lb_ok cfgs lb'"
proof -
  have "gives (\<lambda>(_, lb', _). lb_ok cfgs lb') (forward_http1 req body i lb pools os)"
    unfolding forward_http1_def Let_def
    by (intro gives_intros) (auto simp: assms(2) dest: forward_loop_ep intro!: lb_ok_update)
  with assms(1) show ?thesis by (auto dest: givesD)
qed

section \<open>Handlers\<close>

lemma forward_request_ok:
  assumes "client_ok c" "lb_ok cfgs lb"
  shows "gives (\<lambda>(c', lb', _). client_ok c' \<and> cc_fd c' = cc_fd c \<and> lb_ok cfgs lb') (forward_request req body c lb pools os)"
proof -
  have "client_ok (c\<lparr>cc_upstream := u\<rparr>)" "client_ok (c\<lparr>cc_upstream := u, wbuf := snd (append_rb bs (wbuf c))\<rparr>)" for u bs
    using assms(1) by (auto simp: client_ok_def rb_inv_append)
  moreover have "cc_fd (refuse t c') = cc_fd c'" for t and c' :: ClientConn by (simp add: refuse_def)
  ultimately show ?thesis
    unfolding forward_request_def Let_def
    by (intro gives_intros)
      (auto simp: assms client_ok_refuse dest!: lb_ok_next [OF assms(2)] forward_http1_lb [where cfgs = cfgs] intro: lb_ok_failed)
qed

lemma inv_close_conn [gives_intros]: "server_inv cfg srv \<Longrightarrow> gives (server_inv cfg) (close_conn fd reason srv os)"
  unfolding close_conn_def by (intro gives_intros) (auto simp: server_inv_def conns_ok_erase)

lemma inv_close_error [gives_intros]: "server_inv cfg srv \<Longrightarrow> gives (server_inv cfg) (close_error fd what e srv os)"
  unfolding close_error_def by (intro gives_intros)

lemma client_ok_accepted: "client_ok (accepted_conn tls fd t n srv)" "cc_fd (accepted_conn tls fd t n srv) = fd"
  by (simp_all add: accepted_conn_def Let_def client_ok_def new_ClientConn_def rb_inv_new)

lemma server_inv_accept:
  assumes "server_inv cfg srv" "valid_fd fd" "fd \<notin> fst ` set (sv_conns srv)" "client_ok c" "cc_fd c = fd"
  shows "server_inv cfg (srv\<lparr>sv_conns := sv_conns srv @ [(fd, c)]\<rparr>)"
  using assms by (auto simp: server_inv_def conns_ok_def valid_fd_def)

lemma inv_accepted: "server_inv cfg srv \<Longrightarrow> gives (\<lambda>(_, s). server_inv cfg s) (accepted tls a srv os)"
  unfolding accepted_def Let_def
  by (intro gives_intros) (auto simp: client_ok_accepted intro!: server_inv_accept)

lemma inv_on_accept: "server_inv cfg srv \<Longrightarrow> gives (server_inv cfg) (on_accept lfd tls srv os)"
proof (induction "length (script os)" arbitrary: srv os rule: less_induct)
  case less
  have "server_inv cfg srv'" if a: "accept_one lfd tls srv os = Some ((go, srv'), s)" for go srv' s
  proof -
    from a obtain x s1 where "accepted tls x srv s1 = Some ((go, srv'), s)" by (auto simp: accept_one_def bind_io_eq_Some)
    from givesD [OF inv_accepted [OF less.prems] this] show ?thesis by simp
  qed
  then show ?case
    by (subst on_accept.simps) (intro gives_intros less.hyps; auto dest: accept_one_shorter)
qed

lemma inv_finish_handshake:
  assumes "server_inv cfg srv" "stands fd c srv"
  shows "gives (server_inv cfg) (finish_handshake fd t c srv os)"
proof -
  have "client_ok (c\<lparr>tls_conn := Some t1\<rparr>)" for t1 using assms(2) by (auto simp: stands_def client_ok_def)
  then have s: "stands fd c1 srv" if "flush_tls_ciphertext (c\<lparr>tls_conn := Some t1\<rparr>) fd s = Some ((r, c1), s')" for t1 s r c1 s'
    using client_ok_io(2) [OF that] flush_tls_frame [OF that] assms(2) by (auto simp: stands_def)
  have "client_ok (handshake_done_conn t1 c1)" "cc_fd (handshake_done_conn t1 c1) = cc_fd c1" if "client_ok c1" for t1 c1
    using that by (auto simp: client_ok_def handshake_done_conn_def)
  then have d: "stands fd (handshake_done_conn t1 c1) srv" if "stands fd c1 srv" for t1 c1
    using that by (auto simp: stands_def)
  show ?thesis
    unfolding finish_handshake_def Let_def
    by (intro gives_intros; (split TLSHandshakeState.split; intro conjI impI gives_intros)?)
      (auto simp: server_inv_put assms(1) d dest!: s)
qed

lemma inv_on_handshake:
  assumes "server_inv cfg srv" "stands fd c srv"
  shows "gives (server_inv cfg) (on_handshake fd events c srv os)"
  unfolding on_handshake_def by (intro gives_intros assms inv_finish_handshake)

lemma server_inv_served:
  "server_inv cfg srv \<Longrightarrow> lb_ok (upstreams cfg) lb \<Longrightarrow> server_inv cfg (srv\<lparr>sv_lb := lb, sv_pools := pools\<rparr>)"
  by (simp add: server_inv_def)

lemma inv_serve_request:
  assumes "server_inv cfg srv" "stands fd c srv"
  shows "gives (server_inv cfg) (serve_request fd req c srv os)"
proof -
  let ?c = "c\<lparr>rbuf := b, cc_keep_alive := k\<rparr>"
  have lb: "lb_ok (upstreams cfg) (sv_lb srv)" using assms(1) by (simp add: server_inv_def)
  have f: "server_inv cfg (put_conn fd (c2\<lparr>req_count := n\<rparr>) (srv\<lparr>sv_lb := lb2, sv_pools := pools2\<rparr>))"
    if "forward_request req body (c\<lparr>rbuf := b, cc_keep_alive := k\<rparr>) (sv_lb srv) (sv_pools srv) os = Some ((c2, lb2, pools2), s)"
      "rb_inv b" for body b k c2 lb2 pools2 s n
  proof -
    have "client_ok (c\<lparr>rbuf := b, cc_keep_alive := k\<rparr>)" using assms(2) that(2) by (auto simp: stands_def client_ok_def)
    from givesD [OF forward_request_ok [OF this lb] that(1)]
    have "client_ok c2" "cc_fd c2 = cc_fd c" "lb_ok (upstreams cfg) lb2" by auto
    then show ?thesis
      using assms by (intro server_inv_put server_inv_served) (auto simp: stands_def client_ok_def)
  qed
  have "rb_inv (commit_read n (commit_read m (rbuf c)))" for n m
    using assms(2) by (auto simp: stands_def client_ok_def intro!: rb_inv_commit_read)
  then show ?thesis
    unfolding serve_request_def Let_def by (intro gives_intros) (auto dest!: f)
qed

lemma inv_on_h1_input:
  assumes "server_inv cfg srv" "stands fd c srv"
  shows "gives (\<lambda>(_, s). server_inv cfg s) (on_h1_input fd c srv os)"
proof -
  have r: "stands fd ((refuse t c)\<lparr>rbuf := commit_read n (rbuf (refuse t c))\<rparr>) srv" for t n
    using assms(2) by (auto simp: stands_def refuse_def client_ok_def rb_inv_append rb_inv_commit_read)
  show ?thesis
    unfolding on_h1_input_def Let_def
    by (auto split: prod.split ParseResult.split intro!: gives_intros assms server_inv_put r
        dest: givesD [OF inv_close_conn [OF assms(1)]] givesD [OF inv_serve_request [OF assms]])
qed

section \<open>HTTP/2\<close>

lemma conn_inv_h2_ops:
  "conn_inv h \<Longrightarrow> conn_inv (h2_answer sid answer h)" "conn_inv h \<Longrightarrow> consume_body sid n h = Some h' \<Longrightarrow> conn_inv h'"
  "conn_inv h \<Longrightarrow> conn_inv (consume_output n h)" "conn_inv h \<Longrightarrow> feed data h = (r, h') \<Longrightarrow> conn_inv h'"
proof -
  show "conn_inv h \<Longrightarrow> conn_inv (h2_answer sid answer h)"
    unfolding h2_answer_def by (rule conn_inv_send_response)
  show "conn_inv h \<Longrightarrow> consume_body sid n h = Some h' \<Longrightarrow> conn_inv h'"
    by (auto simp: consume_body_def intro!: conn_inv_put_stream stream_inv_commit_read) (auto simp: conn_inv_def)
  show "conn_inv h \<Longrightarrow> conn_inv (consume_output n h)"
    unfolding consume_output_def by (rule conn_inv_updates(5)) (auto simp: conn_inv_def rb_inv_commit_read)
  show "conn_inv h \<Longrightarrow> feed data h = (r, h') \<Longrightarrow> conn_inv h'"
    using conn_inv_updates(4) [of h "snd (append_rb data (recv_buf h))"] feed_eq [of data h] rb_inv_append(1) [of "recv_buf h" data]
    by (simp add: conn_inv_def)
qed

lemma h2_stream_ok:
  assumes "client_ok c" "conn_inv h" "lb_ok cfgs lb"
  shows "gives (\<lambda>(c', h', lb', _). client_ok c' \<and> cc_fd c' = cc_fd c \<and> conn_inv h' \<and> lb_ok cfgs lb') (h2_stream sid c h lb pools os)"
proof -
  have u: "client_ok (c\<lparr>cc_upstream := u\<rparr>)" for u using assms(1) by (auto simp: client_ok_def)
  have a: "conn_inv (case consume_body sid n (h2_answer sid answer h) of None \<Rightarrow> h2_answer sid answer h | Some h' \<Rightarrow> h')" for n answer
    using conn_inv_h2_ops(1) [OF assms(2), of sid answer] by (auto split: option.split dest: conn_inv_h2_ops(2))
  show ?thesis
    unfolding h2_stream_def Let_def
    by (intro gives_intros)
      (auto simp: assms u a dest!: lb_ok_next [OF assms(3)] forward_http1_lb [where cfgs = cfgs] intro: lb_ok_failed)
qed

lemma h2_streams_ok:
  "client_ok c \<Longrightarrow> conn_inv h \<Longrightarrow> lb_ok cfgs lb \<Longrightarrow>
     gives (\<lambda>(c', h', lb', _). client_ok c' \<and> cc_fd c' = cc_fd c \<and> conn_inv h' \<and> lb_ok cfgs lb') (h2_streams sids c h lb pools os)"
proof (induction sids arbitrary: c h lb pools os)
  case (Cons sid sids)
  show ?case
    unfolding h2_streams.simps
  proof (intro gives_intros, goal_cases)
    case (1 x s c1 y h1 z lb1 pools1)
    with givesD [OF h2_stream_ok [OF Cons.prems] 1(1)]
    have "client_ok c1" "conn_inv h1" "lb_ok cfgs lb1" "cc_fd c1 = cc_fd c" by auto
    with Cons.IH [OF this(1-3), of pools1 s] show ?case by simp
  qed
qed (simp add: gives_return)

lemma inv_h2_flush:
  assumes "server_inv cfg srv" "stands fd c srv" "conn_inv h"
  shows "gives (server_inv cfg) (h2_flush fd c h srv os)"
proof -
  have s: "stands fd (c\<lparr>wbuf := snd (append_rb bs (wbuf c)), h2conn := Some (consume_output n h)\<rparr>) srv"
    "stands fd (c\<lparr>h2conn := Some h\<rparr>) srv" for bs n
    using assms(2,3) conn_inv_h2_ops(3) by (auto simp: stands_def client_ok_def rb_inv_append)
  note p = server_inv_put [OF assms(1) s(1)] server_inv_put [OF assms(1) s(2)]
  have "server_inv cfg srv1" if "(if pending_output h \<noteq> []
         then let h21 = consume_output (length (pending_output h)) h;
                  srv1 = put_conn fd (c\<lparr>wbuf := snd (append_rb (pending_output h) (wbuf c)), h2conn := Some h21\<rparr>) srv
              in bind_io (modify fd (EvRead OR EvWrite) (sv_loop srv1)) (\<lambda>_. return_io srv1)
         else return_io (put_conn fd (c\<lparr>h2conn := Some h\<rparr>) srv)) os = Some (srv1, s)" for srv1 s
    using that p by (auto simp: Let_def io_elims split: if_splits)
  then show ?thesis
    unfolding h2_flush_def Let_def by (intro gives_bind gives_if gives_return inv_close_conn) (auto simp: Let_def)
qed

lemma inv_handle_h2_client:
  assumes "server_inv cfg srv" "stands fd c srv"
  shows "gives (server_inv cfg) (handle_h2_client c fd srv os)"
proof -
  obtain h0 where h0: "(case h2conn c of None \<Rightarrow> new_H2Conn True | Some h \<Rightarrow> h) = h0" by simp
  then have i0: "conn_inv h0" using assms(2) by (auto simp: stands_def client_ok_def conn_inv_new split: option.splits)
  obtain r c1 h1 where f: "h2_feed c h0 = (r, c1, h1)" by (cases "h2_feed c h0")
  then have i1: "conn_inv h1" "stands fd c1 srv"
    using assms(2) i0 conn_inv_h2_ops(4) [OF i0]
    by (auto simp: h2_feed_def Let_def stands_def client_ok_def rb_inv_commit_read split: if_splits prod.splits sum.splits)
  obtain q h2 where p: "process h1 = (q, h2)" by force
  have i2: "conn_inv h2" using process_inv [OF i1(1) p] .
  have e: "server_inv cfg (put_conn fd (c1\<lparr>h2conn := Some h\<rparr>) srv)" if "conn_inv h" for h
    using that i1(2) by (intro server_inv_put assms(1)) (auto simp: stands_def client_ok_def)
  have lb: "lb_ok (upstreams cfg) (sv_lb srv)" "client_ok c1" "cc_fd c1 = fd" using assms(1) i1(2) by (auto simp: server_inv_def stands_def)
  have "gives (server_inv cfg) (h2_flush fd c2 h3 (srv\<lparr>sv_lb := lb2, sv_pools := pools2\<rparr>) s)"
    if "h2_streams ready c1 h2 (sv_lb srv) (sv_pools srv) os = Some ((c2, h3, lb2, pools2), s)" for ready c2 h3 lb2 pools2 s
    using givesD [OF h2_streams_ok [OF lb(2) i2 lb(1)] that] assms(1) i1(2)
    by (intro inv_h2_flush server_inv_served) (auto simp: stands_def)
  then show ?thesis
    unfolding handle_h2_client_def Let_def h0 f p prod.case
    by (auto split: sum.split intro!: gives_intros e i1 i2)
qed

section \<open>Events\<close>

lemma inv_on_client_read:
  assumes "server_inv cfg srv" "stands fd c srv"
  shows "gives (\<lambda>(_, s). server_inv cfg s) (on_client_read fd c srv os)"
proof -
  have s: "stands fd c1 srv" if "read_client_input c fd os = Some ((r, c1), s)" for r c1 s
    using client_ok_read [OF that] assms(2) by (simp add: stands_def)
  then have p: "server_inv cfg (put_conn fd c1 srv) \<and> stands fd c1 (put_conn fd c1 srv)"
    if "read_client_input c fd os = Some ((r, c1), s)" for r c1 s
    using that assms(1) by (auto intro: server_inv_put)
  show ?thesis
    unfolding on_client_read_def Let_def
    by (intro gives_bind gives_pair gives_sum gives_if gives_return)
      (auto dest!: p dest: givesD [OF inv_close_conn] givesD [OF inv_close_error] givesD [OF inv_handle_h2_client] intro: inv_on_h1_input)
qed

lemma inv_on_client_write:
  assumes "server_inv cfg srv" "stands fd c srv"
  shows "gives (server_inv cfg) (on_client_write fd c srv os)"
proof -
  have p: "server_inv cfg (put_conn fd c1 srv)" if "write_client_output c fd os = Some ((r, c1), s)" for r c1 s
    using client_ok_write [OF that] assms by (intro server_inv_put) (simp_all add: stands_def)
  show ?thesis
    unfolding on_client_write_def Let_def by (intro gives_intros) (auto dest: p)
qed

lemma inv_on_client_event:
  assumes "server_inv cfg srv"
  shows "gives (server_inv cfg) (on_client_event fd events srv os)"
proof (cases "map_of (sv_conns srv) fd")
  case (Some c)
  note st = stands_found [OF assms Some]
  have r: "server_inv cfg srv1"
    if "(if has events EvRead then on_client_read fd c srv else return_io (True, srv)) os = Some ((go, srv1), s)" for go srv1 s
    using that givesD [OF inv_on_client_read [OF assms st]] assms by (auto simp: return_io_eq_Some split: if_splits)
  show ?thesis
    unfolding on_client_event_def Some option.case
    by (intro gives_if gives_bind gives_pair gives_option gives_return inv_close_conn assms inv_on_handshake st)
      (auto dest: r intro!: inv_on_client_write stands_found)
qed (simp add: on_client_event_def assms gives_return)

lemma add_timer_timers:
  assumes "add_timer d cb l os = Some ((r, l'), os')" "timers l = []"
  shows "length (timers l') \<le> 1"
proof -
  have "gives (\<lambda>(_, l'). length (timers l') \<le> 1) (add_timer d cb l os)"
    unfolding add_timer_def Let_def by (intro gives_intros) (auto simp: assms(2))
  with assms(1) show ?thesis by (auto dest: givesD)
qed

lemma inv_on_tick:
  assumes "server_inv cfg srv" "timers (sv_loop srv) = []"
  shows "gives (server_inv cfg) (on_tick srv os)"
  unfolding on_tick_def Let_def
  by (intro gives_intros) (use assms in \<open>auto simp: server_inv_def put_loop_def dest: add_timer_timers\<close>)

lemma inv_poll_event:
  assumes "server_inv cfg srv"
  shows "gives (server_inv cfg) (poll_event sv_loop put_loop run_timer dispatch fd events srv os)"
proof -
  have "server_inv cfg (put_loop l srv) \<and> timers l = []" if "fire_timer fd tid (sv_loop srv) = Some (t, l)" for tid t l
  proof -
    from that have "map_of (timers (sv_loop srv)) tid \<noteq> None" by (auto simp: fire_timer_def)
    moreover have "length (timers (sv_loop srv)) \<le> 1" using assms by (simp add: server_inv_def)
    ultimately have "erase tid (timers (sv_loop srv)) = []" by (cases "timers (sv_loop srv)") (auto split: if_splits)
    with that assms show ?thesis by (auto simp: fire_timer_def server_inv_def put_loop_def)
  qed
  then have t: "gives (server_inv cfg) (run_timer cb (put_loop l srv) s)" if "fire_timer fd tid (sv_loop srv) = Some (t, l)" for tid t l cb s
    using that by (cases cb) (auto simp: run_timer_def put_loop_def intro!: inv_on_tick)
  show ?thesis
    unfolding poll_event_def Let_def dispatch_def
    by (intro gives_intros inv_on_accept inv_on_client_event assms) (auto intro: t)
qed

lemma inv_setup_listeners: "server_inv cfg srv \<Longrightarrow> gives (\<lambda>(_, s). server_inv cfg s) (setup_listeners srv os)"
  unfolding setup_listeners_def Let_def by (intro gives_intros) (auto simp: server_inv_def)

lemma inv_load_tls: "server_inv cfg srv \<Longrightarrow> gives (\<lambda>(_, s). server_inv cfg s) (load_tls srv os)"
  unfolding load_tls_def by (intro gives_intros) (auto simp: server_inv_def)

lemma inv_new: "gives (server_inv cfg) (new_ProxyServer cfg os)"
  unfolding new_ProxyServer_def new_EpollLoop_def
  by (intro gives_intros) (auto simp: server_inv_def conns_ok_def lb_ok_new io_elims)

lemma server_reach_inv: "server_reach cfg srv \<Longrightarrow> server_inv cfg srv"
proof (induction rule: server_reach.induct)
  case (constructed os srv os')
  from givesD [OF inv_new this] show ?case .
next
  case (tls_loaded srv os r srv' os')
  from givesD [OF inv_load_tls [OF tls_loaded(3)] tls_loaded(2)] show ?case by simp
next
  case (listening srv os r srv' os')
  from givesD [OF inv_setup_listeners [OF listening(3)] listening(2)] show ?case by simp
next
  case (timer_armed srv os t srv' os')
  then obtain q l where "add_timer 1000 OnTick (sv_loop srv) os = Some ((q, l), os')" "srv' = put_loop l srv"
    by (auto simp: start_timer_def io_elims)
  with add_timer_timers [OF this(1) timer_armed(2)] timer_armed(4) show ?case by (simp add: server_inv_def put_loop_def)
next
  case (event srv fd events os srv' os')
  from givesD [OF inv_poll_event [OF event(3)] event(2)] show ?case .
next
  case (closing srv fd reason os srv' os')
  from givesD [OF inv_close_conn [OF closing(3)] closing(2)] show ?case .
qed

end
