(* ===== verification/Server_Properties.thy ===== *)
theory Server_Properties
  imports Server_Invariant Client_Io
begin

text \<open>
  Properties of the whole server: what it holds and releases from construction to destruction, the
  states it passes through, how it stops, and what a client gets for a request over HTTP/1.1 and
  over HTTP/2.
\<close>

section \<open>The states of a run\<close>

lemma reach_poll_loop:
  "server_reach cfg srv \<Longrightarrow> poll_loop sv_loop put_loop run_timer dispatch es srv os = Some (srv', os') \<Longrightarrow> server_reach cfg srv'"
proof (induction es arbitrary: srv os)
  case (Cons e es)
  obtain fd events where e: "e = (fd, events)" by force
  from Cons.prems obtain s srv1 where "poll_event sv_loop put_loop run_timer dispatch fd events srv os = Some (srv1, s)"
    "poll_loop sv_loop put_loop run_timer dispatch es srv1 s = Some (srv', os')"
    by (auto simp: e bind_io_eq_Some)
  then show ?case using Cons.IH server_reach.event [OF Cons.prems(1)] by blast
qed (simp add: return_io_eq_Some)

lemma reach_poll_round:
  assumes "server_reach cfg srv" "poll_round srv os = Some ((go, r, srv'), os')"
  shows "server_reach cfg srv'"
  using assms by (auto simp: poll_round_def poll_def io_elims split: if_splits dest: reach_poll_loop)

lemma reach_run_loop: "server_reach cfg srv \<Longrightarrow> run_loop srv os = Some ((r, srv'), os') \<Longrightarrow> server_reach cfg srv'"
proof (induction "length (script os)" arbitrary: srv os rule: less_induct)
  case less
  from less.prems(2) obtain go x s where p: "poll_round srv os = Some ((go, x), s)"
    and k: "(if go then run_loop (snd x) s else return_io x s) = Some ((r, srv'), os')"
    by (subst (asm) run_loop.simps) (auto simp: bind_io_eq_Some)
  have "server_reach cfg (snd x)" using reach_poll_round [OF less.prems(1), of os go "fst x" "snd x" s] p by simp
  then show ?case using k less.hyps [OF poll_round_shorter [OF p], of "snd x"] by (cases go) (auto simp: return_io_eq_Some)
qed

lemma reach_close_all: "server_reach cfg srv \<Longrightarrow> close_all fds srv os = Some (srv', os') \<Longrightarrow> server_reach cfg srv'"
  by (induction fds arbitrary: srv os) (auto simp: io_elims intro: server_reach.closing)

lemma try_st_eq_Some:
  "try_st m f os = Some ((r, s'), os') \<longleftrightarrow>
     (\<exists>e. m os = Some ((Inl e, s'), os') \<and> r = Inl e) \<or> (\<exists>x s o1. m os = Some ((Inr x, s), o1) \<and> f x s o1 = Some ((r, s'), os'))"
  unfolding try_st_def bind_io_eq_Some by (auto simp: return_io_eq_Some split: sum.splits) (metis sumE)+

lemma reach_run:
  assumes "new_ProxyServer cfg os0 = Some (srv, os1)" "run srv os = Some ((r, srv'), os')"
  shows "server_reach cfg srv'"
proof -
  note r0 = server_reach.constructed [OF assms(1)]
  have t0: "timers (sv_loop srv) = []" using assms(1) by (auto simp: new_ProxyServer_def new_EpollLoop_def io_elims)
  have "gives (\<lambda>(_, s). sv_loop s = sv_loop srv) (load_tls srv o1)" for o1
    unfolding load_tls_def by (intro gives_intros) auto
  then have t1: "sv_loop s = sv_loop srv" if "load_tls srv o1 = Some ((q, s), o2)" for q s o1 o2
    using givesD [OF _ that] by auto
  have "gives (\<lambda>(_, s'). sv_loop s' = sv_loop s) (setup_listeners s o1)" for s o1
    unfolding setup_listeners_def Let_def by (intro gives_intros) auto
  then have t2: "sv_loop s' = sv_loop s" if "setup_listeners s o1 = Some ((q, s'), o2)" for q s s' o1 o2
    using givesD [OF _ that] by auto
  note steps = server_reach.tls_loaded [OF r0] server_reach.listening server_reach.timer_armed reach_run_loop reach_close_all
  have timers: "server_reach cfg s''" if "load_tls srv o1 = Some ((q, s), o2)" "setup_listeners s o3 = Some ((q', s'), o4)"
    "start_timer s' o5 = Some ((q'', s''), o6)" for q s o1 o2 q' s' o3 o4 q'' s'' o5 o6
    using steps(1) [OF that(1)] steps(2) [OF _ that(2)] steps(3) [OF _ _ that(3)] t1 [OF that(1)] t2 [OF that(2)] t0 by simp
  show ?thesis
    using assms(2) unfolding run_def try_st_eq_Some
    by (elim disjE exE conjE) (auto simp: io_elims intro: steps(1) steps(2) [OF steps(1)] timers reach_run_loop [OF timers]
        reach_close_all [OF reach_run_loop [OF timers]])
qed

text \<open>The balancer of a reachable server has the configuration's endpoints.\<close>

lemma lb_ok_endpoints:
  assumes "lb_ok cfgs lb"
  shows "map (\<lambda>ep. (ep_name ep, ep_weight ep, ep_healthy ep)) (endpoints lb) =
    map (\<lambda>u. (ep_name (make_endpoint u), max 1 (uc_weight u), uc_healthy u)) cfgs"
proof -
  have z: "map (\<lambda>ep. (ep_name ep, ep_weight ep, ep_healthy ep)) eps = zip (map ep_name eps) (map (\<lambda>ep. (ep_weight ep, ep_healthy ep)) eps)" for eps
    by (induction eps) auto
  have "map ep_name (endpoints lb) = map ep_name (map make_endpoint cfgs)"
    "map (\<lambda>ep. (ep_weight ep, ep_healthy ep)) (endpoints lb) = map (\<lambda>ep. (ep_weight ep, ep_healthy ep)) (map make_endpoint cfgs)"
    using assms by (simp_all add: lb_ok_def shape_def new_lb_endpoints)
  then have "map (\<lambda>ep. (ep_name ep, ep_weight ep, ep_healthy ep)) (endpoints lb) =
      map (\<lambda>ep. (ep_name ep, ep_weight ep, ep_healthy ep)) (map make_endpoint cfgs)" by (simp only: z)
  then show ?thesis by (simp add: make_endpoint_def)
qed

lemma lb_ok_healthy:
  assumes "lb_ok cfgs lb"
  shows "(\<exists>ep\<in>set (endpoints lb). ep_healthy ep) \<longleftrightarrow> (\<exists>u\<in>set cfgs. uc_healthy u)"
proof -
  have "map ep_healthy (endpoints lb) = map uc_healthy cfgs"
    using arg_cong [OF lb_ok_endpoints [OF assms], of "map (snd \<circ> snd)"] by (simp add: comp_def)
  from arg_cong [OF this, of set] have "ep_healthy ` set (endpoints lb) = uc_healthy ` set cfgs" by simp
  then have "True \<in> ep_healthy ` set (endpoints lb) \<longleftrightarrow> True \<in> uc_healthy ` set cfgs" by simp
  then show ?thesis by (auto simp: image_iff)
qed

section \<open>Stopping\<close>

lemma close_conn_run:
  assumes "conns_ok (sv_conns srv)" "sv_conns srv = (fd, c) # cs" "script os = del # cl # rs" "\<not> (ret cl < 0 \<and> err cl = EINTR)"
  shows "\<exists>os'. close_conn fd reason srv os = Some (srv\<lparr>sv_conns := cs\<rparr>, os') \<and> script os' = rs \<and>
    trace os' = trace os @ [(Loop (Epoll_del fd), del), (Close fd, cl)]"
proof -
  have "0 \<le> fd" "cc_fd c = fd" using assms(1,2) by (auto simp: conns_ok_def)
  then show ?thesis
    using assms(2-4)
    by (auto simp: close_conn_def remove_def destroy_client_def destroy_fd_def reset_fd_def close_loop.simps
        bind_io_def call_def return_io_def log_info_io_def)
qed

definition shut :: "int list \<Rightarrow> Call list" where
  "shut fds = concat (map (\<lambda>fd. [Loop (Epoll_del fd), Close fd]) fds)"

lemma close_all_run:
  assumes "conns_ok (sv_conns srv)" "2 * length (sv_conns srv) \<le> length (script os)"
    "\<forall>r\<in>set (script os). \<not> (ret r < 0 \<and> err r = EINTR)"
  shows "\<exists>os'. close_all (map fst (sv_conns srv)) srv os = Some (srv\<lparr>sv_conns := []\<rparr>, os') \<and>
    map fst (trace os') = map fst (trace os) @ shut (map fst (sv_conns srv))"
  using assms
proof (induction "sv_conns srv" arbitrary: srv os)
  case Nil
  from Nil(1) [symmetric] show ?case by (auto simp: return_io_def shut_def)
next
  case (Cons p cs)
  obtain fd c where p: "p = (fd, c)" by force
  note e = Cons.hyps(2) [symmetric, unfolded p]
  obtain del cl rs where s: "script os = del # cl # rs"
    using Cons.prems(2) e by (cases "script os"; cases "tl (script os)") auto
  obtain o1 where o1: "close_conn fd ''shutdown'' srv os = Some (srv\<lparr>sv_conns := cs\<rparr>, o1)" "script o1 = rs"
    "trace o1 = trace os @ [(Loop (Epoll_del fd), del), (Close fd, cl)]"
    using close_conn_run [OF Cons.prems(1) e s] Cons.prems(3) s by auto
  have "conns_ok cs" using Cons.prems(1) by (auto simp: e conns_ok_def)
  then obtain o2 where "close_all (map fst cs) (srv\<lparr>sv_conns := cs\<rparr>) o1 = Some (srv\<lparr>sv_conns := []\<rparr>, o2)"
    "map fst (trace o2) = map fst (trace o1) @ shut (map fst cs)"
    using Cons.hyps(1) [of "srv\<lparr>sv_conns := cs\<rparr>" o1] Cons.prems(2,3) e s o1(2) by auto
  then show ?case using o1(1,3) by (auto simp: e bind_io_def shut_def)
qed

section \<open>A server at rest\<close>

definition demo_config :: ProxyConfig where
  "demo_config = default_config\<lparr>cfg_tls := default_tls\<lparr>tls_enabled := False\<rparr>, cfg_pool := demo_cfg, upstreams := [default_upstream]\<rparr>"

definition demo_life :: OS where
  "demo_life = demo_os\<lparr>script := map reply [3, 4, 0, 0, 0, 0, 1, 0, 0, 0, 5, 0, 0, 1, 0, 0, 0, 0, 0]\<rparr>"

definition demo_server :: ProxyServer where
  "demo_server = \<lparr>sv_cfg = demo_config, sv_loop = \<lparr>epfd = 3, timer_fd_to_id = [], timers = [], next_timer_id = 1\<rparr>,
     listen_fd = -1, tls_listen_fd = -1, tls_ctx = None, sv_lb = demo_lb, sv_pools = new_PoolManager demo_cfg, sv_conns = []\<rparr>"

lemma demo_new: "\<exists>os. new_ProxyServer demo_config demo_life = Some (demo_server, os) \<and> script os = tl (script demo_life)"
  by (simp add: new_ProxyServer_def new_EpollLoop_def demo_life_def demo_server_def demo_config_def default_config_def
      demo_lb_def bind_io_def call_def return_io_def reply_def)

lemmas demo_io = bind_io_def call_def return_io_def try_io_def try_st_def reply_def valid_fd_def Let_def

lemma demo_listen:
  assumes "script os = map reply (4 # 0 # 0 # 0 # 0 # 1 # 0 # 0 # 0 # rs)"
  shows "\<exists>os'. setup_listeners demo_server os = Some ((Inr (), demo_server\<lparr>listen_fd := 4\<rparr>), os') \<and> script os' = map reply rs"
  using assms by (simp add: setup_listeners_def listen_on_def add_def demo_server_def demo_config_def reset_fd_def
      set_reuse_def set_nonblocking_def is_err_def demo_io)

definition demo_listening :: ProxyServer where
  "demo_listening = demo_server\<lparr>listen_fd := 4,
     sv_loop := \<lparr>epfd = 3, timer_fd_to_id = [(5, 1)], timers = [(1, \<lparr>t_id = 1, t_tfd = 5, t_cb = OnTick\<rparr>)], next_timer_id = 2\<rparr>\<rparr>"

lemma demo_timer:
  assumes "script os = map reply (5 # 0 # 0 # rs)"
  shows "\<exists>os'. start_timer (demo_server\<lparr>listen_fd := 4\<rparr>) os = Some ((Inr 1, demo_listening), os') \<and> script os' = map reply rs"
  using assms by (simp add: start_timer_def add_timer_def demo_server_def demo_listening_def put_loop_def demo_io)

lemma demo_loop:
  assumes "script os = map reply (1 # rs)" "ret (reply 1) \<noteq> 0"
  shows "\<exists>os'. run_loop srv os = Some ((Inr (), srv), os') \<and> script os' = map reply rs"
  using assms by (simp add: run_loop.simps poll_round_def demo_io)

lemma demo_whole_run:
  "\<exists>os0 os1 os2. new_ProxyServer demo_config demo_life = Some (demo_server, os0) \<and>
     run demo_server os0 = Some ((Inr (), demo_listening), os1) \<and> destroy_server demo_listening os1 = Some ((), os2)"
proof -
  obtain o1 where o1: "new_ProxyServer demo_config demo_life = Some (demo_server, o1)" "script o1 = tl (script demo_life)"
    using demo_new by blast
  obtain o2 where o2: "setup_listeners demo_server o1 = Some ((Inr (), demo_server\<lparr>listen_fd := 4\<rparr>), o2)"
    "script o2 = map reply [5, 0, 0, 1, 0, 0, 0, 0, 0]"
    using demo_listen [of o1 "[5, 0, 0, 1, 0, 0, 0, 0, 0]"] o1(2) by (auto simp: demo_life_def)
  obtain o3 where o3: "start_timer (demo_server\<lparr>listen_fd := 4\<rparr>) o2 = Some ((Inr 1, demo_listening), o3)"
    "script o3 = map reply [1, 0, 0, 0, 0, 0]" using demo_timer [of o2 "[1, 0, 0, 0, 0, 0]"] o2(2) by auto
  obtain o4 where o4: "run_loop demo_listening o3 = Some ((Inr (), demo_listening), o4)" "script o4 = map reply [0, 0, 0, 0, 0]"
    using demo_loop [of o3 "[0, 0, 0, 0, 0]" demo_listening] o3(2) by (auto simp: reply_def)
  have c: "sv_conns demo_listening = []" "tls_enabled (cfg_tls (sv_cfg demo_server)) = False"
    by (simp_all add: demo_listening_def demo_server_def demo_config_def)
  have "run demo_server o1 = Some ((Inr (), demo_listening), o4)"
    using o2(1) o3(1) o4(1) by (simp add: run_def load_tls_def c try_st_def bind_io_def return_io_def)
  moreover have "\<exists>os2. destroy_server demo_listening o4 = Some ((), os2)"
    using o4(2) by (simp add: destroy_server_def demo_listening_def demo_server_def new_PoolManager_def
        destroy_fd_def reset_fd_def close_loop.simps destroy_EpollLoop_def demo_io)
  ultimately show ?thesis using o1(1) by blast
qed

text \<open>The same server after it has accepted a connection.\<close>

definition demo_accepted :: ProxyServer where
  "demo_accepted = demo_listening\<lparr>sv_conns := [(7, accepted_conn False 7 1 (reply 0) demo_listening)]\<rparr>"

lemma demo_accepted_reach: "server_reach demo_config demo_accepted"
proof -
  let ?again = "\<lparr>ret = -1, err = EAGAIN, out = [], aux = 0, evs = [], kevs = []\<rparr>"
  let ?os = "demo_os\<lparr>script := map reply [7, 0, 0, 1, 0, 0] @ [?again]\<rparr>"
  have a: "\<exists>s. accept_one 4 False demo_listening ?os = Some ((True, demo_accepted), s) \<and> script s = [?again]"
    by (simp add: accept_one_def accepted_def demo_accepted_def demo_listening_def demo_server_def set_nonblocking_def
        now_ms_def add_def demo_io)
  then obtain s where s: "accept_one 4 False demo_listening ?os = Some ((True, demo_accepted), s)" "script s = [?again]" by blast
  have "\<exists>s'. accept_one 4 False srv s = Some ((False, srv), s')" for srv
    using s(2) by (simp add: accept_one_def accepted_def demo_io)
  then obtain s' where "accept_one 4 False demo_accepted s = Some ((False, demo_accepted), s')" by blast
  with s(1) have "on_accept 4 False demo_listening ?os = Some (demo_accepted, s')"
    by (subst on_accept.simps, subst on_accept.simps) (simp add: bind_io_def return_io_def)
  then have p: "poll_event sv_loop put_loop run_timer dispatch 4 1 demo_listening ?os = Some (demo_accepted, s')"
    by (simp add: poll_event_def dispatch_def demo_listening_def)
  have "server_reach demo_config demo_listening" using demo_whole_run reach_run by blast
  from server_reach.event [OF this p] show ?thesis .
qed

section \<open>Requests\<close>

text \<open>\<open>relayed lb req body bs tr\<close>: \<open>bs\<close> is the answer of an upstream of the balancer that was healthy when
  it was chosen: within \<open>tr\<close>, on one connection, the request was sent as \<open>request_text\<close> writes it for that
  upstream, with its body, and \<open>bs\<close> was received.\<close>

definition relayed :: "WeightedRoundRobin \<Rightarrow> HttpRequest \<Rightarrow> bytes \<Rightarrow> bytes \<Rightarrow> (Call \<times> Reply) list \<Rightarrow> bool" where
  "relayed lb req body bs tr \<longleftrightarrow> (\<exists>ep\<in>set (endpoints lb). \<exists>wire. ep_healthy ep \<and>
     request_text req (upstream_host ep) = Inr wire \<and> exchanged (bytes_of_string wire @ body) bs tr)"

lemma none_healthy: "lb_wf lb \<Longrightarrow> next_lb lb = (None, lb') \<Longrightarrow> \<forall>ep\<in>set (endpoints lb). \<not> ep_healthy ep"
  using next_lb_cases(4) [of lb None lb'] by (auto simp: eligible_def in_set_conv_nth)

lemma next_lb_some:
  assumes "lb_wf lb" "next_lb lb = (Some i, lb')"
  shows "endpoints lb ! i \<in> set (endpoints lb)" "ep_healthy (endpoints lb ! i)" "upstream_host (endpoints lb' ! i) = upstream_host (endpoints lb ! i)"
proof -
  have e: "i < length (endpoints lb)" "ep_healthy (endpoints lb ! i)"
    using next_lb_cases(4) [OF assms] by (simp_all add: eligible_def)
  then show "endpoints lb ! i \<in> set (endpoints lb)" "ep_healthy (endpoints lb ! i)" by simp_all
  from assms(2) e(1) show "upstream_host (endpoints lb' ! i) = upstream_host (endpoints lb ! i)"
    by (auto simp: next_lb_def Let_def upstream_host_def split: prod.splits if_splits)
qed

lemma forward_relayed:
  assumes "lb_wf lb" "next_lb lb = (Some i, lb1)" "forward_http1 req body i lb1 pools os = Some ((Inr bs, lb2, pools2), os')"
  shows "\<exists>tr. trace os' = trace os @ tr \<and> relayed lb req body bs tr"
  using forward_http1_wire [OF assms(3)] next_lb_some [OF assms(1,2)] unfolding relayed_def by metis

lemma trace_extends: "moves old new m \<Longrightarrow> m os = Some (x, os') \<Longrightarrow> \<exists>tr. trace os' = trace os @ tr"
  unfolding moves_def by (auto simp: did_def elim!: runsD)

lemma refuse_contents: "rb_inv (wbuf c) \<Longrightarrow> contents (wbuf (refuse t c)) = contents (wbuf c) @ bytes_of_string t"
  unfolding refuse_def by simp (metis emits_append_str rbq.emitsD snd_conv)

lemma append_contents: "rb_inv b \<Longrightarrow> contents (snd (append_rb bs b)) = contents b @ bs"
  by (metis append_rb_contents snd_conv)

lemma forward_request_answers:
  assumes "forward_request req body c lb pools os = Some ((c', lb', pools'), os')" "lb_wf lb" "rb_inv (wbuf c)"
  shows "\<exists>answer tr. trace os' = trace os @ tr \<and> rbuf c' = rbuf c \<and> contents (wbuf c') = contents (wbuf c) @ answer \<and>
    (answer = bytes_of_string response_503 \<and> \<not> cc_keep_alive c' \<and> (\<forall>ep\<in>set (endpoints lb). \<not> ep_healthy ep) \<or>
     answer = bytes_of_string response_502 \<and> \<not> cc_keep_alive c' \<or>
     cc_keep_alive c' = cc_keep_alive c \<and> relayed lb req body answer tr)"
proof (cases "next_lb lb")
  case (Pair r lb1)
  obtain tr where tr: "trace os' = trace os @ tr" using trace_extends [OF moves_forward_request assms(1)] by blast
  show ?thesis
  proof (cases r)
    case None
    then have "os' = os" "c' = refuse response_503 c" using assms(1) Pair by (auto simp: forward_request_def io_elims)
    with none_healthy [OF assms(2), of lb1] None Pair refuse_contents [OF assms(3)] show ?thesis
      by (intro exI [of _ "bytes_of_string response_503"] exI [of _ "[]"]) (auto simp: refuse_def)
  next
    case (Some i)
    from assms(1) Pair Some obtain res lb2 pools2 s where f: "forward_http1 req body i lb1 pools os = Some ((res, lb2, pools2), s)"
      by (auto simp: forward_request_def bind_io_eq_Some Let_def)
    show ?thesis
    proof (cases res)
      case (Inl e)
      then have "c' = refuse response_502 (c\<lparr>cc_upstream := Some i\<rparr>)"
        using assms(1) Pair Some f by (auto simp: forward_request_def bind_io_eq_Some return_io_eq_Some Let_def)
      with tr refuse_contents [of "c\<lparr>cc_upstream := Some i\<rparr>"] assms(3) show ?thesis
        by (intro exI [of _ "bytes_of_string response_502"] exI [of _ tr]) (auto simp: refuse_def)
    next
      case (Inr bs)
      then have c: "c' = c\<lparr>cc_upstream := Some i, wbuf := snd (append_rb bs (wbuf c))\<rparr>" "os' = s"
        using assms(1) Pair Some f by (auto simp: forward_request_def bind_io_eq_Some return_io_eq_Some Let_def)
      from forward_relayed [OF assms(2), of i lb1] Pair Some f Inr c(2) obtain tr where
        "trace os' = trace os @ tr" "relayed lb req body bs tr" by metis
      with c(1) append_contents [OF assms(3)] show ?thesis by (intro exI [of _ bs] exI [of _ tr]) auto
    qed
  qed
qed

lemma exchanged_silent:
  assumes "exchanged rq bs tr" "\<forall>p\<in>set tr'. silent (fst p)"
  shows "exchanged rq bs (tr @ tr')"
proof -
  from assms(1) obtain fd a b c d where t: "tr = a @ b @ c @ d" and e: "sent fd b = rq" "recvd fd b = []" "sent fd c = []"
    "recvd fd c = bs" "stopped bs c" and d: "\<forall>fd. sent fd d = [] \<and> recvd fd d = []"
    unfolding exchanged_def by (elim exE conjE)
  have "exchanged rq bs (a @ b @ c @ (d @ tr'))"
    using d silent_wire [OF assms(2)] by (intro exchangedI [OF e]) simp_all
  then show ?thesis by (simp add: t)
qed

lemma relayed_append: "relayed lb req body bs tr \<Longrightarrow> \<forall>p\<in>set tr'. silent (fst p) \<Longrightarrow> relayed lb req body bs (tr @ tr')"
  unfolding relayed_def using exchanged_silent by blast

lemma modify_run: "modify fd ev l os = Some (r, os') \<Longrightarrow> \<exists>q. trace os' = trace os @ [(Loop (Epoll_mod fd (to_epoll ev)), q)]"
  by (auto simp: modify_def io_elims split: if_splits)

lemma map_of_put [simp]: "map_of (sv_conns (put_conn fd c srv)) fd = Some c"
  by (simp add: put_conn_def)

text \<open>And with a request in the buffer of that connection.\<close>

definition demo_client :: "string \<Rightarrow> ClientConn" where
  "demo_client t = (accepted_conn False 7 1 (reply 0) demo_listening)\<lparr>rbuf := buffer_of t\<rparr>"

definition demo_reading :: "string \<Rightarrow> ProxyServer" where
  "demo_reading t = put_conn 7 (demo_client t) demo_accepted"

lemma demo_reading_ok: "server_inv demo_config (demo_reading t)" "map_of (sv_conns (demo_reading t)) 7 = Some (demo_client t)"
proof -
  have "stands 7 (demo_client t) demo_accepted"
    using client_ok_accepted [of False 7 1 "reply 0" demo_listening]
    by (simp add: stands_def demo_accepted_def client_ok_def demo_client_def buffer_of(1))
  from server_inv_put [OF server_reach_inv [OF demo_accepted_reach] this] show "server_inv demo_config (demo_reading t)"
    by (simp add: demo_reading_def)
  show "map_of (sv_conns (demo_reading t)) 7 = Some (demo_client t)" by (simp add: demo_reading_def)
qed

lemma demo_buffers: "rbuf (demo_client t) = buffer_of t" "contents (wbuf (demo_client t)) = []"
  by (simp_all add: demo_client_def accepted_conn_def new_ClientConn_def Let_def)

definition demo_chunked :: string where
  "demo_chunked = ''GET / HTTP/1.1'' @ CRLF @ ''Transfer-Encoding: chunked'' @ CRLF @ CRLF"

lemma demo_chunked_parse: "\<exists>req. parse_request (buffer_of demo_chunked) empty_request = (Complete, req) \<and> req_chunked req"
proof -
  have "\<exists>req. parse_request_bytes demo_chunked empty_request = (Complete, req) \<and> req_chunked req"
    by (simp add: demo_chunked_def http1_eval empty_request_def)
  then show ?thesis by (metis parse_request_whole buffer_of(1,2) string_of_bytes_of_string)
qed

lemma demo_next: "\<exists>lb. next_lb demo_lb = (Some 0, lb) \<and> endpoints lb \<noteq> []"
  by (simp add: demo_lb_def next_lb_def new_WeightedRoundRobin_def default_upstream_def make_endpoint_def Let_def)

lemma no_socket:
  assumes "script os = reply (-1) # rs"
  shows "\<exists>e lb' pools' os'. forward_http1 demo_request [b1, b2] i lb (new_PoolManager demo_cfg) os = Some ((Inl e, lb', pools'), os') \<and>
    script os' = rs"
proof -
  have "request_ok demo_request" using parse_request_bytes_ok [OF demo_parse_bytes] by blast
  then obtain t where t: "request_text demo_request (upstream_host (endpoints lb ! i)) = Inr t"
    using request_text_lines [of demo_request] by (auto simp: request_ok_def header_wf_def)
  obtain b where b: "append_str t (new_RingBuffer (65536 + length [b1, b2])) = (Inr (), b)" "rb_inv b"
    using rbq.emitsD [OF emits_append_str rb_inv_new] by metis
  obtain b' where "append_rb [b1, b2] b = (Inr (), b')" using append_rb_stream [OF b(2)] by (metis surj_pair)
  with t b(1) assms show ?thesis
    by (auto simp: forward_http1_def write_request_def get_pool_def new_PoolManager_def new_UpstreamPool_def demo_cfg_def numeral_2_eq_2
        forward_attempt_def acquire_def acquire_locked_def acquire_failed_def new_connection_def demo_io)
qed

lemma demo_body:
  "take (unat (req_content_length demo_request)) (drop (req_header_bytes demo_request) (contents (rbuf (demo_client demo_text)))) = bytes_of_string ''hi''"
  by (simp add: demo_request_def demo_buffers buffer_of(2) demo_text_def bytes_of_string_def)

lemma demo_served:
  assumes "script os = map reply [-1, 0] @ rs"
  shows "\<exists>go srv' c' os'. on_h1_input 7 (demo_client demo_text) (demo_reading demo_text) os = Some ((go, srv'), os') \<and> script os' = rs \<and>
    map_of (sv_conns srv') 7 = Some c' \<and> contents (wbuf c') = bytes_of_string response_502"
proof -
  let ?c = "demo_client demo_text"
  have l: "sv_lb (demo_reading demo_text) = demo_lb" "sv_pools (demo_reading demo_text) = new_PoolManager demo_cfg"
    by (simp_all add: demo_reading_def put_conn_def demo_accepted_def demo_listening_def demo_server_def)
  obtain lb where n: "next_lb demo_lb = (Some 0, lb)" using demo_next by blast
  obtain b1 b2 where "bytes_of_string ''hi'' = [b1, b2]" by (simp add: bytes_of_string_def)
  then have b: "peek (unat (req_content_length demo_request)) (commit_read (req_header_bytes demo_request) (rbuf ?c)) = [b1, b2]"
    using demo_body by (simp add: rbq.peek_law contents_commit_read rb_inv_commit_read buffer_of(1) demo_buffers)
  obtain e lb' pools' s where f: "forward_http1 demo_request [b1, b2] 0 lb (new_PoolManager demo_cfg) os = Some ((Inl e, lb', pools'), s)"
    "script s = reply 0 # rs"
    using no_socket [of os "reply 0 # rs" b1 b2 0 lb] assms by auto
  have w: "contents (wbuf (refuse response_502 (?c\<lparr>rbuf := b, cc_keep_alive := k, cc_upstream := u\<rparr>))) = bytes_of_string response_502" for b k u
    using refuse_contents [of "?c\<lparr>rbuf := b, cc_keep_alive := k, cc_upstream := u\<rparr>" response_502] demo_buffers(2)
      stands_found [OF demo_reading_ok [of demo_text]] by (simp add: stands_def client_ok_def)
  have "\<exists>x s' c'. serve_request 7 demo_request ?c (demo_reading demo_text) os = Some (x, s') \<and> script s' = rs \<and>
      map_of (sv_conns x) 7 = Some c' \<and> contents (wbuf c') = bytes_of_string response_502"
    using f b w by (auto simp: serve_request_def forward_request_def l n error_text_def log_warn_io_def modify_def put_conn_def demo_io)
  then show ?thesis
    by (auto simp: on_h1_input_def demo_buffers demo_parse Let_def bind_io_def return_io_def readable_contents buffer_of(2)
        demo_request_def demo_length)
qed

lemma forward_request_tls: "gives (\<lambda>(c', _, _). tls_conn c' = tls_conn c) (forward_request req body c lb pools os)"
  unfolding forward_request_def Let_def by (intro gives_intros) (auto simp: refuse_def)

lemma h1_served:
  assumes "server_inv cfg srv" "map_of (sv_conns srv) fd = Some c"
    and req: "parse_request (rbuf c) empty_request = (Complete, req)" "\<not> req_chunked req"
      "req_header_bytes req + unat (req_content_length req) \<le> length (contents (rbuf c))"
    and run: "on_h1_input fd c srv os = Some ((go, srv'), os')"
  shows "go \<and> (\<exists>c' answer tr. map_of (sv_conns srv') fd = Some c' \<and> trace os' = trace os @ tr \<and>
    contents (rbuf c') = drop (req_header_bytes req + unat (req_content_length req)) (contents (rbuf c)) \<and>
    contents (wbuf c') = contents (wbuf c) @ answer \<and> tls_conn c' = tls_conn c \<and>
    (answer = bytes_of_string response_503 \<and> \<not> cc_keep_alive c' \<and> (\<forall>u\<in>set (upstreams cfg). \<not> uc_healthy u) \<or>
     answer = bytes_of_string response_502 \<and> \<not> cc_keep_alive c' \<or>
     cc_keep_alive c' = req_keep_alive req \<and>
       relayed (sv_lb srv) req (take (unat (req_content_length req)) (drop (req_header_bytes req) (contents (rbuf c)))) answer tr))"
proof -
  let ?n = "req_header_bytes req" and ?m = "unat (req_content_length req)"
  have ok: "client_ok c" "lb_ok (upstreams cfg) (sv_lb srv)"
    using assms(1,2) by (auto simp: server_inv_def dest: conns_okD)
  then have inv: "rb_inv (rbuf c)" "rb_inv (wbuf c)" "lb_wf (sv_lb srv)" by (auto simp: client_ok_def lb_ok_def)
  define c1 where "c1 = c\<lparr>rbuf := commit_read ?m (commit_read ?n (rbuf c)), cc_keep_alive := req_keep_alive req\<rparr>"
  have b: "peek ?m (commit_read ?n (rbuf c)) = take ?m (drop ?n (contents (rbuf c)))"
    "contents (rbuf c1) = drop (?n + ?m) (contents (rbuf c))"
    using inv(1) by (simp_all add: c1_def rbq.peek_law rb_inv_commit_read contents_commit_read add.commute)
  have "\<not> ?m > (if readable (rbuf c) > ?n then readable (rbuf c) - ?n else 0)"
    using req(3) by (simp add: readable_contents) linarith
  then have go: "go" and "serve_request fd req c srv os = Some (srv', os')"
    using run req(1,2) by (auto simp: on_h1_input_def Let_def io_elims)
  then obtain c2 lb pools s r where f: "forward_request req (take ?m (drop ?n (contents (rbuf c)))) c1 (sv_lb srv) (sv_pools srv) os = Some ((c2, lb, pools), s)"
    and m: "modify fd (EvRead OR EvWrite) (sv_loop srv) s = Some (r, os')"
    and srv': "srv' = put_conn fd (c2\<lparr>req_count := req_count c2 + 1\<rparr>) (srv\<lparr>sv_lb := lb, sv_pools := pools\<rparr>)"
    by (auto simp: serve_request_def Let_def io_elims b(1) c1_def [symmetric] put_conn_def)
  have tl: "tls_conn c2 = tls_conn c"
    using givesD [OF forward_request_tls f] by (simp add: c1_def)
  obtain q where q: "trace os' = trace s @ [q]" "silent (fst q)" using modify_run [OF m] by (auto simp: silent_def)
  have w: "rb_inv (wbuf c1)" "contents (wbuf c1) = contents (wbuf c)" "cc_keep_alive c1 = req_keep_alive req"
    using inv(2) by (simp_all add: c1_def)
  have h: "(\<forall>ep\<in>set (endpoints (sv_lb srv)). \<not> ep_healthy ep) \<longrightarrow> (\<forall>u\<in>set (upstreams cfg). \<not> uc_healthy u)"
    using lb_ok_healthy [OF ok(2)] by blast
  from forward_request_answers [OF f inv(3) w(1)] obtain answer tr where t: "trace s = trace os @ tr" "rbuf c2 = rbuf c1"
    "contents (wbuf c2) = contents (wbuf c1) @ answer"
    "answer = bytes_of_string response_503 \<and> \<not> cc_keep_alive c2 \<and> (\<forall>ep\<in>set (endpoints (sv_lb srv)). \<not> ep_healthy ep) \<or>
     answer = bytes_of_string response_502 \<and> \<not> cc_keep_alive c2 \<or>
     cc_keep_alive c2 = cc_keep_alive c1 \<and> relayed (sv_lb srv) req (take ?m (drop ?n (contents (rbuf c)))) answer tr" by blast
  with h relayed_append [of _ _ _ answer tr "[q]"] q have "answer = bytes_of_string response_503 \<and> \<not> cc_keep_alive c2 \<and> (\<forall>u\<in>set (upstreams cfg). \<not> uc_healthy u) \<or>
     answer = bytes_of_string response_502 \<and> \<not> cc_keep_alive c2 \<or>
     cc_keep_alive c2 = req_keep_alive req \<and> relayed (sv_lb srv) req (take ?m (drop ?n (contents (rbuf c)))) answer (tr @ [q])"
    using w(3) by auto
  with go srv' t(1-3) b(2) w(2) q(1) tl show ?thesis
    by (intro conjI exI [of _ "c2\<lparr>req_count := req_count c2 + 1\<rparr>"] exI [of _ answer] exI [of _ "tr @ [q]"]) simp_all
qed

section \<open>Streams\<close>

definition finish_stream :: "u32 \<Rightarrow> nat \<Rightarrow> H2Conn \<Rightarrow> H2Conn" where
  "finish_stream sid n h = (case consume_body sid n h of None \<Rightarrow> h | Some h' \<Rightarrow> h')"

lemma finish_stream_pending: "pending_output (finish_stream sid n h) = pending_output h"
  by (auto simp: finish_stream_def consume_body_def put_stream_def pending_output_def split: option.split)

lemma h2_stream_answers:
  assumes "h2_stream sid conn h2 lb pools os = Some ((conn', h2', lb', pools'), os')" "lb_wf lb"
    and "stream_headers sid h2 = Some headers" "stream_body sid h2 = Some body"
  shows "\<exists>answer tr. trace os' = trace os @ tr \<and> h2' = finish_stream sid (length body) (h2_answer sid answer h2) \<and>
    (answer = (h2_refusal ''503'', []) \<and> (\<forall>ep\<in>set (endpoints lb). \<not> ep_healthy ep) \<or> answer = (h2_refusal ''502'', []) \<or>
     (\<exists>bs. answer = h2_response bs \<and> relayed lb (h2_request headers body) body bs tr))"
proof (cases "next_lb lb")
  case (Pair r lb1)
  obtain tr where tr: "trace os' = trace os @ tr" using trace_extends [OF moves_h2_stream assms(1)] by blast
  note s = assms(1) [unfolded h2_stream_def Let_def assms(3,4) prod.case option.case Pair finish_stream_def [symmetric]]
  show ?thesis
  proof (cases r)
    case None
    with s have "h2' = finish_stream sid (length body) (h2_answer sid (h2_refusal ''503'', []) h2)" by (simp add: return_io_eq_Some)
    with none_healthy [OF assms(2), of lb1] None Pair tr show ?thesis
      by (intro exI [of _ "(h2_refusal ''503'', [])"] exI [of _ tr]) simp
  next
    case (Some i)
    with s obtain res lb2 pools2 s' where f: "forward_http1 (h2_request headers body) body i lb1 pools os = Some ((res, lb2, pools2), s')"
      by (auto simp: bind_io_eq_Some)
    show ?thesis
    proof (cases res)
      case (Inl e)
      with s Some f have "h2' = finish_stream sid (length body) (h2_answer sid (h2_refusal ''502'', []) h2)"
        by (auto simp: bind_io_eq_Some return_io_eq_Some)
      with tr show ?thesis by (intro exI [of _ "(h2_refusal ''502'', [])"] exI [of _ tr]) simp
    next
      case (Inr bs)
      with s Some f have h: "h2' = finish_stream sid (length body) (h2_answer sid (h2_response bs) h2)" "os' = s'"
        by (auto simp: bind_io_eq_Some return_io_eq_Some)
      from forward_relayed [OF assms(2), of i lb1] Pair Some f Inr h(2) obtain tr where
        "trace os' = trace os @ tr" "relayed lb (h2_request headers body) body bs tr" by metis
      with h(1) show ?thesis by (intro exI [of _ "h2_response bs"] exI [of _ tr]) auto
    qed
  qed
qed

definition deliverable :: "HpackHeader list \<Rightarrow> bool" where
  "deliverable hs \<longleftrightarrow> (\<forall>h\<in>set hs. header_ok h) \<and> length (concat (map literal_bytes hs)) \<le> 16384"

lemma refusal_deliverable: "deliverable (h2_refusal ''502'')" "deliverable (h2_refusal ''503'')"
  using string_len_le [of "'':status''"] string_len_le [of "''502''"] string_len_le [of "''503''"] string_len_le [of "''content-length''"]
    string_len_le [of "''0''"] length_string_bytes [of "'':status''"] length_string_bytes [of "''502''"]
    length_string_bytes [of "''503''"] length_string_bytes [of "''content-length''"] length_string_bytes [of "''0''"]
  by (simp_all add: deliverable_def h2_refusal_def plain_header_def header_ok_def has_uppercase_def isupper_c_def ord_c_def literal_bytes_def)

definition demo_stream :: H2Conn where
  "demo_stream = (new_H2Conn True)\<lparr>streams := [1 \<mapsto> new_H2Stream\<lparr>st_id := 1, st_state := HalfClosedRemote,
     st_recv_buf := buffer_of ''hi'', request_headers := [plain_header '':method'' ''GET'', plain_header '':path'' ''/'']\<rparr>],
     last_peer_stream := 1\<rparr>"

lemma demo_stream_ok: "conn_inv demo_stream" "stream_headers 1 demo_stream = Some [plain_header '':method'' ''GET'', plain_header '':path'' ''/'']"
  "stream_body 1 demo_stream = Some (bytes_of_string ''hi'')" "hpack_enc demo_stream = hpack_dec (new_H2Conn False)"
proof -
  show "conn_inv demo_stream"
    using conn_inv_new [of True] by (auto simp: demo_stream_def conn_inv_def stream_inv_def buffer_of(1))
  show "stream_headers 1 demo_stream = Some [plain_header '':method'' ''GET'', plain_header '':path'' ''/'']"
    by (simp add: demo_stream_def stream_headers_def)
  have s: "\<exists>s. streams demo_stream 1 = Some s \<and> st_recv_buf s = buffer_of ''hi''" by (simp add: demo_stream_def)
  show "stream_body 1 demo_stream = Some (bytes_of_string ''hi'')"
    using s unfolding stream_body_def by (elim exE conjE) (simp only: option.map rbq.peek_all [OF buffer_of(1)] buffer_of(2))
  show "hpack_enc demo_stream = hpack_dec (new_H2Conn False)" by (simp add: demo_stream_def) (simp add: new_H2Conn_def)
qed

section \<open>A target with line breaks\<close>

text \<open>The first request that an upstream reads from the injected text.\<close>

definition injected_first :: HttpRequest where
  "injected_first = empty_request\<lparr>req_method := ''GET'', req_target := ''/'', req_version := ''HTTP/1.1'',
     req_keep_alive := True, req_header_bytes := 18\<rparr>"

definition injected_line :: string where
  "injected_line = ''GET / HTTP/1.1'' @ CRLF @ CRLF"

lemma injected_first_parse: "parse_request_bytes injected_line empty_request = (Complete, injected_first)"
  by (simp add: injected_line_def injected_first_def http1_eval empty_request_def)

lemma injected_first_length: "req_header_bytes injected_first = length injected_line"
  by (simp add: injected_line_def injected_first_def)

definition injecting :: "HttpRequest \<Rightarrow> HpackHeader list" where
  "injecting req = [plain_header '':method'' ''GET'',
     plain_header '':path'' (''/ HTTP/1.1'' @ CRLF @ CRLF @ req_method req @ '' '' @ req_target req)]"

lemma injecting_text:
  assumes "req_headers req = []" "req_content_length req = 0" "req_version req = ''HTTP/1.1''"
  shows "request_text (h2_request (injecting req) []) host =
    Inr (injected_line @ unlines (request_lines req host) @ CRLF)"
proof -
  have "request_text req host = Inr (unlines (request_lines req host) @ CRLF)" using assms(1) by (intro request_text_lines) simp
  with assms show ?thesis
    by (simp add: injected_line_def request_text_def h2_request_def injecting_def plain_header_def h2_field_def map_r_def empty_request_def)
qed

section \<open>Properties\<close>



text \<open>C5. The server is always well formed: in every state of its life, whatever the kernel, the TLS
  library and the clients do, at the end of \<open>run\<close> in particular, connections are stored under their
  own non-negative descriptors, each once; a connection still in its handshake has its TLS object;
  the buffers of every connection, and the HTTP/2 state where there is one, keep their invariants;
  the balancer has the names, weights and health of the configuration; and at most one timer is
  armed.\<close>

theorem server_well_formed:
  assumes "server_reach cfg srv \<or>
    (\<exists>srv0 os0 os1 os r os'. new_ProxyServer cfg os0 = Some (srv0, os1) \<and> run srv0 os = Some ((r, srv), os'))"
  shows "sv_cfg srv = cfg \<and> distinct (map fst (sv_conns srv)) \<and> length (timers (sv_loop srv)) \<le> 1 \<and>
    (\<forall>(fd, c)\<in>set (sv_conns srv). 0 \<le> fd \<and> cc_fd c = fd \<and> rb_inv (rbuf c) \<and> rb_inv (wbuf c) \<and> rb_inv (tls_pending c) \<and>
       (cc_state c = TLSHandshake \<and> tls_conn c \<noteq> None \<or> cc_state c = ReadRequest) \<and> (\<forall>h. h2conn c = Some h \<longrightarrow> conn_inv h)) \<and>
    map (\<lambda>ep. (ep_name ep, ep_weight ep, ep_healthy ep)) (endpoints (sv_lb srv)) =
      map (\<lambda>u. (ep_name (make_endpoint u), max 1 (uc_weight u), uc_healthy u)) (upstreams cfg)"
proof -
  have inv: "server_inv cfg srv" using assms reach_run server_reach_inv by blast
  with lb_ok_endpoints [of "upstreams cfg" "sv_lb srv"] show ?thesis
    by (auto simp: server_inv_def conns_ok_def client_ok_def)
qed

theorem server_well_formed_witness: "map ep_name (endpoints (sv_lb demo_listening)) = map (\<lambda>u. ep_name (make_endpoint u)) [default_upstream]"
proof -
  have "server_reach demo_config demo_listening \<or>
    (\<exists>srv0 os0 os1 os r os'. new_ProxyServer demo_config os0 = Some (srv0, os1) \<and> run srv0 os = Some ((r, demo_listening), os'))"
    using demo_whole_run by blast
  from server_well_formed [OF this] have "map fst (map (\<lambda>ep. (ep_name ep, ep_weight ep, ep_healthy ep)) (endpoints (sv_lb demo_listening))) =
      map fst (map (\<lambda>u. (ep_name (make_endpoint u), max 1 (uc_weight u), uc_healthy u)) (upstreams demo_config))" by metis
  then show ?thesis by (simp add: demo_config_def comp_def)
qed







text \<open>C39. Every other input of an HTTP/1.1 connection: a malformed request closes this connection and no
  other; an incomplete header block, or an incomplete body, is left untouched and nothing is done; a
  chunked request gets the proxy's 501 and its header block is consumed, without an upstream being
  chosen, and the connection is to be closed after the answer.\<close>

theorem h1_request_unserved:
  assumes "server_inv cfg srv" "map_of (sv_conns srv) fd = Some c"
    and "on_h1_input fd c srv os = Some ((go, srv'), os')"
  shows "case parse_request (rbuf c) empty_request of
      (PError, _) \<Rightarrow> \<not> go \<and> map_of (sv_conns srv') = (map_of (sv_conns srv))(fd := None)
    | (Incomplete, _) \<Rightarrow> go \<and> srv' = srv \<and> os' = os
    | (Complete, req) \<Rightarrow>
        (req_chunked req \<longrightarrow> \<not> go \<and> sv_lb srv' = sv_lb srv \<and> sv_pools srv' = sv_pools srv \<and>
           (\<exists>c'. map_of (sv_conns srv') = (map_of (sv_conns srv))(fd \<mapsto> c') \<and> \<not> cc_keep_alive c' \<and>
              contents (wbuf c') = contents (wbuf c) @ bytes_of_string response_501 \<and>
              contents (rbuf c') = drop (req_header_bytes req) (contents (rbuf c)))) \<and>
        (\<not> req_chunked req \<and> length (contents (rbuf c)) < req_header_bytes req + unat (req_content_length req) \<longrightarrow>
           \<not> go \<and> srv' = srv \<and> os' = os)"
proof -
  have cs: "conns_ok (sv_conns srv)" using assms(1) by (simp add: server_inv_def)
  then have inv: "rb_inv (rbuf c)" "rb_inv (wbuf c)" using assms(2) by (auto simp: client_ok_def dest: conns_okD)
  obtain p req where pr: "parse_request (rbuf c) empty_request = (p, req)" by force
  show ?thesis
  proof (cases p)
    case PError
    then obtain s where "close_conn fd ''bad request'' srv os = Some (srv', s)" "\<not> go"
      using assms(3) pr by (auto simp: on_h1_input_def io_elims)
    moreover have "distinct (map fst (sv_conns srv))" using cs by (simp add: conns_ok_def)
    ultimately show ?thesis using assms(2) pr PError
      by (auto simp: close_conn_def bind_io_eq_Some return_io_eq_Some map_of_erase)
  next
    case Incomplete
    then show ?thesis using assms(3) pr by (auto simp: on_h1_input_def io_elims)
  next
    case Complete
    show ?thesis
    proof (cases "req_chunked req")
      case True
      have "srv' = put_conn fd ((refuse response_501 c)\<lparr>rbuf := commit_read (req_header_bytes req) (rbuf (refuse response_501 c))\<rparr>) srv" "\<not> go"
        using assms(3) pr Complete True by (auto simp: on_h1_input_def Let_def io_elims)
      then show ?thesis using pr Complete True refuse_contents [OF inv(2)] inv(1)
        by (auto simp: put_conn_def refuse_def contents_commit_read)
    next
      case False
      have "req_header_bytes req \<le> length (contents (rbuf c))"
        using parse_request_bytes_ok [OF parse_request_Complete [OF inv(1), of empty_request req]] pr Complete by simp
      with False show ?thesis
        using assms(3) pr Complete by (auto simp: on_h1_input_def Let_def io_elims readable_contents split: if_splits)
    qed
  qed
qed

theorem h1_request_unserved_witness:
  "\<exists>srv' os' c'. on_h1_input 7 (demo_client demo_chunked) (demo_reading demo_chunked) (demo_os\<lparr>script := [reply 0]\<rparr>) =
      Some ((False, srv'), os') \<and> map_of (sv_conns srv') 7 = Some c' \<and> contents (wbuf c') = bytes_of_string response_501"
proof -
  let ?c = "demo_client demo_chunked"
  obtain req where p: "parse_request (rbuf ?c) empty_request = (Complete, req)" "req_chunked req"
    using demo_chunked_parse by (auto simp: demo_buffers)
  obtain srv' os' where r: "on_h1_input 7 ?c (demo_reading demo_chunked) (demo_os\<lparr>script := [reply 0]\<rparr>) = Some ((False, srv'), os')"
    using p by (auto simp: on_h1_input_def modify_def demo_io)
  from h1_request_unserved [OF demo_reading_ok r] p r show ?thesis by (auto simp: demo_buffers)
qed



text \<open>C40. A target over HTTP/2 is not checked before it is written out: for every request line that is
  itself acceptable, a header list that HPACK transports without complaint makes the proxy write one
  text from which the upstream, by the proxy's own grammar, reads two requests, the first for \<^verbatim>\<open>/\<close> and
  the second, complete and to the end of the text, with the method and target the client chose.  The
  guarantee for HTTP/1.1 clients that one request stays one request does not extend to HTTP/2.\<close>

theorem h2_target_splits_request:
  assumes "request_ok req" "req_headers req = []" "req_content_length req = 0" "req_version req = ''HTTP/1.1''"
    and "header_wf (host_header host)" "length (unlines (request_lines req host)) + 2 \<le> HTTP1_MAX_HEADER_BYTES"
  shows "(\<forall>h\<in>set (injecting req). header_ok h) \<and>
    (\<exists>wire second. request_text (h2_request (injecting req) []) host = Inr wire \<and>
       parse_request (buffer_of wire) empty_request = (Complete, injected_first) \<and>
       parse_request (buffer_of (drop (req_header_bytes injected_first) wire)) empty_request = (Complete, second) \<and>
       req_method second = req_method req \<and> req_target second = req_target req \<and>
       req_header_bytes injected_first + req_header_bytes second = length wire)"
proof -
  let ?two = "unlines (request_lines req host) @ CRLF"
  note n = injected_first_length
  have "parse_request_bytes (injected_line @ ?two) empty_request = (Complete, injected_first)"
    by (rule parse_request_bytes_local [OF injected_first_parse]) (simp add: n)
  then have 1: "parse_request (buffer_of (injected_line @ ?two)) empty_request = (Complete, injected_first)"
    by (intro parse_request_whole) (simp_all only: buffer_of string_of_bytes_of_string)
  have c: "length (forwarded_headers req host) \<le> HTTP1_MAX_HEADER_COUNT"
    using assms(2,3) by (simp add: forwarded_headers_def http1_limits)
  obtain second where "parse_request_bytes (?two @ []) empty_request = (Complete, second)" "req_method second = req_method req"
    "req_target second = req_target req" "req_header_bytes second = length ?two"
    using parse_request_lines [OF assms(1,5) c assms(6), of "[]" empty_request] by (auto simp: append_assoc)
  moreover from this(1) have "parse_request (buffer_of ?two) empty_request = (Complete, second)"
    by (intro parse_request_whole) (simp_all only: buffer_of string_of_bytes_of_string append_Nil2)
  moreover have "\<forall>h\<in>set (injecting req). header_ok h"
  proof -
    let ?p = "''/ HTTP/1.1'' @ CRLF @ CRLF @ req_method req @ '' '' @ req_target req"
    have "length ?p \<le> 65535" using assms(1) by (simp add: request_ok_def http1_limits)
    with string_len_le [of ?p] string_len_le [of "'':method''"] string_len_le [of "'':path''"] string_len_le [of "''GET''"]
    show ?thesis by (simp add: injecting_def plain_header_def header_ok_def has_uppercase_def isupper_c_def ord_c_def)
  qed
  ultimately show ?thesis
    using injecting_text [OF assms(2-4), of host] 1 n
    by (intro conjI exI [of _ "injected_line @ ?two"] exI [of _ second]) simp_all
qed

theorem h2_target_splits_request_witness:
  "\<exists>wire second. request_text (h2_request (injecting (demo_get\<lparr>req_method := ''POST'', req_target := ''/admin''\<rparr>)) []) ''u:80'' = Inr wire \<and>
     parse_request (buffer_of (drop (req_header_bytes injected_first) wire)) empty_request = (Complete, second) \<and>
     req_method second = ''POST'' \<and> req_target second = ''/admin''"
proof -
  let ?r = "demo_get\<lparr>req_method := ''POST'', req_target := ''/admin'', req_keep_alive := True, req_header_bytes := 4\<rparr>"
  have "request_ok ?r" "header_wf (host_header ''u:80'')" "length (unlines (request_lines ?r ''u:80'')) + 2 \<le> HTTP1_MAX_HEADER_BYTES"
    by (simp_all add: request_ok_def demo_get_def empty_request_def header_wf_def host_header_def http1_eval
        request_lines_def forwarded_headers_def htext_def via_header_def)
  from h2_target_splits_request [OF this(1) _ _ _ this(2,3)] show ?thesis
    by (auto simp: demo_get_def empty_request_def injecting_def)
qed

end
