(* ===== verification/Server_Events.thy ===== *)
theory Server_Events
  imports Server_Properties
begin

text \<open>
  One event of a client connection from the bytes that arrive to the bytes that leave, and the whole
  program: what \<^verbatim>\<open>main\<close> (\<^verbatim>\<open>src/main.cpp\<close>) opens, prints and returns.
\<close>

section \<open>An event that brings a request\<close>

text \<open>\<open>answered cfgs lb req body answer keep tr\<close>: what a request gets, and whether its connection is
  kept after it.\<close>

definition answered ::
  "UpstreamConfig list \<Rightarrow> WeightedRoundRobin \<Rightarrow> HttpRequest \<Rightarrow> bytes \<Rightarrow> bytes \<Rightarrow> bool \<Rightarrow> (Call \<times> Reply) list \<Rightarrow> bool" where
  "answered cfgs lb req body answer keep tr \<longleftrightarrow>
     answer = bytes_of_string response_503 \<and> \<not> keep \<and> (\<forall>u\<in>set cfgs. \<not> uc_healthy u) \<or>
     answer = bytes_of_string response_502 \<and> \<not> keep \<or>
     keep = req_keep_alive req \<and> relayed lb req body answer tr"

text \<open>Whether a connection survives writing.\<close>

definition survives :: "bool \<Rightarrow> unit result \<Rightarrow> bool" where
  "survives keep r = (case r of Inr _ \<Rightarrow> keep | Inl e \<Rightarrow> is_would_block e)"

lemma close_conn_gone:
  assumes "close_conn fd reason srv os = Some (srv', os')" "distinct (map fst (sv_conns srv))"
  shows "map_of (sv_conns srv') fd = None"
proof (cases "map_of (sv_conns srv) fd")
  case None
  with assms(1) show ?thesis by (auto simp: close_conn_def io_elims)
next
  case (Some c)
  with assms show ?thesis by (auto simp: close_conn_def bind_io_eq_Some return_io_eq_Some map_of_erase)
qed

lemma gave_frame:
  assumes "gave fd c r c' tr"
  shows "cc_keep_alive c' = cc_keep_alive c" "rbuf c' = rbuf c"
proof -
  have f: "c' = c\<lparr>wbuf := wbuf c', tls_pending := tls_pending c'\<rparr>" using assms by (simp add: gave_def Let_def)
  show "cc_keep_alive c' = cc_keep_alive c" "rbuf c' = rbuf c" using arg_cong [of _ _ cc_keep_alive, OF f] arg_cong [of _ _ rbuf, OF f] by simp_all
qed

lemma gave_out:
  "gave fd c r c' tr \<Longrightarrow> plain_out (tls_conn c \<noteq> None) fd tr @ contents (wbuf c') = contents (wbuf c)"
  "gave fd c r c' tr \<Longrightarrow> is_ok r \<Longrightarrow> contents (wbuf c') = []"
proof -
  show "gave fd c r c' tr \<Longrightarrow> plain_out (tls_conn c \<noteq> None) fd tr @ contents (wbuf c') = contents (wbuf c)"
    unfolding gave_def Let_def by blast
  show "contents (wbuf c') = []" if "gave fd c r c' tr" "is_ok r"
  proof -
    have "r = Inr ()" using that(2) by (cases r) (simp_all add: is_ok_def)
    with that(1) show ?thesis unfolding gave_def Let_def by blast
  qed
qed

lemma on_client_write_run:
  assumes "on_client_write fd c srv os = Some (srv', os')" "distinct (map fst (sv_conns srv))" "rb_inv (wbuf c)" "rb_inv (tls_pending c)"
  shows "\<exists>r c' tr tr'. trace os' = trace os @ tr @ tr' \<and> gave fd c r c' tr \<and>
    map_of (sv_conns srv') fd = (if survives (cc_keep_alive c) r then Some c' else None)"
proof -
  from assms(1) obtain r c' s where w: "write_client_output c fd os = Some ((r, c'), s)"
    and k: "(case r of Inl e \<Rightarrow> if is_would_block e then return_io (put_conn fd c' srv) else close_error fd ''send error: '' e (put_conn fd c' srv)
       | Inr _ \<Rightarrow> if \<not> cc_keep_alive c' then close_conn fd ''response complete'' (put_conn fd c' srv)
           else bind_io (modify fd EvRead (sv_loop (put_conn fd c' srv))) (\<lambda>_. return_io (put_conn fd c' srv))) s = Some (srv', os')"
    by (auto simp: on_client_write_def bind_io_eq_Some Let_def)
  obtain tr where tr: "trace s = trace os @ tr" "gave fd c r c' tr" using write_gave [OF w assms(3,4)] by blast
  have d: "distinct (map fst (sv_conns (put_conn fd c' srv)))" using assms(2) by (simp add: put_conn_def distinct_assign)
  have a: "cc_keep_alive c' = cc_keep_alive c" using gave_frame(1) [OF tr(2)] .
  have m: "map_of (sv_conns srv') fd = (if survives (cc_keep_alive c) r then Some c' else None)"
    using k d a by (cases r) (auto simp: survives_def io_elims close_error_def dest: close_conn_gone)
  have "\<exists>tr'. trace os' = trace s @ tr'"
  proof (cases r)
    case (Inl e)
    with k trace_extends [OF moves_close_error] show ?thesis by (cases "is_would_block e") (auto simp: return_io_eq_Some)
  next
    case (Inr u)
    with k trace_extends [OF moves_close_conn] trace_extends [OF moves_modify(1)] show ?thesis by (cases "cc_keep_alive c'") auto
  qed
  with tr m show ?thesis by (metis append_assoc)
qed

text \<open>What reading leaves of a connection.\<close>

lemma read_frame_of:
  assumes "read_client_input c fd os = Some ((r, c1), os1)" "client_ok c"
  shows "\<exists>tr. trace os1 = trace os @ tr \<and> contents (rbuf c1) = contents (rbuf c) @ plain_in (tls_conn c \<noteq> None) fd tr \<and>
    cc_proto c1 = cc_proto c \<and> wbuf c1 = wbuf c \<and> h2conn c1 = h2conn c \<and> tls_conn c1 = tls_conn c"
proof -
  have "rb_inv (rbuf c)" "rb_inv (tls_pending c)" using assms(2) by (auto simp: client_ok_def)
  from ensuresD [OF read_client_input_stream [OF this refl] assms(1)] obtain tr where i: "trace os1 = trace os @ tr"
    "c1 = c\<lparr>rbuf := rbuf c1, tls_pending := tls_pending c1\<rparr>" "contents (rbuf c1) = contents (rbuf c) @ plain_in (tls_conn c \<noteq> None) fd tr"
    by (auto simp: did_def)
  have "cc_proto c1 = cc_proto c" "tls_conn c1 = tls_conn c" "wbuf c1 = wbuf c" "h2conn c1 = h2conn c"
    using arg_cong [of _ _ cc_proto, OF i(2)] arg_cong [of _ _ tls_conn, OF i(2)] arg_cong [of _ _ wbuf, OF i(2)] arg_cong [of _ _ h2conn, OF i(2)]
    by simp_all
  with i(1,3) show ?thesis by blast
qed

text \<open>The connection of an event is read, served and written in turn.\<close>

lemma on_client_event_steps:
  assumes "map_of (sv_conns srv) fd = Some c" "cc_state c \<noteq> TLSHandshake" "cc_proto c \<noteq> HTTP2"
    and "has ev EvRead" "has ev EvWrite" "\<not> has ev EvHangUp" "\<not> has ev EvError"
    and "read_client_input c fd os = Some ((Inr False, c1), os1)" "cc_proto c1 = cc_proto c"
    and "on_client_event fd ev srv os = Some (srv', os')"
  obtains go srv2 os2 where "on_h1_input fd c1 (put_conn fd c1 srv) os1 = Some ((go, srv2), os2)"
    "\<And>c2. go \<Longrightarrow> map_of (sv_conns srv2) fd = Some c2 \<Longrightarrow> on_client_write fd c2 srv2 os2 = Some (srv', os')"
proof -
  from assms(10) obtain go srv2 os2 where a: "on_client_read fd c srv os = Some ((go, srv2), os2)"
    and b: "(case map_of (sv_conns srv2) fd of Some c2 \<Rightarrow> if go \<and> has ev EvWrite then on_client_write fd c2 srv2 else return_io srv2
       | None \<Rightarrow> return_io srv2) os2 = Some (srv', os')"
    using assms(1,2,4,6,7) by (auto simp: on_client_event_def bind_io_eq_Some)
  show ?thesis
  proof (rule that)
    show "on_h1_input fd c1 (put_conn fd c1 srv) os1 = Some ((go, srv2), os2)"
      using a assms(3,8,9) by (simp add: on_client_read_def bind_io_def)
    show "on_client_write fd c2 srv2 os2 = Some (srv', os')" if "go" "map_of (sv_conns srv2) fd = Some c2" for c2
      using b that assms(5) by simp
  qed
qed

definition demo_again :: Reply where
  "demo_again = (reply (- 1))\<lparr>err := EAGAIN\<rparr>"

definition demo_event :: OS where
  "demo_event = demo_os\<lparr>script := demo_again # map reply [-1, 0] @ [demo_again]\<rparr>"

lemma demo_events: "tls_conn (demo_client t) = None" "cc_state (demo_client t) \<noteq> TLSHandshake" "cc_proto (demo_client t) \<noteq> HTTP2"
  "has 3 EvRead" "has 3 EvWrite" "\<not> has 3 EvHangUp" "\<not> has 3 EvError"
  by (simp_all add: demo_client_def accepted_conn_def new_ClientConn_def Let_def has_def)

lemma demo_complete:
  "parse_request (rbuf (demo_client demo_text)) empty_request = (Complete, demo_request)" "\<not> req_chunked demo_request"
  "req_header_bytes demo_request + unat (req_content_length demo_request) \<le> length (contents (rbuf (demo_client demo_text)))"
  by (simp_all add: demo_parse demo_buffers) (simp_all add: demo_request_def buffer_of(2) demo_length)

lemma demo_event_run:
  "\<exists>os1 srv' os'. read_client_input (demo_client demo_text) 7 demo_event = Some ((Inr False, demo_client demo_text), os1) \<and>
     on_client_event 7 3 (demo_reading demo_text) demo_event = Some (srv', os')"
proof -
  let ?c = "demo_client demo_text" and ?srv = "demo_reading demo_text"
  obtain os1 where r: "read_client_input ?c 7 demo_event = Some ((Inr False, ?c), os1)" "script os1 = map reply [-1, 0] @ [demo_again]"
    using demo_events(1) [of demo_text] by (simp add: demo_event_def demo_again_def read_client_input_def recv_loop.simps demo_io)
  have same: "put_conn 7 ?c ?srv = ?srv" by (simp add: demo_reading_def put_conn_def demo_accepted_def)
  obtain go srv2 c2 os2 where h: "on_h1_input 7 ?c ?srv os1 = Some ((go, srv2), os2)" "script os2 = [demo_again]"
    "map_of (sv_conns srv2) 7 = Some c2" "contents (wbuf c2) = bytes_of_string response_502" using demo_served [OF r(2)] by auto
  have a: "on_client_read 7 ?c ?srv demo_event = Some ((go, srv2), os2)"
    using r(1) h(1) same demo_events(3) [of demo_text] by (simp add: on_client_read_def bind_io_def)
  have "tls_conn c2 = None" using h1_served [OF demo_reading_ok demo_complete h(1)] h(3) demo_events(1) [of demo_text] by auto
  moreover have "readable (wbuf c2) > 0" by (simp add: readable_contents h(4) response_502_def)
  ultimately obtain w c3 os3 where "write_client_output c2 7 os2 = Some ((Inl w, c3), os3)" "is_would_block w"
    using h(2) by (simp add: write_client_output.simps demo_again_def demo_io is_would_block_def from_code_def)
  then have "on_client_write 7 c2 srv2 os2 = Some (put_conn 7 c3 srv2, os3)"
    by (simp add: on_client_write_def bind_io_def return_io_def)
  with a h(3) have "\<exists>srv' os'. on_client_event 7 3 ?srv demo_event = Some (srv', os')"
    using demo_events(4-7) demo_events(2) [of demo_text] demo_reading_ok(2) [of demo_text] by (auto simp: on_client_event_def bind_io_def return_io_def)
  with r(1) show ?thesis by blast
qed



section \<open>The program\<close>

text \<open>\<open>hushed m\<close>: the action \<open>m\<close> logs nothing.\<close>

definition hushed :: "'a io \<Rightarrow> bool" where
  "hushed m \<longleftrightarrow> (\<forall>os x os'. m os = Some (x, os') \<longrightarrow> os_log os' = os_log os)"

lemma hushedD: "hushed m \<Longrightarrow> m os = Some (x, os') \<Longrightarrow> os_log os' = os_log os"
  unfolding hushed_def by blast

lemma hushed_intros:
  "hushed (return_io x)" "hushed m \<Longrightarrow> (\<And>x. hushed (f x)) \<Longrightarrow> hushed (bind_io m f)"
  unfolding hushed_def by (auto simp: return_io_eq_Some bind_io_eq_Some)

lemma hushed_close_loop: "hushed (close_loop fd)"
proof -
  have "close_loop fd os = Some (x, os') \<Longrightarrow> os_log os' = os_log os" for os x os'
  proof (induction "length (script os)" arbitrary: os rule: less_induct)
    case less
    from less.prems [unfolded close_loop.simps [of fd os]] obtain r s where c: "call (Close fd) os = Some (r, s)"
      "(if ret r < 0 \<and> err r = EINTR then close_loop fd s else return_io () s) = Some (x, os')" by (auto simp: bind_io_eq_Some)
    then have "os_log s = os_log os" "length (script s) < length (script os)" by (auto simp: call_eq_Some)
    with c(2) less.hyps [of s] show ?case by (auto simp: return_io_eq_Some split: if_splits)
  qed
  then show ?thesis unfolding hushed_def by blast
qed

lemma hushed_destroy: "hushed (destroy_fd fd)" "hushed (destroy_client c)" "hushed (destroy_conn p)"
  by (auto simp: destroy_client_def destroy_conn_def destroy_fd_def reset_fd_def intro!: hushed_intros hushed_close_loop)

lemma hushed_destroy_server: "hushed (destroy_server srv)"
proof -
  have c: "hushed (destroy_clients cs)" for cs
    by (induction cs rule: destroy_clients.induct) (auto intro!: hushed_intros hushed_destroy)
  have d: "hushed (destroy_conns ps)" for ps
    by (induction ps rule: destroy_conns.induct) (auto intro!: hushed_intros hushed_destroy)
  have p: "hushed (destroy_pools ps)" for ps
    by (induction ps rule: destroy_pools.induct) (auto intro!: hushed_intros d)
  have t: "hushed (destroy_timers ts)" for ts :: "(u64 \<times> TimerFn Timer) list"
    by (induction ts rule: destroy_timers.induct) (auto intro!: hushed_intros hushed_destroy)
  show ?thesis unfolding destroy_server_def destroy_EpollLoop_def by (intro hushed_intros hushed_destroy c p t)
qed

text \<open>The last line of the log: what \<^verbatim>\<open>main\<close> says before it returns.\<close>

definition last_words :: "Logger option \<Rightarrow> int \<Rightarrow> string \<Rightarrow> string" where
  "last_words lg code t =
     (if code = 0 then log_info lg ''uproxy stopped cleanly'' [] else log_error lg ''fatal error'' [(''msg'', t)])"

lemma serve_outcome:
  assumes "serve own_log cfg os = Some (code, os')"
  shows "\<exists>tr mid t. trace os' = trace os @ tr \<and> opened tr = closed tr \<and> os_stderr os' = os_stderr os \<and> (code = 0 \<or> code = 1) \<and>
    os_log os' = os_log os @ mid @ last_words (os_logger os) code t"
proof -
  from assms obtain srv s1 r srv2 s2 where n: "new_ProxyServer cfg os = Some (srv, s1)" "run srv s1 = Some ((r, srv2), s2)"
    and k: "(case r of Inl e \<Rightarrow> bind_io (error_text e) (\<lambda>t. bind_io (log_error_io ''fatal error'' [(''msg'', t)]) (\<lambda>_.
          bind_io (destroy_server srv2) (\<lambda>_. return_io 1)))
      | Inr _ \<Rightarrow> bind_io (log_info_io ''uproxy stopped cleanly'' []) (\<lambda>_.
          bind_io (if own_log then bind_io (call (Loop Fclose)) (\<lambda>_. return_io ()) else return_io ()) (\<lambda>_.
            bind_io (destroy_server srv2) (\<lambda>_. return_io 0)))) s2 = Some (code, os')"
    by (auto simp: serve_def bind_io_eq_Some)
  obtain a where a: "did os a s1" "{#} + opened a = closed a + server_fds srv"
    using runsD [OF moves_new_ProxyServer [unfolded moves_def] n(1)] .
  obtain b where b: "did s1 b s2" "server_fds srv + opened b = closed b + server_fds srv2"
    using runsD [OF moves_run [unfolded moves_def] n(2)] by auto
  have ab: "opened (a @ b) = closed (a @ b) + server_fds srv2"
    using balance_trans [OF a(2) b(2)] by (simp add: add.assoc)
  obtain lg where lg: "os_log s2 = os_log os @ lg" "os_logger s2 = os_logger os" "trace s2 = trace os @ a @ b" "os_stderr s2 = os_stderr os"
    using did_trans [OF a(1) b(1)] by (auto simp: did_def)
  obtain s3 q t where d: "destroy_server srv2 s3 = Some ((), os')" "code = 0 \<or> code = 1" "trace s3 = trace s2 @ q" "opened q = {#}" "closed q = {#}"
    "os_log s3 = os_log s2 @ last_words (os_logger s2) code t" "os_stderr s3 = os_stderr s2"
  proof (cases r)
    case (Inl e)
    with k that [of _ "[]"] show ?thesis by (auto simp: bind_io_eq_Some return_io_eq_Some error_text_def log_error_io_def last_words_def)
  next
    case (Inr u)
    show ?thesis
    proof (cases own_log)
      case True
      with k Inr obtain c where "destroy_server srv2 (s2\<lparr>os_log := os_log s2 @ log_info (os_logger s2) ''uproxy stopped cleanly'' [],
          script := tl (script s2), trace := trace s2 @ [(Loop Fclose, c)]\<rparr>) = Some ((), os')" "code = 0"
        by (auto simp: io_elims log_info_io_def)
      with that [of _ "[(Loop Fclose, c)]"] show ?thesis by (auto simp: last_words_def)
    next
      case False
      with k Inr that [of _ "[]"] show ?thesis by (auto simp: bind_io_eq_Some return_io_eq_Some log_info_io_def last_words_def)
    qed
  qed
  obtain c where c: "did s3 c os'" "server_fds srv2 + opened c = closed c + {#}"
    using runsD [OF moves_destroy_server [unfolded moves_def] d(1)] .
  have "{#} + (opened (a @ b) + opened c) = closed (a @ b) + (closed c + {#})"
    using ab by (intro balance_trans [OF _ c(2)]) simp
  then have "opened (a @ b @ q @ c) = closed (a @ b @ q @ c)" using d(4,5) by (simp add: add.assoc)
  with c(1) d lg hushedD [OF hushed_destroy_server d(1)] show ?thesis
    by (intro exI [of _ "a @ b @ q @ c"] exI [of _ lg] exI [of _ t]) (simp add: did_def)
qed

text \<open>\<open>log_opened cfg tr\<close>: the program needs no log file, or its first two calls have opened it.\<close>

definition log_opened :: "LogConfig \<Rightarrow> (Call \<times> Reply) list \<Rightarrow> bool" where
  "log_opened cfg tr \<longleftrightarrow> log_file cfg = [] \<or>
     (case tr of (Loop (Open_log f), r) # (Loop (Fdopen fd), d) # _ \<Rightarrow> f = log_file cfg \<and> fd = ret r \<and> ret r \<ge> 0 \<and> ret d \<noteq> 0 | _ \<Rightarrow> False)"

lemma open_log_outcome:
  assumes "open_log cfg os = Some (lo, s)"
  shows "\<exists>tr. trace s = trace os @ tr \<and> os_log s = os_log os \<and> os_strerror s = os_strerror os \<and>
    (case lo of
       None \<Rightarrow> (\<exists>t. os_stderr s = os_stderr os @ ''Log error: '' @ t @ NL) \<and> \<not> log_opened cfg tr
     | Some _ \<Rightarrow> os_stderr s = os_stderr os \<and> opened tr = {#} \<and> closed tr = {#} \<and> (\<forall>tr'. log_opened cfg (tr @ tr')))"
  using assms by (auto simp: open_log_def io_elims stderr_io_def log_opened_def split: if_splits)

definition demo_args :: "string list" where
  "demo_args = [''--no-tls'', ''--upstream'', ''10.0.0.1:80'']"

lemma demo_serve:
  assumes "script os = map reply [3, -1, 0]" "\<not> tls_enabled (cfg_tls cfg)"
  shows "\<exists>os'. serve False cfg os = Some (1, os')"
  using assms by (simp add: serve_def new_ProxyServer_def new_EpollLoop_def run_def load_tls_def setup_listeners_def error_text_def
      log_error_io_def destroy_server_def new_PoolManager_def destroy_fd_def reset_fd_def close_loop.simps destroy_EpollLoop_def demo_io)

lemma demo_main:
  "\<exists>cfg os'. load_config (\<lambda>_. None) (\<lambda>_. False) demo_args = Inr cfg \<and> log_file (cfg_log cfg) = [] \<and>
     main (\<lambda>_. None) (\<lambda>_. False) demo_args (demo_os\<lparr>script := map reply [3, -1, 0]\<rparr>) = Some (1, os')"
proof -
  obtain cfg where c: "load_config (\<lambda>_. None) (\<lambda>_. False) demo_args = Inr cfg" "log_file (cfg_log cfg) = []" "\<not> tls_enabled (cfg_tls cfg)"
    by (simp add: demo_args_def load_config_def cli_takes_value_def cli_option_def parse_upstream_cli_def find_from_def
        parse_port_def parse_u32_def from_chars_all_def from_chars_def digits_value_def is_digit_def
        digit_val_def trim_def strip_def char_simps config_validate_def default_config_def default_log_def
        default_tls_def bad_upstream_def default_upstream_def)
  then show ?thesis
    using demo_serve [of "demo_os\<lparr>script := map reply [3, -1, 0], os_logger := lg, os_log := l\<rparr>" cfg for lg l]
    by (auto simp: main_def open_log_def set_logger_def log_info_io_def bind_io_def return_io_def)
qed



end
