(* ===== verification/Stream_Events.thy ===== *)
theory Stream_Events
  imports Server_Events
begin

text \<open>
  One event of an HTTP/2 connection: the streams that become ready, what each of them is answered, and
  the output that the client gets (\<^verbatim>\<open>handle_h2_client\<close> of \<^verbatim>\<open>src/proxy.cpp\<close>).
\<close>

section \<open>The answers of an event\<close>

text \<open>\<open>h2_answered cfgs h sid answer tr\<close>: the stream \<open>sid\<close> of \<open>h\<close> is in the table, and \<open>answer\<close> is what its request
  gets within \<open>tr\<close>.\<close>

definition h2_answered ::
  "UpstreamConfig list \<Rightarrow> H2Conn \<Rightarrow> u32 \<Rightarrow> HpackHeader list \<times> bytes \<Rightarrow> (Call \<times> Reply) list \<Rightarrow> bool" where
  "h2_answered cfgs h sid answer tr \<longleftrightarrow> (\<exists>headers body. stream_headers sid h = Some headers \<and> stream_body sid h = Some body \<and>
     (answer = (h2_refusal ''503'', []) \<and> (\<forall>u\<in>set cfgs. \<not> uc_healthy u) \<or> answer = (h2_refusal ''502'', []) \<or>
      (\<exists>bs lb. lb_ok cfgs lb \<and> answer = h2_response bs \<and> relayed lb (h2_request headers body) body bs tr)))"

definition answer_all :: "(u32 \<times> HpackHeader list \<times> bytes) list \<Rightarrow> H2Conn \<Rightarrow> H2Conn" where
  "answer_all = fold (\<lambda>(sid, answer). h2_answer sid answer)"

text \<open>\<open>same_out\<close>: two connections that answer alike.\<close>

definition same_out :: "H2Conn \<Rightarrow> H2Conn \<Rightarrow> bool" where
  "same_out h h' \<longleftrightarrow> hpack_enc h = hpack_enc h' \<and> send_buf h = send_buf h' \<and> c_max_frame_size h = c_max_frame_size h'"

lemma send_response_out:
  "\<exists>enc b. \<forall>h'. same_out h h' \<longrightarrow> snd (send_response sid hs body e h') = h'\<lparr>hpack_enc := enc, send_buf := b\<rparr>"
proof -
  obtain r enc encoded where r: "hpack_encode (hpack_enc h) hs (new_RingBuffer 4096) = (r, enc, encoded)" by (metis prod_cases3)
  show ?thesis
  proof (cases r)
    case (Inl err)
    then show ?thesis using r by (intro exI [of _ enc] exI [of _ "send_buf h"]) (auto simp: same_out_def send_response_def)
  next
    case (Inr u)
    obtain q b where q: "write_headers sid (peek (readable encoded) encoded) (body = [] \<and> e) (c_max_frame_size h) (send_buf h) = (q, b)" by force
    obtain q' b' where q': "write_data sid body e (c_max_frame_size h) b = (q', b')" by force
    have "snd (send_response sid hs body e h') = h'\<lparr>hpack_enc := enc, send_buf := if is_ok q \<and> body \<noteq> [] then b' else b\<rparr>"
      if "same_out h h'" for h'
    proof -
      have "hpack_enc h' = hpack_enc h" "send_buf h' = send_buf h" "c_max_frame_size h' = c_max_frame_size h"
        using that by (simp_all add: same_out_def)
      then show ?thesis
        using r Inr q q' by (cases q; cases "body = []") (simp_all add: send_response_def on_send_def try_then_def is_ok_def Let_def)
    qed
    then show ?thesis by blast
  qed
qed

lemma same_out_refl [simp]: "same_out h h"
  by (simp add: same_out_def)

lemma same_out_answer: "same_out h h' \<Longrightarrow> same_out (h2_answer sid answer h) (h2_answer sid answer h')"
  using send_response_out [of h sid "fst answer" "snd answer" True] by (auto simp: h2_answer_def) (simp add: same_out_def)

lemma same_out_all: "same_out h h' \<Longrightarrow> same_out (answer_all xs h) (answer_all xs h')"
  by (induction xs arbitrary: h h') (auto simp: answer_all_def same_out_answer)

lemma same_out_finish: "same_out (finish_stream sid n h) h"
  by (auto simp: same_out_def finish_stream_def consume_body_def put_stream_def split: option.split)

lemma answer_frame: "streams (h2_answer sid answer h) = streams h" "c_done (h2_answer sid answer h) = c_done h"
proof -
  obtain enc b where "h2_answer sid answer h = h\<lparr>hpack_enc := enc, send_buf := b\<rparr>"
    using send_response_out [of h sid "fst answer" "snd answer" True] by (auto simp: h2_answer_def)
  then show "streams (h2_answer sid answer h) = streams h" "c_done (h2_answer sid answer h) = c_done h" by simp_all
qed

lemma finish_frame: "sid' \<noteq> sid \<Longrightarrow> streams (finish_stream sid n h) sid' = streams h sid'" "c_done (finish_stream sid n h) = c_done h"
  by (auto simp: finish_stream_def consume_body_def put_stream_def split: option.split)

lemma h2_answered_cong: "streams h sid = streams h' sid \<Longrightarrow> h2_answered cfgs h sid answer tr = h2_answered cfgs h' sid answer tr"
  by (simp add: h2_answered_def stream_headers_def stream_body_def)

lemma h2_stream_frame: "gives (\<lambda>(c', _, _, _). \<exists>u. c' = c\<lparr>cc_upstream := u\<rparr>) (h2_stream sid c h lb pools os)"
  unfolding h2_stream_def Let_def by (intro gives_intros) (auto intro: exI [of _ "cc_upstream c"])

lemma h2_stream_step:
  assumes "h2_stream sid c h lb pools os = Some ((c', h', lb', pools'), os')" "lb_ok cfgs lb" "streams h sid \<noteq> None"
  shows "\<exists>n answer tr. trace os' = trace os @ tr \<and> h2_answered cfgs h sid answer tr \<and> h' = finish_stream sid n (h2_answer sid answer h)"
proof -
  obtain headers body where b: "stream_headers sid h = Some headers" "stream_body sid h = Some body"
    using assms(3) by (auto simp: stream_headers_def stream_body_def)
  have "lb_wf lb" using assms(2) by (simp add: lb_ok_def)
  from h2_stream_answers [OF assms(1) this b] obtain answer tr where a: "trace os' = trace os @ tr"
    "h' = finish_stream sid (length body) (h2_answer sid answer h)"
    "answer = (h2_refusal ''503'', []) \<and> (\<forall>ep\<in>set (endpoints lb). \<not> ep_healthy ep) \<or> answer = (h2_refusal ''502'', []) \<or>
     (\<exists>bs. answer = h2_response bs \<and> relayed lb (h2_request headers body) body bs tr)" by blast
  then have "h2_answered cfgs h sid answer tr"
    unfolding h2_answered_def using b lb_ok_healthy [OF assms(2)] assms(2)
    by (intro exI [of _ headers] exI [of _ body] conjI b) metis
  with a(1,2) show ?thesis by blast
qed

text \<open>Streams are answered in the order in which they became ready.\<close>

lemma h2_streams_answers:
  assumes "h2_streams sids c h lb pools os = Some ((c', h', lb', pools'), os')" "client_ok c" "conn_inv h" "lb_ok cfgs lb"
    and "distinct sids" "\<forall>sid\<in>set sids. streams h sid \<noteq> None"
  shows "\<exists>ans u. trace os' = trace os @ concat (map snd ans) \<and> list_all2 (\<lambda>sid (answer, tr). h2_answered cfgs h sid answer tr) sids ans \<and>
    same_out h' (answer_all (zip sids (map fst ans)) h) \<and> c_done h' = c_done h \<and> c' = c\<lparr>cc_upstream := u\<rparr>"
  using assms
proof (induction sids arbitrary: c h lb pools os)
  case Nil
  then have "c' = c" "h' = h" "os' = os" by (simp_all add: return_io_eq_Some)
  then show ?case
    by (intro exI [of _ "[]"] exI [of _ "cc_upstream c"]) (simp add: answer_all_def same_out_def)
next
  case (Cons sid sids)
  from Cons.prems(1) obtain c1 h1 lb1 pools1 s where a: "h2_stream sid c h lb pools os = Some ((c1, h1, lb1, pools1), s)"
    and b: "h2_streams sids c1 h1 lb1 pools1 s = Some ((c', h', lb', pools'), os')" by (auto simp: bind_io_eq_Some)
  obtain n answer tr where st: "trace s = trace os @ tr" "h2_answered cfgs h sid answer tr" "h1 = finish_stream sid n (h2_answer sid answer h)"
    using h2_stream_step [OF a Cons.prems(4)] Cons.prems(6) by auto
  have ok: "client_ok c1" "conn_inv h1" "lb_ok cfgs lb1" using givesD [OF h2_stream_ok [OF Cons.prems(2-4)] a] by auto
  obtain u1 where u1: "c1 = c\<lparr>cc_upstream := u1\<rparr>" using givesD [OF h2_stream_frame a] by auto
  have same: "streams h1 sid' = streams h sid'" if "sid' \<in> set sids" for sid'
  proof -
    have "sid' \<noteq> sid" using that Cons.prems(5) by auto
    then show ?thesis by (simp add: st(3) finish_frame answer_frame)
  qed
  have d: "distinct sids" "\<forall>sid'\<in>set sids. streams h1 sid' \<noteq> None" using Cons.prems(5,6) same by simp_all
  from Cons.IH [OF b ok d] obtain ans u where r: "trace os' = trace s @ concat (map snd ans)"
    "list_all2 (\<lambda>sid (answer, tr). h2_answered cfgs h1 sid answer tr) sids ans" "same_out h' (answer_all (zip sids (map fst ans)) h1)"
    "c_done h' = c_done h1" "c' = c1\<lparr>cc_upstream := u\<rparr>" by blast
  have l: "list_all2 (\<lambda>sid (answer, tr). h2_answered cfgs h sid answer tr) sids ans"
    using r(2) by (rule list.rel_mono_strong) (auto simp: h2_answered_cong [OF same])
  have "same_out (answer_all (zip sids (map fst ans)) h1) (answer_all (zip sids (map fst ans)) (h2_answer sid answer h))"
    unfolding st(3) by (intro same_out_all same_out_finish)
  with r(3) have o: "same_out h' (answer_all (zip (sid # sids) (map fst ((answer, tr) # ans))) h)"
    by (simp add: answer_all_def same_out_def)
  show ?case
    by (rule exI [of _ "(answer, tr) # ans"], rule exI [of _ u])
      (use o r(1,4,5) st l u1 in \<open>simp add: finish_frame answer_frame\<close>)
qed

lemma feed_nothing: "snd (feed [] h) = h"
  by (simp add: feed_eq append_rb_def ensure_writable_def try_then_def append_loop.simps)

lemma h2_feed_all:
  assumes "rb_inv (rbuf c)" "rb_inv (recv_buf h)"
  shows "\<exists>b. h2_feed c h = (Inr (), c\<lparr>rbuf := b\<rparr>, snd (feed (contents (rbuf c)) h)) \<and> rb_inv b \<and> contents b = []"
proof (cases "readable (rbuf c) > 0")
  case True
  obtain b' where "append_rb (contents (rbuf c)) (recv_buf h) = (Inr (), b')" using append_rb_stream [OF assms(2)] by (metis surj_pair)
  with True show ?thesis
    by (intro exI [of _ "commit_read (length (contents (rbuf c))) (rbuf c)"])
      (simp add: h2_feed_def rbq.peek_all assms(1) feed_def rb_inv_commit_read contents_commit_read)
next
  case False
  then have "contents (rbuf c) = []" by (simp add: empty_contents)
  with False assms(1) show ?thesis by (intro exI [of _ "rbuf c"]) (simp add: h2_feed_def feed_nothing)
qed

text \<open>Handing over the output: all of it, unless the connection is done.\<close>

lemma h2_flush_run:
  assumes "h2_flush fd c h srv os = Some (srv', os')" "distinct (map fst (sv_conns srv))" "rb_inv (wbuf c)" "rb_inv (send_buf h)"
  shows "\<exists>tr. trace os' = trace os @ tr \<and>
    (if c_done h then map_of (sv_conns srv') fd = None
     else \<exists>c' h'. map_of (sv_conns srv') fd = Some c' \<and> contents (wbuf c') = contents (wbuf c) @ pending_output h \<and>
       rbuf c' = rbuf c \<and> h2conn c' = Some h' \<and> pending_output h' = [] \<and> streams h' = streams h)"
proof -
  obtain c1 h1 s where k: "(if is_done h then close_conn fd ''h2 done'' (put_conn fd c1 srv) else return_io (put_conn fd c1 srv)) s = Some (srv', os')"
    and c1: "contents (wbuf c1) = contents (wbuf c) @ pending_output h" "rbuf c1 = rbuf c" "h2conn c1 = Some h1"
      "pending_output h1 = []" "streams h1 = streams h"
    and s: "\<exists>tr. trace s = trace os @ tr"
  proof (cases "pending_output h = []")
    case True
    with assms(1) that [of "c\<lparr>h2conn := Some h\<rparr>" os h] show ?thesis by (simp add: h2_flush_def bind_io_def return_io_def)
  next
    case False
    let ?h = "consume_output (length (pending_output h)) h"
    let ?c = "c\<lparr>wbuf := snd (append_rb (pending_output h) (wbuf c)), h2conn := Some ?h\<rparr>"
    from False assms(1) obtain r s where m: "modify fd (EvRead OR EvWrite) (sv_loop (put_conn fd ?c srv)) os = Some (r, s)"
      and k: "(if is_done h then close_conn fd ''h2 done'' (put_conn fd ?c srv) else return_io (put_conn fd ?c srv)) s = Some (srv', os')"
      by (auto simp: h2_flush_def Let_def bind_io_eq_Some return_io_eq_Some)
    have "pending_output ?h = []"
      using assms(4) by (simp add: pending_output_def consume_output_def rbq.peek_all rb_inv_commit_read contents_commit_read)
    with that [OF k] append_contents [OF assms(3)] modify_run [OF m] show ?thesis by (auto simp: consume_output_def)
  qed
  have d: "distinct (map fst (sv_conns (put_conn fd c1 srv)))" using assms(2) by (simp add: put_conn_def distinct_assign)
  obtain tr where tr: "trace s = trace os @ tr" using s by blast
  show ?thesis
  proof (cases "c_done h")
    case True
    with k have cc: "close_conn fd ''h2 done'' (put_conn fd c1 srv) s = Some (srv', os')" by (simp add: is_done_def)
    from close_conn_gone [OF cc d] trace_extends [OF moves_close_conn cc] tr True show ?thesis by auto
  next
    case False
    with k have "srv' = put_conn fd c1 srv" "os' = s" by (simp_all add: is_done_def return_io_eq_Some)
    with c1 tr False show ?thesis by (auto simp: put_conn_def)
  qed
qed


lemma process_in_table: "process h = (Inr ready, h') \<Longrightarrow> sid \<in> set ready \<Longrightarrow> streams h' sid \<noteq> None"
  using process_ready_exact [of h ready h'] by (cases "streams h' sid") (auto simp: remote_closed_def)

lemma handle_h2_run:
  assumes "server_inv cfg srv" "stands fd c srv" "h = (case h2conn c of None \<Rightarrow> new_H2Conn True | Some h \<Rightarrow> h)"
    and p: "process (snd (feed (contents (rbuf c)) h)) = (Inr ready, h1)"
    and run: "handle_h2_client c fd srv os = Some (srv', os')"
  shows "\<exists>ans tr_end. trace os' = trace os @ concat (map snd ans) @ tr_end \<and>
    list_all2 (\<lambda>sid (answer, tr). h2_answered (upstreams cfg) h1 sid answer tr) ready ans \<and>
    (if is_done h1 then map_of (sv_conns srv') fd = None
     else \<exists>c' h'. map_of (sv_conns srv') fd = Some c' \<and> contents (rbuf c') = [] \<and>
       contents (wbuf c') = contents (wbuf c) @ pending_output (answer_all (zip ready (map fst ans)) h1) \<and>
       h2conn c' = Some h' \<and> pending_output h' = [])"
proof -
  have c: "client_ok c" "rb_inv (rbuf c)" "rb_inv (wbuf c)" and lb: "lb_ok (upstreams cfg) (sv_lb srv)"
    and di: "distinct (map fst (sv_conns srv))"
    using assms(1,2) by (auto simp: stands_def client_ok_def server_inv_def conns_ok_def)
  have h: "conn_inv h" using c(1) assms(3) by (auto simp: client_ok_def conn_inv_new split: option.splits)
  then have "rb_inv (recv_buf h)" by (simp add: conn_inv_def)
  from h2_feed_all [OF c(2) this] obtain b where f: "h2_feed c h = (Inr (), c\<lparr>rbuf := b\<rparr>, snd (feed (contents (rbuf c)) h))" "rb_inv b" "contents b = []" by blast
  have "conn_inv (snd (feed (contents (rbuf c)) h))" using conn_inv_h2_ops(4) [OF h] by (metis surj_pair snd_conv)
  then have h1: "conn_inv h1" by (rule process_inv [OF _ p])
  from run obtain c2 h2 lb2 pools2 s where st: "h2_streams ready (c\<lparr>rbuf := b\<rparr>) h1 (sv_lb srv) (sv_pools srv) os = Some ((c2, h2, lb2, pools2), s)"
    and fl: "h2_flush fd c2 h2 (srv\<lparr>sv_lb := lb2, sv_pools := pools2\<rparr>) s = Some (srv', os')"
    unfolding handle_h2_client_def Let_def assms(3) [symmetric] f p prod.case sum.case by (auto simp: bind_io_eq_Some)
  have ok: "client_ok (c\<lparr>rbuf := b\<rparr>)" using c(1) f(2) by (simp add: client_ok_def)
  have h2: "conn_inv h2" using givesD [OF h2_streams_ok [OF ok h1 lb] st] by simp
  from h2_streams_answers [OF st ok h1 lb] process_ready_exact [OF p] process_in_table [OF p] obtain ans u where
    a: "trace s = trace os @ concat (map snd ans)" "list_all2 (\<lambda>sid (answer, tr). h2_answered (upstreams cfg) h1 sid answer tr) ready ans"
      "same_out h2 (answer_all (zip ready (map fst ans)) h1)" "c_done h2 = c_done h1" "c2 = c\<lparr>rbuf := b, cc_upstream := u\<rparr>" by auto
  have o: "pending_output h2 = pending_output (answer_all (zip ready (map fst ans)) h1)" using a(3) by (simp add: same_out_def pending_output_def)
  from h2_flush_run [OF fl] di c(3) h2 a(5) obtain tr where "trace os' = trace s @ tr"
    "if c_done h2 then map_of (sv_conns srv') fd = None
     else \<exists>c' h'. map_of (sv_conns srv') fd = Some c' \<and> contents (wbuf c') = contents (wbuf c2) @ pending_output h2 \<and>
       rbuf c' = rbuf c2 \<and> h2conn c' = Some h' \<and> pending_output h' = [] \<and> streams h' = streams h2"
    by (auto simp: conn_inv_def)
  with a(1,2,4,5) o f(3) show ?thesis
    by (intro exI [of _ ans] exI [of _ tr]) (auto simp: is_done_def)
qed

definition demo_h2 :: H2Conn where
  "demo_h2 = (new_H2Conn True)\<lparr>saw_preface := True\<rparr>"

definition demo_frame :: bytes where
  "demo_frame = [0, 0, 0, 1, 5, 0, 0, 0, 1]"

text \<open>An HTTP/2 client whose HEADERS frame has arrived, of a server without upstreams.\<close>

definition demo_h2_client :: ClientConn where
  "demo_h2_client = (demo_client (string_of_bytes demo_frame))\<lparr>cc_proto := HTTP2, h2conn := Some demo_h2\<rparr>"

definition demo_h2_config :: ProxyConfig where
  "demo_h2_config = demo_config\<lparr>upstreams := []\<rparr>"

definition demo_h2_server :: ProxyServer where
  "demo_h2_server = (put_conn 7 demo_h2_client demo_accepted)\<lparr>sv_cfg := demo_h2_config, sv_lb := new_WeightedRoundRobin []\<rparr>"

definition demo_h2_event :: OS where
  "demo_h2_event = demo_os\<lparr>script := demo_again # map reply [0, 0, 0]\<rparr>"

lemma demo_h2_process: "\<exists>h1. process (snd (feed demo_frame demo_h2)) = (Inr [1], h1)"
proof -
  let ?v = "fst (h2_view demo_h2)"
  have v: "c_max_frame_size ?v = 16384" "streams ?v 1 = None" "saw_preface ?v" "snd (h2_view demo_h2) = []" "rb_inv (recv_buf demo_h2)"
    by (simp_all add: h2_view_def demo_h2_def new_H2Conn_def)
  have "response_bytes 1 [] [] = demo_frame"
    by (simp add: response_bytes_def data_frames.simps frame_bytes_def header_bytes_def mk_frame_def u32_bytes_def
        byte_at_def frame_types frame_flags demo_frame_def)
  then obtain d where "loop_bytes ?v demo_frame [] = (Inr [1], d, [])"
    using response_received [of ?v "[]" "hpack_dec ?v" 1 "[]"] v by (auto simp: hpack_decode.simps)
  then have "process_bytes (?v, demo_frame) = (Inr [1], d, [])" using v(3) by (simp add: process_bytes_def)
  then show ?thesis
    using process_eval [of "snd (feed demo_frame demo_h2)"] feed_view [OF v(5), of demo_frame] v(4) by (metis append_Nil)
qed

lemma demo_h2_ok:
  "server_inv demo_h2_config demo_h2_server" "map_of (sv_conns demo_h2_server) 7 = Some demo_h2_client"
  "cc_state demo_h2_client \<noteq> TLSHandshake" "cc_proto demo_h2_client = HTTP2" "tls_conn demo_h2_client = None"
  "contents (rbuf demo_h2_client) = demo_frame" "h2conn demo_h2_client = Some demo_h2" "contents (wbuf demo_h2_client) = []"
proof -
  have "conn_inv demo_h2" using conn_inv_new [of True] by (simp add: demo_h2_def conn_inv_def)
  then have "stands 7 demo_h2_client demo_accepted"
    using client_ok_accepted [of False 7 1 "reply 0" demo_listening]
    by (simp add: stands_def demo_accepted_def client_ok_def demo_client_def demo_h2_client_def buffer_of(1))
  from server_inv_put [OF server_reach_inv [OF demo_accepted_reach] this] show "server_inv demo_h2_config demo_h2_server"
    using lb_ok_new [of "[]"] by (simp add: server_inv_def demo_h2_server_def demo_h2_config_def)
  show "map_of (sv_conns demo_h2_server) 7 = Some demo_h2_client" by (simp add: demo_h2_server_def put_conn_def)
  show "cc_state demo_h2_client \<noteq> TLSHandshake" "cc_proto demo_h2_client = HTTP2" "tls_conn demo_h2_client = None"
    "contents (rbuf demo_h2_client) = demo_frame" "h2conn demo_h2_client = Some demo_h2" "contents (wbuf demo_h2_client) = []"
    by (simp_all add: demo_h2_client_def demo_events demo_buffers buffer_of(2))
qed

lemma demo_h2_run:
  "\<exists>os1 srv' os'. read_client_input demo_h2_client 7 demo_h2_event = Some ((Inr False, demo_h2_client), os1) \<and>
     on_client_event 7 1 demo_h2_server demo_h2_event = Some (srv', os')"
proof -
  let ?c = demo_h2_client and ?srv = demo_h2_server
  obtain os1 where r: "read_client_input ?c 7 demo_h2_event = Some ((Inr False, ?c), os1)" "script os1 = map reply [0, 0, 0]"
    using demo_h2_ok(5) by (simp add: demo_h2_event_def demo_again_def read_client_input_def recv_loop.simps demo_io)
  have same: "put_conn 7 ?c ?srv = ?srv" by (simp add: demo_h2_server_def put_conn_def demo_accepted_def)
  obtain h1 where p: "process (snd (feed demo_frame demo_h2)) = (Inr [1], h1)" using demo_h2_process by blast
  have i: "rb_inv (rbuf ?c)" "rb_inv (recv_buf demo_h2)" using stands_found [OF demo_h2_ok(1,2)] demo_h2_ok(7)
    by (auto simp: stands_def client_ok_def conn_inv_def)
  obtain b where f: "h2_feed ?c demo_h2 = (Inr (), ?c\<lparr>rbuf := b\<rparr>, snd (feed demo_frame demo_h2))"
    using h2_feed_all [OF i] demo_h2_ok(6) by auto
  have "\<exists>lb. next_lb (new_WeightedRoundRobin []) = (None, lb)" by (simp add: next_lb_def new_WeightedRoundRobin_def)
  then obtain c2 h2 lb pools where st: "h2_streams [1] (?c\<lparr>rbuf := b\<rparr>) h1 (sv_lb ?srv) (sv_pools ?srv) os1 = Some ((c2, h2, lb, pools), os1)"
    using process_in_table [OF p, of 1]
    by (auto simp: h2_stream_def stream_headers_def stream_body_def bind_io_def return_io_def Let_def demo_h2_server_def put_conn_def)
  have "\<exists>srv' os'. h2_flush 7 c2 h2 (?srv\<lparr>sv_lb := lb, sv_pools := pools\<rparr>) os1 = Some (srv', os')"
    using r(2) by (cases "pending_output h2 = []"; cases "is_done h2")
      (simp_all add: h2_flush_def modify_def close_conn_def remove_def log_info_io_def destroy_client_def destroy_fd_def reset_fd_def
        close_loop.simps put_conn_def demo_io)
  then obtain srv' os' where "handle_h2_client ?c 7 ?srv os1 = Some (srv', os')"
    using st by (auto simp: handle_h2_client_def demo_h2_ok(7) f p bind_io_def Let_def)
  then have "on_client_read 7 ?c ?srv demo_h2_event = Some ((False, srv'), os')"
    using r(1) same demo_h2_ok(4) by (simp add: on_client_read_def bind_io_def return_io_def)
  then have "on_client_event 7 1 ?srv demo_h2_event = Some (srv', os')"
    using demo_h2_ok(2,3) by (auto simp: on_client_event_def bind_io_def return_io_def has_def split: option.split)
  with r(1) show ?thesis by blast
qed



end
