(* ===== verification/Spec2Isabelle.thy ===== *)
theory Spec2Isabelle
  imports Result_Class Config_Properties Hpack_Properties Http2_Streams Client_Io Event_Loop Stream_Events
begin

text \<open>
  A verification development for uproxy, a reverse proxy that accepts HTTP/1.1 and HTTP/2 clients,
  with and without TLS, and forwards their requests over HTTP/1.1 to a weighted set of upstreams.

  \<^bold>\<open>The program.\<close>  \<^verbatim>\<open>main\<close> reads the configuration, opens the log and runs one \<^verbatim>\<open>ProxyServer\<close>.  The
  server registers its listeners and one timer with an event loop and reacts to events: it accepts
  connections, drives the TLS handshake, reads client input into a ring buffer, parses requests
  (HTTP/1.1 text, or HTTP/2 frames with HPACK headers), lets the balancer choose an upstream, takes a
  connection from that upstream's pool, exchanges request and response on it, and puts the answer
  in the client's output buffer, from which write events send it.  The timer evicts idle upstream
  connections.  A signal sets a flag that ends the loop.

  \<^bold>\<open>Theories and sources\<close> (paths under \<^verbatim>\<open>src/\<close>; records, datatypes and operations keep the names of
  the source).
  \<^item> \<open>Prelude\<close>: types of bytes and words, byte strings, substring search, numerals, and hash maps as
    lists of pairs with distinct keys (\<open>assign\<close>, \<open>erase\<close>).
  \<^item> \<open>Results\<close>: \<^verbatim>\<open>Result<T>\<close> and \<^verbatim>\<open>Error\<close> (\<^verbatim>\<open>include/uproxy/result.h\<close>, \<^verbatim>\<open>src/result.cpp\<close>) as a sum type.
  \<^item> \<open>Result_Class\<close>: the two class templates of \<^verbatim>\<open>result.h\<close> with their optional members, and their
    refinement to that sum type.
  \<^item> \<open>Ring_Buffer\<close>: \<^verbatim>\<open>src/buffer.cpp\<close>.  The locale \<open>byte_queue\<close> is what all clients of the buffer rely
    on; its interpretation \<open>rbq\<close> proves it of the cursor arithmetic.
  \<^item> \<open>Config\<close>, \<open>Config_Properties\<close>: \<^verbatim>\<open>src/config.cpp\<close> and the first step of \<^verbatim>\<open>main\<close>.
  \<^item> \<open>Load_Balancer\<close>: \<^verbatim>\<open>src/load_balancer.cpp\<close>; locale \<open>upstream_selector\<close>, interpretation \<open>wrr\<close>.
  \<^item> \<open>Http1\<close>, \<open>Http1_Properties\<close>: \<^verbatim>\<open>src/http1.cpp\<close>.
  \<^item> \<open>Huffman\<close>, \<open>Huffman_Properties\<close>, \<open>Hpack\<close>, \<open>Hpack_Properties\<close>: \<^verbatim>\<open>src/hpack.cpp\<close> and the code table
    \<^verbatim>\<open>include/uproxy/hpack_huffman_table.h\<close>.
  \<^item> \<open>Http2\<close>, \<open>Http2_Frames\<close>, \<open>Http2_Conn\<close>, \<open>Http2_Streams\<close>: \<^verbatim>\<open>src/http2.cpp\<close>.
  \<^item> \<open>Log\<close>: \<^verbatim>\<open>include/uproxy/log.h\<close>, \<^verbatim>\<open>src/log.cpp\<close>.
  \<^item> \<open>Os\<close>: system calls, and \<^verbatim>\<open>Uniquefd\<close> (\<^verbatim>\<open>src/fd.cpp\<close>).
  \<^item> \<open>Upstream_Pool\<close>: \<^verbatim>\<open>src/upstream_pool.cpp\<close>, with the transition system \<open>pool_step\<close> that interleaves
    the critical sections of several users.
  \<^item> \<open>Tls\<close>: \<^verbatim>\<open>src/tls.cpp\<close>, the build with the TLS library and the one without.
  \<^item> \<open>Event_Loop\<close>: \<^verbatim>\<open>src/event_loop_epoll.cpp\<close> and \<^verbatim>\<open>src/event_loop_kqueue.cpp\<close>; the locale
    \<open>timer_service\<close> is interpreted on both (\<open>ept\<close>, \<open>kqt\<close>), \<open>loop_owner\<close> is what the loop needs from
    the object whose callbacks it runs.
  \<^item> \<open>Proxy_Io\<close>, \<open>Proxy_Exchange\<close>: the functions of \<^verbatim>\<open>src/proxy.cpp\<close> before the class: waiting, client
    input and output with TLS in between, and the exchange with an upstream.
  \<^item> \<open>Client_Io\<close>: the byte streams of a client connection: what its input and output functions make of
    the bytes that the socket and the TLS library take and give.
  \<^item> \<open>Proxy_Server\<close>: the class \<^verbatim>\<open>ProxyServer\<close> of \<^verbatim>\<open>src/proxy.cpp\<close>; interpretation \<open>svl\<close> of \<open>loop_owner\<close>.
  \<^item> \<open>Server_Life\<close>: the rest of \<^verbatim>\<open>src/main.cpp\<close>, and the descriptors of the server.
  \<^item> \<open>Server_Invariant\<close>: the states of the server (\<open>server_reach\<close>) and their invariant.
  \<^item> \<open>Server_Properties\<close>: the properties of the server.
  \<^item> \<open>Server_Events\<close>: one event from the bytes that arrive to those that leave, and how \<^verbatim>\<open>main\<close> ends.
  \<^item> \<open>Stream_Events\<close>: the same for an HTTP/2 connection and its streams.

  \<^bold>\<open>State and effects.\<close>  A class is a record of its members, a member function a function on it;
  errors are values of \<open>Error + 'a\<close>.  Code that talks to the kernel or to the TLS library is of type
  \<open>'a io\<close>: the \<open>script\<close> holds the replies of all calls to come, of which nothing is assumed, and the
  \<open>trace\<close> the calls made.  Machine integers are words where they can wrap; the weights of the balancer
  are integers, with a property that they fit \<^verbatim>\<open>int64_t\<close>.

  \<^bold>\<open>Fuel and bounds.\<close>  There is no fuel: loops over data recurse on the data (ring buffer, parsers,
  HPACK, frames), and a loop that repeats a system call recurses on the script, since every round
  consumes a reply.  \<open>None\<close> therefore means that the program is still waiting in a call, and never
  that the model gave up.  The retry loop of \<^verbatim>\<open>forward_http1\<close> counts its two attempts as the source
  does.

  \<^bold>\<open>What is shown.\<close>
  \<^item> From client to upstream and back: what a complete HTTP/1.1 request, any other input, and an
    HTTP/2 request lead to, down to the bytes on the upstream connection and, for HTTP/2, up to the
    headers and body that the client decodes.
  \<^item> The client's connection: input and output are exact byte streams in clear and through TLS, across
    partial and blocked sends; an event that brings a request is followed from the bytes received,
    over parser, balancer, pool and exchange, to the bytes sent and the fate of the connection, and
    one of an HTTP/2 connection over its streams to the output of all their answers.
  \<^item> The server: well-formedness of every state, the balance of descriptors up to the destructor, the
    choice of upstreams, termination of the shutdown; the exit code of the program, and what it leaves
    on the standard error, in the log and among the descriptors.
  \<^item> Buffers and codecs: refinement of a byte queue; soundness, framing and round trips of the
    HTTP/1.1 parser; round trips and safety of Huffman coding, HPACK and frames; independence of
    how input is cut into reads; streams are reported exactly once.
  \<^item> Resources: exact fairness and smoothness of the balancer and the width of its weights;
    capacity and descriptors of a pool in every interleaving; armed timers on both loops.
  \<^item> Configuration, log and protocol selection: what an accepted configuration satisfies, JSON lines
    read back, \<^verbatim>\<open>h2\<close> preferred.
  \<^item> Several properties and lemmas state what the code does where it does not do what it should: they
    name the defects found (lost pool capacity, stale connections, HPACK index and integer cases, partial
    headers, connection flow control, unchecked HTTP/2 targets).

  \<^bold>\<open>Not modelled.\<close>  The source lines without a definition are includes, declarations of functions that
  are defined elsewhere, accessors that return a member, defaulted special members and namespaces;
  every other function body is modelled, except \<^verbatim>\<open>value_to_string\<close> of the logger, whose callers pass text
  here.  The kernel, the TLS library and the file system are arguments (script,
  \<open>read_file\<close>, \<open>is_reg\<close>).  The server is single-threaded; only the pool, which has a mutex, is
  interleaved.  \<^verbatim>\<open>std::bad_alloc\<close>, destruction of objects without descriptors, \<^verbatim>\<open>fflush\<close>, the log's
  mutex and \<^verbatim>\<open>user_data\<close> of events, which nobody reads, are left out.  Iteration over a hash map
  follows the order of insertion, on which no property depends.  The server is modelled on the
  epoll loop; the kqueue loop has the same interface and is treated by itself.  Tests, fuzz drivers,
  build files and the developer script \<^verbatim>\<open>generate_huffman.py\<close> are not part of the program.
\<close>

end
